(* ===== verification/Prelude.thy ===== *)
theory Prelude
  imports Main "HOL-Library.Word" "HOL-Library.Multiset"
begin

text \<open>
  Shared ground of the development: the names of the machine types the C sources use,
  the error values a C operation can end with, sequencing of fallible operations, and the
  generic lemmas on lists, multisets and words that the component theories rely on.
\<close>

section \<open>Machine types and pointers\<close>

type_synonym u8 = "8 word"
type_synonym u16 = "16 word"
type_synonym u32 = "32 word"
type_synonym u64 = "64 word"

text \<open>An object is named by its address; a pointer is an address or \<open>NULL\<close> (\<open>None\<close>).\<close>

type_synonym addr = nat
type_synonym ptr = "addr option"

section \<open>Errors as values\<close>

text \<open>
  The ways a modelled operation can fail: a \<open>NULL\<close> dereference, a failed \<open>assert\<close>,
  reading a variable that was never assigned, releasing or destroying a lock in a state its
  code asserts against, waiting for a lock that the
  waiting thread can never get, a loop that repeats without ever changing its
  state, and using bytes that are no pointer as a pointer.
\<close>

datatype c_err =
    NullDeref
  | AssertFail
  | Uninit
  | SelfDeadlock
  | Diverges
  | BadPointer

primrec andthen :: "'e + 'a \<Rightarrow> ('a \<Rightarrow> 'e + 'b) \<Rightarrow> 'e + 'b" where
  "andthen (Inl e) f = Inl e"
| "andthen (Inr x) f = f x"

lemma andthen_Inr_iff: "andthen x f = Inr z \<longleftrightarrow> (\<exists>y. x = Inr y \<and> f y = Inr z)"
  by (cases x) auto

lemma andthen_Inl_iff:
  "andthen x f = Inl e \<longleftrightarrow> x = Inl e \<or> (\<exists>y. x = Inr y \<and> f y = Inl e)"
  by (cases x) auto

lemma andthen_assoc: "andthen (andthen x f) g = andthen x (\<lambda>y. andthen (f y) g)"
  by (cases x) auto

section \<open>Collections of rewrite rules\<close>

named_theorems ptr_simps \<open>unfolding of pointer-level updates\<close>
named_theorems sched_simps \<open>unfolding of scheduler state updates\<close>
named_theorems chan_simps \<open>unfolding of channel state updates\<close>

section \<open>First and last element as pointers\<close>

primrec hd_ptr :: "addr list \<Rightarrow> ptr \<Rightarrow> ptr" where
  "hd_ptr [] n = n"
| "hd_ptr (x # xs) n = Some x"

definition last_ptr :: "addr list \<Rightarrow> ptr \<Rightarrow> ptr" where
  "last_ptr xs p = (if xs = [] then p else Some (last xs))"

lemma last_ptr_simps [simp]:
  "last_ptr [] p = p"
  "last_ptr (x # xs) p = last_ptr xs (Some x)"
  "last_ptr (xs @ [x]) p = Some x"
  by (auto simp: last_ptr_def)

lemma last_ptr_append [simp]: "last_ptr (xs @ ys) p = last_ptr ys (last_ptr xs p)"
  by (auto simp: last_ptr_def)

lemma hd_ptr_append: "hd_ptr (xs @ ys) n = hd_ptr xs (hd_ptr ys n)"
  by (cases xs) auto

lemma hd_ptr_eq_Some: "hd_ptr xs None = Some x \<longleftrightarrow> (\<exists>ys. xs = x # ys)"
  by (cases xs) auto

lemma hd_ptr_eq_None [simp]: "hd_ptr xs None = None \<longleftrightarrow> xs = []"
  by (cases xs) auto

section \<open>Optional values as lists\<close>

primrec opt_list :: "'a option \<Rightarrow> 'a list" where
  "opt_list None = []"
| "opt_list (Some x) = [x]"

section \<open>Word arithmetic\<close>

lemma of_nat_u32_eq_0 [simp]:
  "n < 2 ^ 32 \<Longrightarrow> (of_nat n :: u32) = 0 \<longleftrightarrow> n = 0"
  by (simp add: word_of_nat_eq_0_iff nat_dvd_not_less) (meson dvd_0_right nat_dvd_not_less neq0_conv)

lemma unat_of_nat_u32 [simp]: "n < 2 ^ 32 \<Longrightarrow> unat (of_nat n :: u32) = n"
  by (simp add: unat_of_nat)

lemma Suc_of_nat_u32_neq_0 [simp]:
  "n < 4294967295 \<Longrightarrow> (1 + of_nat n :: u32) \<noteq> 0"
  using of_nat_u32_eq_0 [of "Suc n"] by simp

end
