(* ===== verification/Queue.thy ===== *)
theory Queue
  imports Prelude
begin

text \<open>
  The intrusive doubly linked queue of \<^verbatim>\<open>include/inter/coroc_queue.h\<close>. Every run queue, wait
  queue, message queue and list of live coroutines of the library is one of these.

  The items live in a store indexed by address, as do the queue headers, so an operation is
  a function on the whole store and aliasing between queues is visible. Following a \<open>NULL\<close>
  pointer is an error value. Two representation predicates relate a store to the list of items
  a queue holds: \<open>queue_fwd\<close> (head, tail, counter and forward links, all that adding, removing and
  walking need) and \<open>queue_dll\<close> (the backward links and the owner-queue field too, which
  \<open>queue_extract\<close> needs). Each operation is shown to act on that list as its abstract counterpart.
\<close>

section \<open>State\<close>

record queue_item =
  item_next :: ptr
  item_prev :: ptr
  item_que :: ptr
  item_owner :: ptr

record queue =
  q_lock :: bool
  q_head :: ptr
  q_tail :: ptr
  q_status :: u32

record qmem =
  items :: "addr \<Rightarrow> queue_item"
  queues :: "addr \<Rightarrow> queue"

definition upd_item :: "addr \<Rightarrow> (queue_item \<Rightarrow> queue_item) \<Rightarrow> qmem \<Rightarrow> qmem" where
  [ptr_simps]: "upd_item i f m = m\<lparr>items := (items m)(i := f (items m i))\<rparr>"

definition upd_queue :: "addr \<Rightarrow> (queue \<Rightarrow> queue) \<Rightarrow> qmem \<Rightarrow> qmem" where
  [ptr_simps]: "upd_queue q f m = m\<lparr>queues := (queues m)(q := f (queues m q))\<rparr>"

section \<open>Operations\<close>

definition queue_item_init :: "addr \<Rightarrow> ptr \<Rightarrow> qmem \<Rightarrow> qmem" where
  "queue_item_init i own m = upd_item i
     (\<lambda>r. r\<lparr>item_next := None, item_prev := None, item_que := None, item_owner := own\<rparr>) m"

definition queue_init :: "addr \<Rightarrow> qmem \<Rightarrow> qmem" where
  "queue_init q m = upd_queue q (\<lambda>r. r\<lparr>q_head := None, q_tail := None, q_status := 0\<rparr>) m"

definition q_acquire :: "addr \<Rightarrow> qmem \<Rightarrow> c_err + qmem" where
  "q_acquire q m = (if q_lock (queues m q) then Inl SelfDeadlock
     else Inr (upd_queue q (\<lambda>r. r\<lparr>q_lock := True\<rparr>) m))"

definition q_release :: "addr \<Rightarrow> qmem \<Rightarrow> qmem" where
  "q_release q m = upd_queue q (\<lambda>r. r\<lparr>q_lock := False\<rparr>) m"

definition atomic_queue_init :: "addr \<Rightarrow> qmem \<Rightarrow> qmem" where
  "atomic_queue_init q m = queue_init q (upd_queue q (\<lambda>r. r\<lparr>q_lock := False\<rparr>) m)"

definition atomic_queue_size :: "addr \<Rightarrow> qmem \<Rightarrow> c_err + (u32 \<times> qmem)" where
  "atomic_queue_size q m = andthen (q_acquire q m)
     (\<lambda>m. Inr (q_status (queues m q), q_release q m))"

definition queue_link :: "addr \<Rightarrow> addr \<Rightarrow> qmem \<Rightarrow> qmem" where
  "queue_link a b m = upd_item b (\<lambda>r. r\<lparr>item_prev := Some a\<rparr>)
     (upd_item a (\<lambda>r. r\<lparr>item_next := Some b\<rparr>) m)"

definition queue_add :: "addr \<Rightarrow> addr \<Rightarrow> qmem \<Rightarrow> c_err + qmem" where
  "queue_add q i m0 =
     (let m = upd_item i (\<lambda>r. r\<lparr>item_next := None\<rparr>) m0 in
      andthen
        (if q_status (queues m q) = 0
         then Inr (upd_queue q (\<lambda>r. r\<lparr>q_head := Some i, q_tail := Some i\<rparr>) m)
         else (case q_tail (queues m q) of
             None \<Rightarrow> Inl NullDeref
           | Some t \<Rightarrow> Inr (upd_queue q (\<lambda>r. r\<lparr>q_tail := Some i\<rparr>)
               (upd_item i (\<lambda>r. r\<lparr>item_prev := Some t\<rparr>)
                 (upd_item t (\<lambda>r. r\<lparr>item_next := Some i\<rparr>) m)))))
        (\<lambda>m. Inr (upd_queue q (\<lambda>r. r\<lparr>q_status := q_status r + 1\<rparr>)
               (upd_item i (\<lambda>r. r\<lparr>item_que := Some q\<rparr>) m))))"

definition atomic_queue_add :: "addr \<Rightarrow> addr \<Rightarrow> qmem \<Rightarrow> c_err + qmem" where
  "atomic_queue_add q i m = andthen (q_acquire q m)
     (\<lambda>m. andthen (queue_add q i m) (\<lambda>m. Inr (q_release q m)))"

definition queue_add_range :: "addr \<Rightarrow> u32 \<Rightarrow> addr \<Rightarrow> addr \<Rightarrow> qmem \<Rightarrow> c_err + qmem" where
  "queue_add_range q n from to m =
     andthen
       (if q_status (queues m q) = 0
        then Inr (upd_queue q (\<lambda>r. r\<lparr>q_head := Some from, q_tail := Some to\<rparr>) m)
        else (case q_tail (queues m q) of
            None \<Rightarrow> Inl NullDeref
          | Some t \<Rightarrow> Inr (upd_queue q (\<lambda>r. r\<lparr>q_tail := Some to\<rparr>)
              (upd_item from (\<lambda>r. r\<lparr>item_prev := Some t\<rparr>)
                (upd_item t (\<lambda>r. r\<lparr>item_next := Some from\<rparr>) m)))))
       (\<lambda>m. Inr (upd_queue q (\<lambda>r. r\<lparr>q_status := q_status r + n\<rparr>)
              (upd_item to (\<lambda>r. r\<lparr>item_next := None\<rparr>)
                (upd_item to (\<lambda>r. r\<lparr>item_que := Some q\<rparr>)
                  (upd_item from (\<lambda>r. r\<lparr>item_que := Some q\<rparr>) m)))))"

definition atomic_queue_add_range :: "addr \<Rightarrow> u32 \<Rightarrow> addr \<Rightarrow> addr \<Rightarrow> qmem \<Rightarrow> c_err + qmem" where
  "atomic_queue_add_range q n from to m = andthen (q_acquire q m)
     (\<lambda>m. andthen (queue_add_range q n from to m) (\<lambda>m. Inr (q_release q m)))"

definition queue_rem :: "addr \<Rightarrow> qmem \<Rightarrow> c_err + (ptr \<times> qmem)" where
  "queue_rem q m0 =
     (if q_status (queues m0 q) = 0 then Inr (None, m0)
      else (case q_head (queues m0 q) of
          None \<Rightarrow> Inl NullDeref
        | Some k \<Rightarrow>
            (let m = upd_queue q (\<lambda>r. r\<lparr>q_head := item_next (items m0 k)\<rparr>) m0;
                 m = (case q_head (queues m q) of
                       Some h \<Rightarrow> upd_item h (\<lambda>r. r\<lparr>item_prev := None\<rparr>) m
                     | None \<Rightarrow> upd_queue q (\<lambda>r. r\<lparr>q_tail := q_head r\<rparr>) m);
                 m = upd_queue q (\<lambda>r. r\<lparr>q_status := q_status r - 1\<rparr>) m;
                 m = upd_item k (\<lambda>r. r\<lparr>item_prev := None, item_next := None, item_que := None\<rparr>) m
             in Inr (item_owner (items m k), m))))"

definition atomic_queue_rem :: "addr \<Rightarrow> qmem \<Rightarrow> c_err + (ptr \<times> qmem)" where
  "atomic_queue_rem q m =
     (if q_status (queues m q) = 0 then Inr (None, m)
      else andthen (q_acquire q m)
        (\<lambda>m. andthen (queue_rem q m) (\<lambda>(own, m). Inr (own, q_release q m))))"

definition atomic_queue_try_rem :: "addr \<Rightarrow> qmem \<Rightarrow> c_err + (ptr \<times> qmem)" where
  "atomic_queue_try_rem q m =
     (if q_status (queues m q) = 0 \<or> q_lock (queues m q) then Inr (None, m)
      else andthen (q_acquire q m)
        (\<lambda>m. andthen (queue_rem q m) (\<lambda>(own, m). Inr (own, q_release q m))))"

definition queue_extract :: "addr \<Rightarrow> addr \<Rightarrow> qmem \<Rightarrow> c_err + qmem" where
  "queue_extract q i m0 =
     (if item_que (items m0 i) \<noteq> Some q then Inr m0
      else if q_status (queues m0 q) = 0 then Inl AssertFail
      else
        (let nx = item_next (items m0 i); pv = item_prev (items m0 i);
             m = (case pv of
                   Some p \<Rightarrow> upd_item p (\<lambda>r. r\<lparr>item_next := nx\<rparr>) m0
                 | None \<Rightarrow> upd_queue q (\<lambda>r. r\<lparr>q_head := nx\<rparr>) m0);
             m = (case item_next (items m i) of
                   Some n \<Rightarrow> upd_item n (\<lambda>r. r\<lparr>item_prev := item_prev (items m i)\<rparr>) m
                 | None \<Rightarrow> upd_queue q (\<lambda>r. r\<lparr>q_tail := item_prev (items m i)\<rparr>) m);
             m = upd_queue q (\<lambda>r. r\<lparr>q_status := q_status r - 1\<rparr>) m
         in Inr (upd_item i (\<lambda>r. r\<lparr>item_prev := None, item_next := None, item_que := None\<rparr>) m)))"

definition atomic_queue_extract :: "addr \<Rightarrow> addr \<Rightarrow> qmem \<Rightarrow> c_err + qmem" where
  "atomic_queue_extract q i m = andthen (q_acquire q m)
     (\<lambda>m. andthen (queue_extract q i m) (\<lambda>m. Inr (q_release q m)))"

text \<open>
  The walk calls the inspector on the owner of each item; the model returns the sequence of
  those calls. Following a cyclic list would never end: that is \<open>None\<close>.
\<close>

partial_function (option) walk_from :: "qmem \<Rightarrow> ptr \<Rightarrow> ptr list option" where
  "walk_from m p = (case p of
       None \<Rightarrow> Some []
     | Some i \<Rightarrow> Option.bind (walk_from m (item_next (items m i)))
         (\<lambda>os. Some (item_owner (items m i) # os)))"

definition queue_walk :: "addr \<Rightarrow> qmem \<Rightarrow> ptr list option" where
  "queue_walk q m = (if q_status (queues m q) \<noteq> 0 then walk_from m (q_head (queues m q)) else Some [])"

definition general_inspector :: "ptr \<Rightarrow> ptr \<Rightarrow> bool" where
  "general_inspector p0 p1 = (p0 = p1)"

section \<open>What a queue holds\<close>

text \<open>Forward links: each item's \<open>next\<close> is the following item, the last one's is \<open>n\<close>.\<close>

primrec nexts :: "(addr \<Rightarrow> queue_item) \<Rightarrow> addr list \<Rightarrow> ptr \<Rightarrow> bool" where
  "nexts h [] n = True"
| "nexts h (x # xs) n = (item_next (h x) = hd_ptr xs n \<and> nexts h xs n)"

text \<open>Backward links: the first item's \<open>prev\<close> is \<open>p\<close>, each other one's is the item before it.\<close>

primrec prevs :: "(addr \<Rightarrow> queue_item) \<Rightarrow> ptr \<Rightarrow> addr list \<Rightarrow> bool" where
  "prevs h p [] = True"
| "prevs h p (x # xs) = (item_prev (h x) = p \<and> prevs h (Some x) xs)"

definition queue_fwd :: "qmem \<Rightarrow> addr \<Rightarrow> addr list \<Rightarrow> bool" where
  "queue_fwd m q xs \<longleftrightarrow>
     q_head (queues m q) = hd_ptr xs None \<and> q_tail (queues m q) = last_ptr xs None \<and>
     q_status (queues m q) = of_nat (length xs) \<and> length xs < 2 ^ 32 \<and>
     distinct xs \<and> nexts (items m) xs None"

definition queue_dll :: "qmem \<Rightarrow> addr \<Rightarrow> addr list \<Rightarrow> bool" where
  "queue_dll m q xs \<longleftrightarrow> queue_fwd m q xs \<and> prevs (items m) None xs \<and>
     (\<forall>x \<in> set xs. item_que (items m x) = Some q)"

text \<open>An item that is in no queue, as \<open>queue_item_init\<close>, \<open>queue_rem\<close> and \<open>queue_extract\<close> leave it.\<close>

definition unlinked :: "qmem \<Rightarrow> addr \<Rightarrow> bool" where
  "unlinked m i \<longleftrightarrow> item_next (items m i) = None \<and> item_prev (items m i) = None \<and>
     item_que (items m i) = None"

section \<open>Lemmas on links\<close>

lemma nexts_append:
  "nexts h (xs @ ys) n \<longleftrightarrow> nexts h xs (hd_ptr ys n) \<and> nexts h ys n"
  by (induction xs) (auto simp: hd_ptr_append)

lemma prevs_append:
  "prevs h p (xs @ ys) \<longleftrightarrow> prevs h p xs \<and> prevs h (last_ptr xs p) ys"
  by (induction xs arbitrary: p) auto

lemma nexts_cong:
  "(\<And>x. x \<in> set xs \<Longrightarrow> item_next (h x) = item_next (h' x)) \<Longrightarrow> nexts h xs n = nexts h' xs n"
  by (induction xs) auto

lemma prevs_cong:
  "(\<And>x. x \<in> set xs \<Longrightarrow> item_prev (h x) = item_prev (h' x)) \<Longrightarrow> prevs h p xs = prevs h' p xs"
  by (induction xs arbitrary: p) auto

lemma nexts_upd_other [simp]: "i \<notin> set xs \<Longrightarrow> nexts (h(i := r)) xs n = nexts h xs n"
  by (rule nexts_cong) auto

lemma prevs_upd_other [simp]: "i \<notin> set xs \<Longrightarrow> prevs (h(i := r)) p xs = prevs h p xs"
  by (rule prevs_cong) auto

lemma nexts_upd_same [simp]:
  "item_next r = item_next (h i) \<Longrightarrow> nexts (h(i := r)) xs n = nexts h xs n"
  by (rule nexts_cong) auto

lemma prevs_upd_same [simp]:
  "item_prev r = item_prev (h i) \<Longrightarrow> prevs (h(i := r)) p xs = prevs h p xs"
  by (rule prevs_cong) auto

section \<open>Framing\<close>

definition touches :: "qmem \<Rightarrow> qmem \<Rightarrow> addr \<Rightarrow> addr set \<Rightarrow> bool" where
  "touches m m' q A \<longleftrightarrow> (\<forall>j. j \<notin> A \<longrightarrow> items m' j = items m j) \<and>
     (\<forall>j. item_owner (items m' j) = item_owner (items m j)) \<and>
     (\<forall>q'. q' \<noteq> q \<longrightarrow> queues m' q' = queues m q') \<and>
     q_lock (queues m' q) = q_lock (queues m q)"

lemma queue_fwd_frame:
  assumes "touches m m' q A" "q' \<noteq> q" "set ys \<inter> A = {}"
  shows "queue_fwd m' q' ys = queue_fwd m q' ys"
proof -
  have "nexts (items m') ys None = nexts (items m) ys None"
    using assms by (intro nexts_cong) (auto simp: touches_def)
  then show ?thesis using assms by (simp add: touches_def queue_fwd_def)
qed

lemma queue_dll_frame:
  assumes "touches m m' q A" "q' \<noteq> q" "set ys \<inter> A = {}"
  shows "queue_dll m' q' ys = queue_dll m q' ys"
proof -
  have "prevs (items m') None ys = prevs (items m) None ys"
    using assms by (intro prevs_cong) (auto simp: touches_def)
  moreover have "item_que (items m' x) = item_que (items m x)" if "x \<in> set ys" for x
    using assms that by (auto simp: touches_def)
  ultimately show ?thesis using queue_fwd_frame [OF assms] by (simp add: queue_dll_def)
qed

section \<open>Adding\<close>

lemma queue_fwd_status: "queue_fwd m q xs \<Longrightarrow> q_status (queues m q) = 0 \<longleftrightarrow> xs = []"
  by (auto simp: queue_fwd_def)

lemma queue_fwd_lengthD: "queue_fwd m q xs \<Longrightarrow> length xs < 4294967296"
  by (simp add: queue_fwd_def)

lemma queue_add_fwd:
  assumes "queue_fwd m q xs" "i \<notin> set xs" "Suc (length xs) < 2 ^ 32"
  shows "\<exists>m'. queue_add q i m = Inr m' \<and> queue_fwd m' q (xs @ [i]) \<and>
           touches m m' q (insert i (set xs)) \<and> item_que (items m' i) = Some q \<and>
           (\<forall>x \<in> set xs. item_que (items m' x) = item_que (items m x)) \<and>
           (\<forall>x \<in> set xs. item_prev (items m' x) = item_prev (items m x)) \<and>
           item_prev (items m' i) = (if xs = [] then item_prev (items m i) else last_ptr xs None)"
proof (cases xs rule: rev_cases)
  case Nil
  with assms show ?thesis
    by (auto simp: queue_add_def queue_fwd_def touches_def ptr_simps)
next
  case (snoc us t)
  with assms show ?thesis
    by (auto simp: queue_add_def queue_fwd_def touches_def ptr_simps queue_fwd_status
        nexts_append hd_ptr_append Let_def)
qed

lemma queue_add_dll:
  assumes "queue_dll m q xs" "i \<notin> set xs" "Suc (length xs) < 2 ^ 32" "item_prev (items m i) = None"
  shows "\<exists>m'. queue_add q i m = Inr m' \<and> queue_dll m' q (xs @ [i]) \<and>
           touches m m' q (insert i (set xs))"
proof -
  from assms obtain m' where m': "queue_add q i m = Inr m'" "queue_fwd m' q (xs @ [i])"
    "touches m m' q (insert i (set xs))" "item_que (items m' i) = Some q"
    "\<forall>x \<in> set xs. item_que (items m' x) = item_que (items m x)"
    "\<forall>x \<in> set xs. item_prev (items m' x) = item_prev (items m x)"
    "item_prev (items m' i) = (if xs = [] then item_prev (items m i) else last_ptr xs None)"
    using queue_add_fwd [of m q xs i] by (auto simp: queue_dll_def)
  moreover have "prevs (items m') None xs = prevs (items m) None xs"
    using m' by (intro prevs_cong) auto
  ultimately show ?thesis using assms by (auto simp: queue_dll_def prevs_append last_ptr_def)
qed

section \<open>Removing the head\<close>

lemma queue_rem_empty: "queue_fwd m q [] \<Longrightarrow> queue_rem q m = Inr (None, m)"
  by (simp add: queue_rem_def queue_fwd_def)

lemma queue_rem_fwd:
  assumes "queue_fwd m q (x # xs)"
  shows "\<exists>m'. queue_rem q m = Inr (item_owner (items m x), m') \<and> queue_fwd m' q xs \<and>
           unlinked m' x \<and> touches m m' q (set (x # xs)) \<and>
           (\<forall>y \<in> set xs. item_que (items m' y) = item_que (items m y)) \<and>
           (\<forall>y \<in> set (tl xs). item_prev (items m' y) = item_prev (items m y)) \<and>
           (xs \<noteq> [] \<longrightarrow> item_prev (items m' (hd xs)) = None)"
  using assms queue_fwd_status [OF assms]
  by (cases xs)
     (auto simp: queue_rem_def queue_fwd_def touches_def unlinked_def ptr_simps Let_def)

lemma queue_rem_dll:
  assumes "queue_dll m q (x # xs)"
  shows "\<exists>m'. queue_rem q m = Inr (item_owner (items m x), m') \<and> queue_dll m' q xs \<and>
           unlinked m' x \<and> touches m m' q (set (x # xs))"
proof -
  from assms obtain m' where m': "queue_rem q m = Inr (item_owner (items m x), m')"
    "queue_fwd m' q xs" "unlinked m' x" "touches m m' q (set (x # xs))"
    "\<forall>y \<in> set xs. item_que (items m' y) = item_que (items m y)"
    "\<forall>y \<in> set (tl xs). item_prev (items m' y) = item_prev (items m y)"
    "xs \<noteq> [] \<longrightarrow> item_prev (items m' (hd xs)) = None"
    using queue_rem_fwd [of m q x xs] by (auto simp: queue_dll_def)
  have "prevs (items m') None xs"
  proof (cases xs)
    case (Cons y ys)
    with m' have "prevs (items m') (Some y) ys = prevs (items m) (Some y) ys"
      by (intro prevs_cong) auto
    with Cons assms m' show ?thesis by (simp add: queue_dll_def)
  qed simp
  with m' assms show ?thesis by (auto simp: queue_dll_def)
qed

section \<open>Extracting an item\<close>

lemma queue_extract_other: "item_que (items m i) \<noteq> Some q \<Longrightarrow> queue_extract q i m = Inr m"
  by (simp add: queue_extract_def)

lemma queue_extract_split:
  assumes "queue_dll m q (us @ i # vs)"
  shows "\<exists>m'. queue_extract q i m = Inr m' \<and> queue_dll m' q (us @ vs) \<and>
           unlinked m' i \<and> touches m m' q (set (us @ i # vs))"
proof -
  have st: "q_status (queues m q) \<noteq> 0"
    using assms by (auto simp: queue_dll_def dest: queue_fwd_status)
  show ?thesis
  proof (cases us rule: rev_cases; cases vs)
    fix p us' n vs'
    assume "us = us' @ [p]" "vs = n # vs'"
    with assms st show ?thesis
      by (auto simp: queue_extract_def queue_dll_def queue_fwd_def touches_def unlinked_def
          ptr_simps Let_def nexts_append prevs_append hd_ptr_append)
  qed (use assms st in \<open>auto simp: queue_extract_def queue_dll_def queue_fwd_def touches_def
          unlinked_def ptr_simps Let_def nexts_append prevs_append hd_ptr_append\<close>)
qed

lemma queue_extract_dll:
  assumes "queue_dll m q xs" "i \<in> set xs"
  shows "\<exists>m'. queue_extract q i m = Inr m' \<and> queue_dll m' q (remove1 i xs) \<and>
           unlinked m' i \<and> touches m m' q (set xs)"
proof -
  from \<open>i \<in> set xs\<close> obtain us vs where xs: "xs = us @ i # vs" "i \<notin> set us"
    by (metis split_list_first)
  moreover from this have "remove1 i xs = us @ vs" by (simp add: remove1_append)
  ultimately show ?thesis using queue_extract_split [of m q us i vs] assms by simp
qed

section \<open>Adding a chain of items\<close>

lemma queue_add_range_fwd:
  assumes fwd: "queue_fwd m q xs" and ys: "ys \<noteq> []" "distinct ys" "set xs \<inter> set ys = {}"
    and links: "nexts (items m) (butlast ys) (Some (last ys))"
    and len: "length xs + length ys < 2 ^ 32"
  shows "\<exists>m'. queue_add_range q (of_nat (length ys)) (hd ys) (last ys) m = Inr m' \<and>
           queue_fwd m' q (xs @ ys) \<and> touches m m' q (set xs \<union> set ys)"
proof -
  obtain zs t where zs: "ys = zs @ [t]" using ys by (metis rev_exhaust)
  from zs links ys have l: "nexts (items m) zs (Some t)" "t \<notin> set zs" "distinct zs" by auto
  show ?thesis
  proof (cases xs rule: rev_cases)
    case Nil
    with assms zs l show ?thesis
      by (cases zs)
         (auto simp: queue_add_range_def queue_fwd_def touches_def ptr_simps nexts_append hd_ptr_append)
  next
    case (snoc us s)
    have "q_status (queues m q) \<noteq> 0" using fwd snoc by (auto dest: queue_fwd_status)
    with snoc assms zs l show ?thesis
      by (cases zs)
         (auto simp: queue_add_range_def queue_fwd_def touches_def ptr_simps nexts_append
           hd_ptr_append)
  qed
qed

section \<open>Walking\<close>

lemma walk_from_nexts:
  "nexts (items m) xs None \<Longrightarrow>
     walk_from m (hd_ptr xs None) = Some (map (\<lambda>x. item_owner (items m x)) xs)"
  by (induction xs) (simp_all add: walk_from.simps)

lemma queue_walk_fwd:
  "queue_fwd m q xs \<Longrightarrow> queue_walk q m = Some (map (\<lambda>x. item_owner (items m x)) xs)"
  by (auto simp: queue_walk_def queue_fwd_def walk_from_nexts)

section \<open>Atomic variants\<close>

text \<open>
  With the lock free, an atomic variant is the plain operation (the lock is free again after it);
  with the lock held, the blocking ones can never proceed and \<open>try\<close> gives up.
\<close>

lemma queue_fwd_lock [simp]:
  "queue_fwd (upd_queue p (\<lambda>r. r\<lparr>q_lock := b\<rparr>) m) q xs = queue_fwd m q xs"
  by (simp add: queue_fwd_def ptr_simps)

lemma queue_dll_lock [simp]:
  "queue_dll (upd_queue p (\<lambda>r. r\<lparr>q_lock := b\<rparr>) m) q xs = queue_dll m q xs"
  by (simp add: queue_dll_def) (simp add: ptr_simps)

lemma items_lock [simp]: "items (upd_queue p f m) = items m"
  by (simp add: ptr_simps)

lemma touches_lockD:
  "touches (upd_queue q (\<lambda>r. r\<lparr>q_lock := b\<rparr>) m) m' q A \<Longrightarrow>
     touches m (upd_queue q (\<lambda>r. r\<lparr>q_lock := q_lock (queues m q)\<rparr>) m') q A"
  by (auto simp: touches_def ptr_simps)

lemma atomic_queue_add_dll:
  assumes "queue_dll m q xs" "i \<notin> set xs" "Suc (length xs) < 2 ^ 32"
    "item_prev (items m i) = None" "\<not> q_lock (queues m q)"
  shows "\<exists>m'. atomic_queue_add q i m = Inr m' \<and> queue_dll m' q (xs @ [i]) \<and>
           touches m m' q (insert i (set xs))"
  using queue_add_dll [of "upd_queue q (\<lambda>r. r\<lparr>q_lock := True\<rparr>) m" q xs i] assms
  by (fastforce simp: atomic_queue_add_def q_acquire_def q_release_def dest: touches_lockD)

lemma atomic_queue_add_held: "q_lock (queues m q) \<Longrightarrow> atomic_queue_add q i m = Inl SelfDeadlock"
  by (simp add: atomic_queue_add_def q_acquire_def)

lemma atomic_queue_rem_dll:
  assumes "queue_dll m q (x # xs)" "\<not> q_lock (queues m q)"
  shows "\<exists>m'. atomic_queue_rem q m = Inr (item_owner (items m x), m') \<and> queue_dll m' q xs \<and>
           unlinked m' x \<and> touches m m' q (set (x # xs))"
proof -
  have st: "q_status (queues m q) \<noteq> 0"
    using assms by (auto simp: queue_dll_def dest: queue_fwd_status)
  from queue_rem_dll [of "upd_queue q (\<lambda>r. r\<lparr>q_lock := True\<rparr>) m" q x xs] assms
  obtain m' where m': "queue_rem q (upd_queue q (\<lambda>r. r\<lparr>q_lock := True\<rparr>) m) =
      Inr (item_owner (items m x), m')" "queue_dll m' q xs" "unlinked m' x"
      "touches (upd_queue q (\<lambda>r. r\<lparr>q_lock := True\<rparr>) m) m' q (set (x # xs))"
    by auto
  from m'(4) assms(2) have "touches m (q_release q m') q (set (x # xs))"
    by (auto simp: q_release_def dest: touches_lockD)
  with st m' assms show ?thesis
    by (simp add: atomic_queue_rem_def q_acquire_def q_release_def unlinked_def)
qed

lemma atomic_queue_rem_nil: "queue_fwd m q [] \<Longrightarrow> atomic_queue_rem q m = Inr (None, m)"
  by (simp add: atomic_queue_rem_def queue_fwd_def)

lemma atomic_queue_try_rem_busy:
  "q_lock (queues m q) \<Longrightarrow> atomic_queue_try_rem q m = Inr (None, m)"
  by (simp add: atomic_queue_try_rem_def)

lemma atomic_queue_try_rem_free:
  "\<not> q_lock (queues m q) \<Longrightarrow> atomic_queue_try_rem q m = atomic_queue_rem q m"
  by (simp add: atomic_queue_try_rem_def atomic_queue_rem_def)

section \<open>The interface the other components use\<close>

text \<open>
  The loop \<^verbatim>\<open>while ((x = queue_rem(q)) != NULL) ...\<close> that the clients run to empty a queue
  (\<open>coroc_async_chan_fini\<close>, \<open>vpu_backtrace\<close>): the owners it obtains, in order.
  A loop that never sees \<open>NULL\<close> is \<open>None\<close>.
\<close>

partial_function (option) drain ::
    "('m \<Rightarrow> 'e + ('o option \<times> 'm)) \<Rightarrow> 'm \<Rightarrow> ('e + ('o list \<times> 'm)) option" where
  "drain rem m = (case rem m of
       Inl e \<Rightarrow> Some (Inl e)
     | Inr (w, m') \<Rightarrow> (case w of
           None \<Rightarrow> Some (Inr ([], m'))
         | Some x \<Rightarrow> Option.bind (drain rem m') (\<lambda>r. Some (case r of
               Inl e \<Rightarrow> Inl e
             | Inr (xs, m'') \<Rightarrow> Inr (x # xs, m'')))))"

primrec add_all :: "('i \<Rightarrow> 'm \<Rightarrow> 'e + 'm) \<Rightarrow> 'i list \<Rightarrow> 'm \<Rightarrow> 'e + 'm" where
  "add_all add [] m = Inr m"
| "add_all add (i # is) m = andthen (add i m) (add_all add is)"

text \<open>
  What a client may rely on: \<open>holds m q xs\<close> says that queue \<open>q\<close> holds the items \<open>xs\<close> in this
  order, \<open>detached m i\<close> that \<open>i\<close> may be added, \<open>owner_of\<close> is what removing an item returns.
\<close>

locale item_fifo =
  fixes holds :: "'m \<Rightarrow> 'q \<Rightarrow> 'i list \<Rightarrow> bool"
    and detached :: "'m \<Rightarrow> 'i \<Rightarrow> bool"
    and owner_of :: "'m \<Rightarrow> 'i \<Rightarrow> 'o option"
    and add :: "'q \<Rightarrow> 'i \<Rightarrow> 'm \<Rightarrow> 'e + 'm"
    and rem :: "'q \<Rightarrow> 'm \<Rightarrow> 'e + ('o option \<times> 'm)"
  assumes add_law: "holds m q xs \<Longrightarrow> i \<notin> set xs \<Longrightarrow> detached m i \<Longrightarrow> Suc (length xs) < 2 ^ 32 \<Longrightarrow>
      \<exists>m'. add q i m = Inr m' \<and> holds m' q (xs @ [i]) \<and> owner_of m' = owner_of m \<and>
        (\<forall>j. j \<notin> insert i (set xs) \<longrightarrow> detached m' j = detached m j)"
    and rem_nil_law: "holds m q [] \<Longrightarrow> rem q m = Inr (None, m)"
    and rem_cons_law: "holds m q (x # xs) \<Longrightarrow>
      \<exists>m'. rem q m = Inr (owner_of m x, m') \<and> holds m' q xs \<and> owner_of m' = owner_of m \<and>
        detached m' x"
begin

lemma add_all_holds:
  assumes "holds m q xs" "distinct ys" "set xs \<inter> set ys = {}" "\<forall>y \<in> set ys. detached m y"
    "length xs + length ys < 2 ^ 32"
  shows "\<exists>m'. add_all (add q) ys m = Inr m' \<and> holds m' q (xs @ ys) \<and> owner_of m' = owner_of m"
  using assms
proof (induction ys arbitrary: xs m)
  case (Cons y ys)
  then obtain m1 where m1: "add q y m = Inr m1" "holds m1 q (xs @ [y])" "owner_of m1 = owner_of m"
    "\<forall>j. j \<notin> insert y (set xs) \<longrightarrow> detached m1 j = detached m j"
    using add_law [of m q xs y] by auto
  moreover have "\<forall>j \<in> set ys. detached m1 j" using m1(4) Cons.prems by auto
  ultimately show ?case using Cons.IH [of m1 "xs @ [y]"] Cons.prems by auto
qed simp

lemma drain_holds:
  assumes "holds m q xs" "\<forall>x \<in> set xs. owner_of m x \<noteq> None"
  shows "\<exists>m'. drain (rem q) m = Some (Inr (map (\<lambda>x. the (owner_of m x)) xs, m')) \<and>
           holds m' q [] \<and> owner_of m' = owner_of m"
  using assms
proof (induction xs arbitrary: m)
  case Nil
  then show ?case by (auto simp: drain.simps rem_nil_law)
next
  case (Cons x xs)
  then obtain m1 where m1: "rem q m = Inr (owner_of m x, m1)" "holds m1 q xs" "owner_of m1 = owner_of m"
    using rem_cons_law [of m q x xs] by auto
  from Cons.prems obtain w where "owner_of m x = Some w" by auto
  with m1 Cons show ?case by (fastforce simp: drain.simps [of "rem q" m])
qed

lemma add_all_then_drain:
  assumes "holds m q []" "distinct ys" "\<forall>y \<in> set ys. detached m y"
    "\<forall>y \<in> set ys. owner_of m y \<noteq> None" "length ys < 2 ^ 32"
  shows "\<exists>m1 m2. add_all (add q) ys m = Inr m1 \<and> holds m1 q ys \<and>
           drain (rem q) m1 = Some (Inr (map (\<lambda>y. the (owner_of m y)) ys, m2)) \<and> holds m2 q []"
proof -
  from add_all_holds [of m q "[]" ys] assms obtain m1
    where m1: "add_all (add q) ys m = Inr m1" "holds m1 q ys" "owner_of m1 = owner_of m" by auto
  with drain_holds [of m1 q ys] assms show ?thesis by auto
qed

end

interpretation ptr_fifo: item_fifo queue_dll unlinked "\<lambda>m i. item_owner (items m i)" queue_add queue_rem
proof
  fix m q xs i
  assume "queue_dll m q xs" "i \<notin> set xs" "unlinked m i" "Suc (length xs) < 2 ^ 32"
  then show "\<exists>m'. queue_add q i m = Inr m' \<and> queue_dll m' q (xs @ [i]) \<and>
      (\<lambda>i. item_owner (items m' i)) = (\<lambda>i. item_owner (items m i)) \<and>
      (\<forall>j. j \<notin> insert i (set xs) \<longrightarrow> unlinked m' j = unlinked m j)"
    using queue_add_dll [of m q xs i] by (fastforce simp: unlinked_def touches_def)
next
  fix m q
  assume "queue_dll m q []"
  then show "queue_rem q m = Inr (None, m)" by (simp add: queue_dll_def queue_rem_empty)
next
  fix m q x xs
  assume "queue_dll m q (x # xs)"
  then show "\<exists>m'. queue_rem q m = Inr (item_owner (items m x), m') \<and> queue_dll m' q xs \<and>
      (\<lambda>i. item_owner (items m' i)) = (\<lambda>i. item_owner (items m i)) \<and> unlinked m' x"
    using queue_rem_dll [of m q x xs] by (fastforce simp: touches_def)
qed

interpretation atomic_fifo: item_fifo "\<lambda>m q xs. queue_dll m q xs \<and> \<not> q_lock (queues m q)" unlinked
  "\<lambda>m i. item_owner (items m i)" atomic_queue_add atomic_queue_rem
proof
  fix m q xs i
  assume "queue_dll m q xs \<and> \<not> q_lock (queues m q)" "i \<notin> set xs" "unlinked m i"
    "Suc (length xs) < 2 ^ 32"
  then show "\<exists>m'. atomic_queue_add q i m = Inr m' \<and>
      (queue_dll m' q (xs @ [i]) \<and> \<not> q_lock (queues m' q)) \<and>
      (\<lambda>i. item_owner (items m' i)) = (\<lambda>i. item_owner (items m i)) \<and>
      (\<forall>j. j \<notin> insert i (set xs) \<longrightarrow> unlinked m' j = unlinked m j)"
    using atomic_queue_add_dll [of m q xs i] by (fastforce simp: unlinked_def touches_def)
next
  fix m q
  assume "queue_dll m q [] \<and> \<not> q_lock (queues m q)"
  then show "atomic_queue_rem q m = Inr (None, m)" by (simp add: queue_dll_def atomic_queue_rem_nil)
next
  fix m q x xs
  assume "queue_dll m q (x # xs) \<and> \<not> q_lock (queues m q)"
  then show "\<exists>m'. atomic_queue_rem q m = Inr (item_owner (items m x), m') \<and>
      (queue_dll m' q xs \<and> \<not> q_lock (queues m' q)) \<and>
      (\<lambda>i. item_owner (items m' i)) = (\<lambda>i. item_owner (items m i)) \<and> unlinked m' x"
    using atomic_queue_rem_dll [of m q x xs] by (fastforce simp: touches_def)
qed

section \<open>Properties\<close>

text \<open>A store for the witnesses: queue 1 holds items 10 and 20, queue 2 holds item 30.\<close>

definition example_qmem :: qmem where
  "example_qmem = \<lparr>items = (\<lambda>i.
       if i = 10 then \<lparr>item_next = Some 20, item_prev = None, item_que = Some 1, item_owner = Some 100\<rparr>
       else if i = 20 then \<lparr>item_next = None, item_prev = Some 10, item_que = Some 1, item_owner = Some 200\<rparr>
       else if i = 30 then \<lparr>item_next = None, item_prev = None, item_que = Some 2, item_owner = Some 300\<rparr>
       else \<lparr>item_next = None, item_prev = None, item_que = None, item_owner = Some (i * 10)\<rparr>),
     queues = (\<lambda>q.
       if q = 1 then \<lparr>q_lock = False, q_head = Some 10, q_tail = Some 20, q_status = 2\<rparr>
       else if q = 2 then \<lparr>q_lock = False, q_head = Some 30, q_tail = Some 30, q_status = 1\<rparr>
       else \<lparr>q_lock = False, q_head = None, q_tail = None, q_status = 0\<rparr>)\<rparr>"

lemma example_qmem_holds:
  "queue_dll example_qmem 1 [10, 20]" "queue_dll example_qmem 2 [30]" "queue_dll example_qmem 3 []"
  by (simp_all add: example_qmem_def queue_dll_def queue_fwd_def last_ptr_def)

text \<open>
  Claim C38. \<open>queue_add\<close> on a well-formed queue never follows a \<open>NULL\<close> pointer and appends: if
  queue \<open>q\<close> holds \<open>xs\<close> and item \<open>i\<close> is in no queue, then afterwards \<open>q\<close> holds \<open>xs @ [i]\<close>, with its
  head, tail, both link directions, owner-queue fields and counter consistent, while every other queue
  over disjoint items holds what it held and no item changes its owner.
\<close>

theorem queue_add_appends:
  assumes "queue_dll m q xs" "unlinked m i" "i \<notin> set xs" "Suc (length xs) < 2 ^ 32"
    and "queue_dll m q' ys" "q' \<noteq> q" "set ys \<inter> insert i (set xs) = {}"
  shows "\<exists>m'. queue_add q i m = Inr m' \<and> queue_dll m' q (xs @ [i]) \<and> queue_dll m' q' ys \<and>
           (\<forall>j. item_owner (items m' j) = item_owner (items m j))"
proof -
  from assms obtain m' where m': "queue_add q i m = Inr m'" "queue_dll m' q (xs @ [i])"
    "touches m m' q (insert i (set xs))"
    using queue_add_dll [of m q xs i] by (auto simp: unlinked_def)
  with queue_dll_frame [OF m'(3), of q' ys] assms show ?thesis by (auto simp: touches_def)
qed

theorem queue_add_appends_witness:
  "\<exists>m'. queue_add 1 40 example_qmem = Inr m' \<and> queue_dll m' 1 ([10, 20] @ [40]) \<and>
     queue_dll m' 2 [30] \<and> (\<forall>j. item_owner (items m' j) = item_owner (items example_qmem j))"
  by (rule queue_add_appends [OF example_qmem_holds(1) _ _ _ example_qmem_holds(2)])
     (simp_all add: unlinked_def example_qmem_def)

text \<open>
  \<open>queue_extract\<close> unlinks exactly the item it is given: an item of the queue, whether first,
  in the middle or last, is taken out with the order of the others kept and is left with cleared
  links; an item whose owner-queue field names another queue (or none) leaves the store as it was.
\<close>

theorem queue_extract_removes:
  assumes "queue_dll m q xs"
  shows "if i \<in> set xs
         then \<exists>m'. queue_extract q i m = Inr m' \<and> queue_dll m' q (remove1 i xs) \<and> unlinked m' i \<and>
                (\<forall>q' ys. q' \<noteq> q \<and> set ys \<inter> set xs = {} \<longrightarrow> queue_dll m' q' ys = queue_dll m q' ys)
         else item_que (items m i) \<noteq> Some q \<longrightarrow> queue_extract q i m = Inr m"
proof (cases "i \<in> set xs")
  case True
  then obtain m' where m': "queue_extract q i m = Inr m'" "queue_dll m' q (remove1 i xs)"
    "unlinked m' i" "touches m m' q (set xs)"
    using queue_extract_dll [OF assms] by blast
  then show ?thesis using True queue_dll_frame [OF m'(4)] by auto
qed (simp add: queue_extract_other)

theorem queue_extract_removes_witness:
  "(\<exists>m'. queue_extract 1 10 example_qmem = Inr m' \<and> queue_dll m' 1 [20]) \<and>
   queue_extract 1 30 example_qmem = Inr example_qmem"
  using queue_extract_removes [OF example_qmem_holds(1), of 10]
    queue_extract_removes [OF example_qmem_holds(1), of 30]
  by (auto simp: example_qmem_def)

text \<open>
  Items leave a queue in the order in which they entered it and the loop that empties a
  queue ends: adding the items \<open>ys\<close> one after the other to an empty queue and then calling
  \<open>queue_rem\<close> until it returns \<open>NULL\<close> yields the owners of \<open>ys\<close>, in order, and an empty queue.
\<close>

theorem queue_fifo_order:
  assumes "queue_dll m q []" "distinct ys" "\<forall>y \<in> set ys. unlinked m y"
    "\<forall>y \<in> set ys. item_owner (items m y) \<noteq> None" "length ys < 2 ^ 32"
  shows "\<exists>m1 m2. add_all (queue_add q) ys m = Inr m1 \<and> queue_dll m1 q ys \<and>
           drain (queue_rem q) m1 = Some (Inr (map (\<lambda>y. the (item_owner (items m y))) ys, m2)) \<and>
           queue_dll m2 q []"
  by (rule ptr_fifo.add_all_then_drain [OF assms])

theorem queue_fifo_order_witness:
  "\<exists>m1 m2. add_all (queue_add 3) [40, 50, 60] example_qmem = Inr m1 \<and>
     drain (queue_rem 3) m1 = Some (Inr ([400, 500, 600], m2)) \<and> queue_dll m2 3 []"
proof -
  have "\<forall>y \<in> set [40, 50, 60]. unlinked example_qmem y"
    "\<forall>y \<in> set [40, 50, 60]. item_owner (items example_qmem y) \<noteq> None"
    by (simp_all add: unlinked_def example_qmem_def)
  then show ?thesis
    using queue_fifo_order [OF example_qmem_holds(3), of "[40, 50, 60]"]
    by (auto simp: example_qmem_def)
qed

text \<open>
  \<open>queue_add_range\<close> splices a whole chain of items, already linked to each other as
  \<open>queue_link\<close> leaves them, behind what the queue holds: the counter grows by the length of the chain and
  walking the queue afterwards terminates and visits the old items, then the new ones, in order.
\<close>

theorem queue_add_range_splices:
  assumes "queue_fwd m q xs" "ys \<noteq> []" "distinct ys" "set xs \<inter> set ys = {}"
    and "nexts (items m) (butlast ys) (Some (last ys))" "length xs + length ys < 2 ^ 32"
  shows "\<exists>m'. queue_add_range q (of_nat (length ys)) (hd ys) (last ys) m = Inr m' \<and>
           queue_fwd m' q (xs @ ys) \<and>
           q_status (queues m' q) = q_status (queues m q) + of_nat (length ys) \<and>
           queue_walk q m' = Some (map (\<lambda>x. item_owner (items m x)) (xs @ ys))"
proof -
  from queue_add_range_fwd [OF assms] obtain m' where
    m': "queue_add_range q (of_nat (length ys)) (hd ys) (last ys) m = Inr m'"
      "queue_fwd m' q (xs @ ys)" "touches m m' q (set xs \<union> set ys)" by auto
  then have "queue_walk q m' = Some (map (\<lambda>x. item_owner (items m x)) (xs @ ys))"
    using queue_walk_fwd [OF m'(2)] by (simp add: touches_def)
  with m' assms(1) show ?thesis by (auto simp: queue_fwd_def)
qed

theorem queue_add_range_splices_witness:
  "\<exists>m'. queue_add_range 1 (of_nat (length [40, 50 :: addr])) (hd [40, 50]) (last [40, 50])
      (queue_link 40 50 example_qmem) = Inr m' \<and>
     queue_walk 1 m' = Some [Some 100, Some 200, Some 400, Some 500]"
proof -
  have "queue_fwd (queue_link 40 50 example_qmem) 1 [10, 20]"
    "nexts (items (queue_link 40 50 example_qmem)) (butlast [40, 50]) (Some (last [40, 50]))"
    by (simp_all add: queue_link_def ptr_simps example_qmem_def queue_fwd_def last_ptr_def)
  then show ?thesis
    using queue_add_range_splices [of "queue_link 40 50 example_qmem" 1 "[10, 20]" "[40, 50]"]
    by (auto simp: queue_link_def ptr_simps example_qmem_def)
qed

end
