(* ===== verification/Runq.thy ===== *)
theory Runq
  imports Queue
begin

text \<open>
  The private run queue of a VPU (\<^verbatim>\<open>src/vpu.c\<close>, lines 26 to 133): a ring of 512 slots indexed by two
  free-running 32-bit counters. The owner puts at the tail and gets at the head; when the ring is full half of
  it moves to the global queue; a thief takes half of a victim's ring.

  The functions here are the loops of the source when no other thread interferes: the compare-and-swap of
  an iteration then finds the head it has read, and an iteration that does not leave its loop would repeat
  forever (the error \<open>Diverges\<close>). Interference is the subject of theory \<open>Runq_Conc\<close>. The counters are
  32-bit words and all statements hold across their wrap-around. A task is named by the address of its
  coroutine, which is also the address of its status link and the link's owner.
\<close>

type_synonym tid = addr

definition TSC_TASK_NUM_PERPRIO :: nat where
  [simp]: "TSC_TASK_NUM_PERPRIO = 512"

record p_task_que =
  pq_prio :: nat
  runq :: "tid list"
  runqhead :: u32
  runqtail :: u32

text \<open>
  A global run queue (a \<open>queue_t\<close> of \<open>vpu_manager.xt\<close>) as its clients see it: whether its lock is
  held, and the tasks it holds. Theory \<open>Queue\<close> relates it to the linked items.
\<close>

record gqueue =
  g_lock :: bool
  g_tasks :: "tid list"

section \<open>Operations\<close>

definition slot :: "u32 \<Rightarrow> nat" where
  "slot k = unat (k mod of_nat TSC_TASK_NUM_PERPRIO)"

definition priv_task_queue_init :: "p_task_que \<Rightarrow> nat \<Rightarrow> p_task_que" where
  "priv_task_queue_init pq prio = pq\<lparr>pq_prio := prio, runqhead := 0, runqtail := 0\<rparr>"

definition runqget :: "p_task_que \<Rightarrow> tid option \<times> p_task_que" where
  "runqget pq =
     (let head = runqhead pq; tail = runqtail pq in
      if tail = head then (None, pq)
      else (Some (runq pq ! slot head), pq\<lparr>runqhead := head + 1\<rparr>))"

text \<open>The \<open>n\<close> tasks from position \<open>head\<close> on, as the copying loops read them.\<close>

definition read_slots :: "p_task_que \<Rightarrow> u32 \<Rightarrow> nat \<Rightarrow> tid list" where
  "read_slots pq head n = map (\<lambda>i. runq pq ! slot (head + of_nat i)) [0..<n]"

definition runqputslow ::
    "p_task_que \<Rightarrow> tid \<Rightarrow> u32 \<Rightarrow> u32 \<Rightarrow> gqueue \<Rightarrow> c_err + (bool \<times> p_task_que \<times> gqueue)" where
  "runqputslow pq task head tail gq =
     (let n = (tail - head) div 2 in
      if n \<noteq> of_nat (TSC_TASK_NUM_PERPRIO div 2) then Inl AssertFail
      else
        (let temp = read_slots pq head (unat n) in
         if runqhead pq \<noteq> head then Inr (False, pq, gq)
         else if g_lock gq then Inl SelfDeadlock
         else Inr (True, pq\<lparr>runqhead := head + n\<rparr>,
                gq\<lparr>g_tasks := g_tasks gq @ temp @ [task]\<rparr>)))"

definition runqput :: "p_task_que \<Rightarrow> tid \<Rightarrow> gqueue \<Rightarrow> c_err + (p_task_que \<times> gqueue)" where
  "runqput pq task gq =
     (let head = runqhead pq; tail = runqtail pq in
      if tail - head < of_nat TSC_TASK_NUM_PERPRIO
      then Inr (pq\<lparr>runq := (runq pq)[slot tail := task], runqtail := tail + 1\<rparr>, gq)
      else andthen (runqputslow pq task head tail gq)
        (\<lambda>(done, pq, gq). if done then Inr (pq, gq) else Inl Diverges))"

definition runqgrab :: "p_task_que \<Rightarrow> c_err + (tid list \<times> p_task_que)" where
  "runqgrab pq =
     (let head = runqhead pq; tail = runqtail pq;
          n = tail - head; n = n - n div 2 in
      if n = 0 then Inr ([], pq)
      else if n > of_nat (TSC_TASK_NUM_PERPRIO div 2) then Inl Diverges
      else Inr (read_slots pq head (unat n), pq\<lparr>runqhead := head + n\<rparr>))"

primrec write_slots :: "tid list \<Rightarrow> tid list \<Rightarrow> u32 \<Rightarrow> tid list \<times> u32" where
  "write_slots q [] tail = (q, tail)"
| "write_slots q (t # ts) tail = write_slots (q[slot tail := t]) ts (tail + 1)"

definition runqsteal ::
    "p_task_que \<Rightarrow> p_task_que \<Rightarrow> c_err + (tid option \<times> p_task_que \<times> p_task_que)" where
  "runqsteal pq victim = andthen (runqgrab victim)
     (\<lambda>(temp, victim).
        if temp = [] then Inr (None, pq, victim)
        else
          (let task = last temp; temp = butlast temp in
           if temp = [] then Inr (Some task, pq, victim)
           else
             (let head = runqhead pq; tail = runqtail pq in
              if \<not> tail - head + of_nat (length temp) < of_nat TSC_TASK_NUM_PERPRIO then Inl AssertFail
              else (case write_slots (runq pq) temp tail of
                  (q, tail) \<Rightarrow> Inr (Some task, pq\<lparr>runq := q, runqtail := tail\<rparr>, victim)))))"

section \<open>The tasks a ring holds\<close>

definition rq_len :: "p_task_que \<Rightarrow> nat" where
  "rq_len pq = unat (runqtail pq - runqhead pq)"

definition rq_inv :: "p_task_que \<Rightarrow> bool" where
  "rq_inv pq \<longleftrightarrow> length (runq pq) = TSC_TASK_NUM_PERPRIO \<and> rq_len pq \<le> TSC_TASK_NUM_PERPRIO"

definition rq_list :: "p_task_que \<Rightarrow> tid list" where
  "rq_list pq = read_slots pq (runqhead pq) (rq_len pq)"

section \<open>Slots\<close>

lemma slot_add: "slot (h + of_nat i) = (unat h + i) mod 512"
proof -
  have "slot (h + of_nat i) = ((unat h + i) mod 2 ^ 32) mod 512"
    by (simp add: slot_def unat_mod unat_word_ariths unat_of_nat mod_simps)
  also have "\<dots> = (unat h + i) mod 512" by (rule mod_mod_cancel) simp
  finally show ?thesis .
qed

lemma slot_nat: "slot h = unat h mod 512"
  using slot_add [of h 0] by simp

lemma slot_less [simp]: "slot h < 512"
  by (simp add: slot_nat)

lemma slot_add_inj:
  assumes "slot (h + of_nat i) = slot (h + of_nat j)" "i < 512" "j < 512"
  shows "i = j"
proof -
  have eq: "(unat h + i) mod 512 = (unat h + j) mod 512" using assms by (simp add: slot_add)
  show ?thesis
  proof (cases "i \<le> j")
    case True
    with eq [symmetric] obtain q where "unat h + j = unat h + i + 512 * q"
      by (auto elim: mod_eq_nat1E)
    with assms show ?thesis by (cases q) auto
  next
    case False
    with eq obtain q where "unat h + i = unat h + j + 512 * q"
      by (auto elim: mod_eq_nat1E)
    with assms show ?thesis by (cases q) auto
  qed
qed

lemma length_read_slots [simp]: "length (read_slots pq h n) = n"
  by (simp add: read_slots_def)

lemma nth_read_slots [simp]: "i < n \<Longrightarrow> read_slots pq h n ! i = runq pq ! slot (h + of_nat i)"
  by (simp add: read_slots_def)

lemma read_slots_append:
  "read_slots pq h (a + b) = read_slots pq h a @ read_slots pq (h + of_nat a) b"
  by (rule nth_equalityI) (auto simp: nth_append algebra_simps)

lemma read_slots_upd [simp]:
  "read_slots (pq\<lparr>runqhead := x\<rparr>) h n = read_slots pq h n"
  "read_slots (pq\<lparr>runqtail := x\<rparr>) h n = read_slots pq h n"
  by (simp_all add: read_slots_def)

lemma read_slots_Suc: "read_slots pq h (Suc n) = runq pq ! slot h # read_slots pq (h + 1) n"
  using read_slots_append [of pq h 1 n] by (simp add: read_slots_def)

lemma rq_list_nth: "i < rq_len pq \<Longrightarrow> rq_list pq ! i = runq pq ! slot (runqhead pq + of_nat i)"
  by (simp add: rq_list_def)

lemma length_rq_list [simp]: "length (rq_list pq) = rq_len pq"
  by (simp add: rq_list_def)

lemma rq_len_eq_0 [simp]: "rq_len pq = 0 \<longleftrightarrow> runqtail pq = runqhead pq"
  by (simp add: rq_len_def unat_eq_0)

lemma rq_tail_eq: "runqtail pq = runqhead pq + of_nat (rq_len pq)"
  by (simp add: rq_len_def)

section \<open>Get\<close>

lemma runqget_empty: "rq_list pq = [] \<Longrightarrow> runqget pq = (None, pq)"
  by (simp add: runqget_def rq_list_def read_slots_def)

text \<open>Advancing the head by \<open>n\<close> drops the first \<open>n\<close> tasks, across wrap-around of either counter.\<close>

lemma rq_len_advance:
  "n \<le> rq_len pq \<Longrightarrow> rq_len (pq\<lparr>runqhead := runqhead pq + of_nat n\<rparr>) = rq_len pq - n"
proof -
  assume n: "n \<le> rq_len pq"
  have "runqtail pq - (runqhead pq + of_nat n) = of_nat (rq_len pq - n)"
    using n by (simp add: rq_tail_eq of_nat_diff)
  moreover have "rq_len pq < 2 ^ 32"
    unfolding rq_len_def using unsigned_less [of "runqtail pq - runqhead pq"] by simp
  ultimately show ?thesis by (simp add: rq_len_def [of "_\<lparr>runqhead := _\<rparr>"])
qed

lemma rq_list_advance:
  assumes "n \<le> rq_len pq"
  shows "rq_list (pq\<lparr>runqhead := runqhead pq + of_nat n\<rparr>) = drop n (rq_list pq)"
    and "read_slots pq (runqhead pq) n = take n (rq_list pq)"
proof -
  have "rq_list pq = read_slots pq (runqhead pq) n @
      read_slots pq (runqhead pq + of_nat n) (rq_len pq - n)"
    using read_slots_append [of pq "runqhead pq" n "rq_len pq - n"] assms by (simp add: rq_list_def)
  moreover have "rq_list (pq\<lparr>runqhead := runqhead pq + of_nat n\<rparr>) =
      read_slots pq (runqhead pq + of_nat n) (rq_len pq - n)"
    using rq_len_advance [OF assms] by (simp add: rq_list_def)
  ultimately show "rq_list (pq\<lparr>runqhead := runqhead pq + of_nat n\<rparr>) = drop n (rq_list pq)"
    "read_slots pq (runqhead pq) n = take n (rq_list pq)"
    by simp_all
qed

lemma rq_inv_advance:
  "rq_inv pq \<Longrightarrow> n \<le> rq_len pq \<Longrightarrow> rq_inv (pq\<lparr>runqhead := runqhead pq + of_nat n\<rparr>)"
  using rq_len_advance [of n pq] by (auto simp: rq_inv_def)

lemma runqget_cons:
  assumes "rq_list pq = t # ts"
  shows "\<exists>pq'. runqget pq = (Some t, pq') \<and> rq_list pq' = ts \<and> (rq_inv pq \<longrightarrow> rq_inv pq') \<and>
     pq' = pq\<lparr>runqhead := runqhead pq + 1\<rparr>"
proof -
  from assms have len: "1 \<le> rq_len pq" by (metis length_rq_list length_Cons le_add1 plus_1_eq_Suc)
  then have "runq pq ! slot (runqhead pq) = t"
    using rq_list_nth [of 0 pq] assms by simp
  moreover have "runqtail pq \<noteq> runqhead pq" using len rq_len_eq_0 [of pq] by linarith
  ultimately show ?thesis using len rq_list_advance(1) [OF len] rq_inv_advance [of pq 1] assms
    by (auto simp: runqget_def Let_def)
qed

section \<open>Put\<close>

definition rq_push :: "p_task_que \<Rightarrow> tid \<Rightarrow> p_task_que" where
  "rq_push pq t = pq\<lparr>runq := (runq pq)[slot (runqtail pq) := t], runqtail := runqtail pq + 1\<rparr>"

lemma rq_push_sel [simp]:
  "runq (rq_push pq t) = (runq pq)[slot (runqtail pq) := t]"
  "runqtail (rq_push pq t) = runqtail pq + 1" "runqhead (rq_push pq t) = runqhead pq"
  "pq_prio (rq_push pq t) = pq_prio pq"
  by (simp_all add: rq_push_def)

lemma rq_len_push: "rq_len pq < 512 \<Longrightarrow> rq_len (rq_push pq t) = Suc (rq_len pq)"
proof -
  assume len: "rq_len pq < 512"
  have "runqtail pq + 1 - runqhead pq = of_nat (Suc (rq_len pq))" by (simp add: rq_len_def)
  then show ?thesis using len unat_of_nat_u32 [of "Suc (rq_len pq)"]
    by (simp add: rq_len_def [of "rq_push pq t"] del: of_nat_Suc)
qed

lemma rq_push:
  assumes "rq_inv pq" "rq_len pq < 512"
  shows "rq_list (rq_push pq t) = rq_list pq @ [t]" and "rq_inv (rq_push pq t)"
proof -
  have len: "length (runq pq) = 512" using assms by (simp add: rq_inv_def)
  show "rq_list (rq_push pq t) = rq_list pq @ [t]"
  proof (rule nth_equalityI)
    fix i
    assume "i < length (rq_list (rq_push pq t))"
    then have i: "i \<le> rq_len pq" "i < rq_len (rq_push pq t)"
      using assms by (auto simp: rq_len_push)
    have tl: "runqtail pq = runqhead pq + of_nat (rq_len pq)" by (rule rq_tail_eq)
    have "slot (runqhead pq + of_nat i) = slot (runqtail pq) \<Longrightarrow> i = rq_len pq"
      using i assms(2) by (subst (asm) tl) (rule slot_add_inj, auto)
    then show "rq_list (rq_push pq t) ! i = (rq_list pq @ [t]) ! i"
      using i len tl by (auto simp: rq_list_nth nth_append nth_list_update)
  qed (use assms in \<open>simp add: rq_len_push\<close>)
  show "rq_inv (rq_push pq t)" using assms by (simp add: rq_inv_def rq_len_push)
qed

lemma less_512_iff: "runqtail pq - runqhead pq < 512 \<longleftrightarrow> rq_len pq < 512"
  by (simp add: word_less_nat_alt rq_len_def)

lemma runqput_room:
  "rq_len pq < 512 \<Longrightarrow> runqput pq t gq = Inr (rq_push pq t, gq)"
  by (simp add: runqput_def rq_push_def less_512_iff Let_def)

lemma runqput_full:
  assumes "rq_inv pq" "rq_len pq = 512"
  shows "runqput pq t gq = (if g_lock gq then Inl SelfDeadlock
     else Inr (pq\<lparr>runqhead := runqhead pq + 256\<rparr>,
            gq\<lparr>g_tasks := g_tasks gq @ take 256 (rq_list pq) @ [t]\<rparr>))"
proof -
  have d: "runqtail pq - runqhead pq = 512"
    using assms(2) rq_tail_eq [of pq] by simp
  have "read_slots pq (runqhead pq) 256 = take 256 (rq_list pq)"
    using rq_list_advance(2) [of 256 pq] assms by simp
  then show ?thesis by (simp add: runqput_def runqputslow_def d Let_def)
qed

section \<open>Grab and steal\<close>

lemma unat_half: "unat (w - w div 2 :: u32) = unat w - unat w div 2"
proof -
  have "w div 2 \<le> w" by (simp add: word_le_nat_alt unat_div)
  then show ?thesis by (simp add: unat_sub unat_div)
qed

lemma runqgrab_spec:
  assumes "rq_inv pq"
  defines "n \<equiv> rq_len pq - rq_len pq div 2"
  shows "runqgrab pq = Inr (take n (rq_list pq), pq\<lparr>runqhead := runqhead pq + of_nat n\<rparr>)"
proof -
  define w where "w = runqtail pq - runqhead pq - (runqtail pq - runqhead pq) div 2"
  have un: "unat w = n" using unat_half by (simp add: w_def n_def rq_len_def)
  have nb: "n \<le> 256" "n \<le> rq_len pq" using assms by (auto simp: rq_inv_def)
  have w: "w = of_nat n" using un [symmetric] by simp
  have rd: "read_slots pq (runqhead pq) n = take n (rq_list pq)"
    using rq_list_advance(2) [OF nb(2)] .
  have big: "\<not> 256 < w" using un nb by (simp add: word_less_nat_alt)
  have "runqgrab pq = (if w = 0 then Inr ([], pq) else if 256 < w then Inl Diverges
      else Inr (read_slots pq (runqhead pq) (unat w), pq\<lparr>runqhead := runqhead pq + w\<rparr>))"
    by (simp add: runqgrab_def Let_def w_def)
  with big rd un w show ?thesis by (cases "w = 0") simp_all
qed

lemma write_slots_push:
  assumes "rq_inv pq" "rq_len pq + length ts \<le> 512" "write_slots (runq pq) ts (runqtail pq) = (q, tl0)"
  shows "rq_list (pq\<lparr>runq := q, runqtail := tl0\<rparr>) = rq_list pq @ ts \<and>
         rq_inv (pq\<lparr>runq := q, runqtail := tl0\<rparr>)"
  using assms
proof (induction ts arbitrary: pq)
  case (Cons t ts)
  have room: "rq_len pq < 512" using Cons.prems by simp
  from Cons.prems have "write_slots (runq (rq_push pq t)) ts (runqtail (rq_push pq t)) = (q, tl0)"
    by simp
  moreover have "rq_len (rq_push pq t) + length ts \<le> 512"
    using room Cons.prems by (simp add: rq_len_push)
  ultimately have "rq_list ((rq_push pq t)\<lparr>runq := q, runqtail := tl0\<rparr>) = rq_list pq @ t # ts \<and>
      rq_inv ((rq_push pq t)\<lparr>runq := q, runqtail := tl0\<rparr>)"
    using Cons.IH [of "rq_push pq t"] rq_push [OF Cons.prems(1) room, of t] by simp
  moreover have "(rq_push pq t)\<lparr>runq := q, runqtail := tl0\<rparr> = pq\<lparr>runq := q, runqtail := tl0\<rparr>"
    by (simp add: rq_push_def)
  ultimately show ?case by metis
qed auto

lemma runqsteal_spec:
  assumes "rq_inv pq" "rq_inv v" "rq_list pq = []"
  defines "n \<equiv> rq_len v - rq_len v div 2"
  shows "\<exists>pq' v'. runqsteal pq v = Inr (if n = 0 then None else Some (rq_list v ! (n - 1)), pq', v') \<and>
           rq_list pq' = take (n - 1) (rq_list v) \<and> rq_list v' = drop n (rq_list v) \<and>
           rq_inv pq' \<and> rq_inv v'"
proof -
  define v' where "v' = v\<lparr>runqhead := runqhead v + of_nat n\<rparr>"
  define temp where "temp = take n (rq_list v)"
  have nb: "n \<le> 256" "n \<le> rq_len v" using assms by (auto simp: rq_inv_def)
  have grab: "runqgrab v = Inr (temp, v')"
    using runqgrab_spec [OF assms(2)] by (simp add: n_def v'_def temp_def)
  have v': "rq_list v' = drop n (rq_list v)" "rq_inv v'"
    using rq_list_advance(1) [OF nb(2)] rq_inv_advance [OF assms(2) nb(2)] by (simp_all add: v'_def)
  have lt: "length temp = n" using nb by (simp add: temp_def)
  have len0: "rq_len pq = 0" using assms(3) by (metis length_rq_list list.size(3))
  show ?thesis
  proof (cases "n \<le> 1")
    case True
    then consider "n = 0" | "n = 1" by linarith
    then show ?thesis
    proof cases
      case 1
      with grab v' lt assms show ?thesis by (simp add: runqsteal_def)
    next
      case 2
      with lt obtain t where "temp = [t]" by (metis One_nat_def length_0_conv length_Suc_conv)
      moreover from this 2 have "t = rq_list v ! 0" unfolding temp_def
        by (metis nth_Cons_0 nth_take zero_less_one)
      ultimately show ?thesis using 2 grab v' assms by (simp add: runqsteal_def)
    qed
  next
    case False
    then have ne: "temp \<noteq> []" "butlast temp \<noteq> []"
      using lt by (auto simp flip: length_greater_0_conv)
    have bl: "butlast temp = take (n - 1) (rq_list v)" "length (butlast temp) = n - 1"
      using nb by (simp_all add: temp_def butlast_take)
    have lst: "last temp = rq_list v ! (n - 1)"
      using ne(1) lt nb False by (simp add: last_conv_nth temp_def)
    have room: "runqtail pq - runqhead pq + of_nat (length (butlast temp)) < 512"
      using len0 bl nb by (simp add: word_less_nat_alt)
    obtain q tl0 where ws: "write_slots (runq pq) (butlast temp) (runqtail pq) = (q, tl0)" by fastforce
    with write_slots_push [OF assms(1) _ ws] len0 bl nb assms(3)
    have "rq_list (pq\<lparr>runq := q, runqtail := tl0\<rparr>) = butlast temp \<and>
        rq_inv (pq\<lparr>runq := q, runqtail := tl0\<rparr>)" by simp
    with False grab v' lst bl ne room ws show ?thesis by (simp add: runqsteal_def Let_def)
  qed
qed

section \<open>The interface the scheduler uses\<close>

locale task_ring =
  fixes inv :: "'q \<Rightarrow> bool"
    and tasks :: "'q \<Rightarrow> 't list"
    and cap :: nat
    and glocked :: "'g \<Rightarrow> bool"
    and gtasks :: "'g \<Rightarrow> 't list"
    and get :: "'q \<Rightarrow> 't option \<times> 'q"
    and put :: "'q \<Rightarrow> 't \<Rightarrow> 'g \<Rightarrow> 'e + ('q \<times> 'g)"
    and steal :: "'q \<Rightarrow> 'q \<Rightarrow> 'e + ('t option \<times> 'q \<times> 'q)"
  assumes bounded: "inv q \<Longrightarrow> length (tasks q) \<le> cap"
    and get_nil: "inv q \<Longrightarrow> tasks q = [] \<Longrightarrow> get q = (None, q)"
    and get_cons: "inv q \<Longrightarrow> tasks q = t # ts \<Longrightarrow> \<exists>q'. get q = (Some t, q') \<and> inv q' \<and> tasks q' = ts"
    and put_room: "inv q \<Longrightarrow> length (tasks q) < cap \<Longrightarrow>
      \<exists>q'. put q t g = Inr (q', g) \<and> inv q' \<and> tasks q' = tasks q @ [t]"
    and put_full: "inv q \<Longrightarrow> length (tasks q) = cap \<Longrightarrow> \<not> glocked g \<Longrightarrow>
      \<exists>q' g' us vs. put q t g = Inr (q', g') \<and> inv q' \<and> \<not> glocked g' \<and> tasks q = us @ vs \<and>
        tasks q' = vs \<and> gtasks g' = gtasks g @ us @ [t]"
    and steal_law: "inv q \<Longrightarrow> inv v \<Longrightarrow> tasks q = [] \<Longrightarrow>
      \<exists>r q' v'. steal q v = Inr (r, q', v') \<and> inv q' \<and> inv v' \<and> (r = None \<longleftrightarrow> tasks v = []) \<and>
        tasks v = tasks q' @ opt_list r @ tasks v'"
begin

lemma get_law:
  "inv q \<Longrightarrow> \<exists>r q'. get q = (r, q') \<and> inv q' \<and> tasks q = opt_list r @ tasks q' \<and> (r = None \<longleftrightarrow> tasks q = [])"
  using get_nil get_cons by (cases "tasks q") fastforce+

lemma put_law:
  assumes "inv q" "\<not> glocked g"
  shows "\<exists>q' g'. put q t g = Inr (q', g') \<and> inv q' \<and> \<not> glocked g' \<and>
    mset (tasks q') + mset (gtasks g') = add_mset t (mset (tasks q) + mset (gtasks g))"
proof (cases "length (tasks q) < cap")
  case True
  then show ?thesis using put_room [OF assms(1) True, of t g] assms by auto
next
  case False
  then have "length (tasks q) = cap" using bounded [OF assms(1)] by simp
  from put_full [OF assms(1) this assms(2), of t] obtain q' g' us vs where
    "put q t g = Inr (q', g')" "inv q'" "\<not> glocked g'" "tasks q = us @ vs" "tasks q' = vs"
    "gtasks g' = gtasks g @ us @ [t]" by blast
  then show ?thesis by simp
qed

end

interpretation ring: task_ring rq_inv rq_list 512 g_lock g_tasks runqget runqput runqsteal
proof
  fix q :: p_task_que and t ts and g :: gqueue and v :: p_task_que
  show "rq_inv q \<Longrightarrow> length (rq_list q) \<le> 512" by (simp add: rq_inv_def)
  show "rq_inv q \<Longrightarrow> rq_list q = [] \<Longrightarrow> runqget q = (None, q)" by (simp add: runqget_empty)
  show "rq_inv q \<Longrightarrow> rq_list q = t # ts \<Longrightarrow> \<exists>q'. runqget q = (Some t, q') \<and> rq_inv q' \<and> rq_list q' = ts"
    using runqget_cons [of q t ts] by auto
  show "rq_inv q \<Longrightarrow> length (rq_list q) < 512 \<Longrightarrow>
      \<exists>q'. runqput q t g = Inr (q', g) \<and> rq_inv q' \<and> rq_list q' = rq_list q @ [t]"
    using rq_push [of q t] runqput_room [of q t g] by auto
  show "\<exists>q' g' us vs. runqput q t g = Inr (q', g') \<and> rq_inv q' \<and> \<not> g_lock g' \<and> rq_list q = us @ vs \<and>
      rq_list q' = vs \<and> g_tasks g' = g_tasks g @ us @ [t]"
    if "rq_inv q" "length (rq_list q) = 512" "\<not> g_lock g"
  proof -
    from that have len: "rq_len q = 512" by simp
    from runqput_full [OF that(1) len, of t g] rq_list_advance(1) [of 256 q] rq_inv_advance [of q 256] that len
    show ?thesis
      by (intro exI [of _ "q\<lparr>runqhead := runqhead q + 256\<rparr>"]
          exI [of _ "g\<lparr>g_tasks := g_tasks g @ take 256 (rq_list q) @ [t]\<rparr>"]
          exI [of _ "take 256 (rq_list q)"] exI [of _ "drop 256 (rq_list q)"]) simp
  qed
  show "\<exists>r q' v'. runqsteal q v = Inr (r, q', v') \<and> rq_inv q' \<and> rq_inv v' \<and>
      (r = None \<longleftrightarrow> rq_list v = []) \<and> rq_list v = rq_list q' @ opt_list r @ rq_list v'"
    if "rq_inv q" "rq_inv v" "rq_list q = []"
  proof -
    let ?n = "rq_len v - rq_len v div 2"
    from runqsteal_spec [OF that] obtain q' v' where
      st: "runqsteal q v = Inr (if ?n = 0 then None else Some (rq_list v ! (?n - 1)), q', v')"
        "rq_list q' = take (?n - 1) (rq_list v)" "rq_list v' = drop ?n (rq_list v)" "rq_inv q'" "rq_inv v'"
      by blast
    have n0: "?n = 0 \<longleftrightarrow> rq_list v = []"
      using length_rq_list [of v] by (metis diff_self_eq_0 div_less_dividend div_0 length_0_conv
        less_numeral_extra(3) neq0_conv one_less_numeral_iff semiring_norm(76) zero_less_diff)
    show ?thesis
    proof (cases "?n = 0")
      case True
      then have nil: "rq_list v = []" using n0 by blast
      from st(1) have "runqsteal q v = Inr (None, q', v')" unfolding if_P [OF True] .
      with st(2-) nil show ?thesis by auto
    next
      case False
      then have "?n \<le> length (rq_list v)" "Suc (?n - 1) = ?n" by simp_all
      then have "rq_list v = take (?n - 1) (rq_list v) @ [rq_list v ! (?n - 1)] @ drop ?n (rq_list v)"
        by (metis Suc_le_lessD append_assoc append_take_drop_id take_Suc_conv_app_nth)
      with st n0 False show ?thesis by auto
    qed
  qed
qed

section \<open>Fetching from the global queue\<close>

text \<open>
  The part of \<open>core_elect\<close> that runs with the lock of the global queue held (\<^verbatim>\<open>src/vpu.c\<close>, lines 189 to
  211): the first task fetched becomes the candidate, the others go to the private ring. The loop takes
  items off by hand, without \<open>queue_rem\<close>. A \<open>NULL\<close> head, or an item with a \<open>NULL\<close> owner (which the
  scheduler would dereference), is an error.
\<close>

primrec elect_fetch ::
    "nat \<Rightarrow> tid option \<Rightarrow> p_task_que \<Rightarrow> gqueue \<Rightarrow> c_err + (tid option \<times> p_task_que \<times> gqueue)" where
  "elect_fetch 0 cand pq gq = Inr (cand, pq, gq)"
| "elect_fetch (Suc k) cand pq gq =
     (case g_tasks gq of
        [] \<Rightarrow> Inl NullDeref
      | t # ts \<Rightarrow>
          (let gq = gq\<lparr>g_tasks := ts\<rparr> in
           case cand of
             None \<Rightarrow> elect_fetch k (Some t) pq gq
           | Some c \<Rightarrow> andthen (runqput pq t gq) (\<lambda>(pq, gq). elect_fetch k cand pq gq)))"

definition gq_fetch :: "p_task_que \<Rightarrow> gqueue \<Rightarrow> c_err + (tid option \<times> p_task_que \<times> gqueue)" where
  "gq_fetch pq gq =
     (let status = length (g_tasks gq);
          max_fetch = (if status < TSC_TASK_NUM_PERPRIO - 1 then status else TSC_TASK_NUM_PERPRIO - 1) in
      andthen (elect_fetch max_fetch None pq (gq\<lparr>g_lock := True\<rparr>))
        (\<lambda>(cand, pq, gq). Inr (cand, pq, gq\<lparr>g_lock := False\<rparr>)))"

lemma elect_fetch_room:
  assumes "rq_inv pq" "k \<le> length (g_tasks gq)" "rq_len pq + k \<le> 512"
  shows "\<exists>pq'. elect_fetch k (Some c) pq gq = Inr (Some c, pq', gq\<lparr>g_tasks := drop k (g_tasks gq)\<rparr>) \<and>
           rq_inv pq' \<and> rq_list pq' = rq_list pq @ take k (g_tasks gq)"
  using assms
proof (induction k arbitrary: pq gq)
  case (Suc k)
  from Suc.prems obtain t ts where gq: "g_tasks gq = t # ts" by (cases "g_tasks gq") auto
  have room: "length (rq_list pq) < 512" using Suc.prems by simp
  from ring.put_room [OF Suc.prems(1) room, of t "gq\<lparr>g_tasks := ts\<rparr>"] obtain pq1
    where pq1: "runqput pq t (gq\<lparr>g_tasks := ts\<rparr>) = Inr (pq1, gq\<lparr>g_tasks := ts\<rparr>)" "rq_inv pq1"
      "rq_list pq1 = rq_list pq @ [t]" by blast
  have "rq_len pq1 = Suc (rq_len pq)" using pq1(3) length_rq_list [of pq1] by simp
  then obtain pq' where "elect_fetch k (Some c) pq1 (gq\<lparr>g_tasks := ts\<rparr>) =
        Inr (Some c, pq', gq\<lparr>g_tasks := drop k ts\<rparr>)" "rq_inv pq'"
      "rq_list pq' = rq_list pq1 @ take k ts"
    using Suc.IH [of pq1 "gq\<lparr>g_tasks := ts\<rparr>"] Suc.prems pq1 gq by auto
  with gq pq1 show ?case by simp
qed simp

lemma gq_fetch_spec:
  assumes "rq_inv pq" "rq_list pq = []" "\<not> g_lock gq" "g_tasks gq = t # ts"
  shows "\<exists>pq'. gq_fetch pq gq = Inr (Some t, pq', gq\<lparr>g_tasks := drop 510 ts\<rparr>) \<and>
           rq_inv pq' \<and> rq_list pq' = take 510 ts"
proof -
  define k where "k = (if length ts < 510 then length ts else 510)"
  have len: "rq_len pq = 0" using assms(2) by (metis length_rq_list list.size(3))
  have kb: "k \<le> length ts" "k \<le> 510" by (simp_all add: k_def)
  from elect_fetch_room [OF assms(1), of k "gq\<lparr>g_lock := True, g_tasks := ts\<rparr>" t] len
  obtain pq' where "elect_fetch k (Some t) pq (gq\<lparr>g_lock := True, g_tasks := ts\<rparr>) =
      Inr (Some t, pq', gq\<lparr>g_lock := True, g_tasks := drop k ts\<rparr>)" "rq_inv pq'"
      "rq_list pq' = take k ts"
    using assms(2) kb by auto
  moreover have "take k ts = take 510 ts" "drop k ts = drop 510 ts" by (auto simp: k_def)
  moreover have mf: "(if length (g_tasks gq) < TSC_TASK_NUM_PERPRIO - 1 then length (g_tasks gq)
      else TSC_TASK_NUM_PERPRIO - 1) = Suc k"
    using assms(4) by (simp add: k_def)
  have "gq_fetch pq gq = andthen (elect_fetch (Suc k) None pq (gq\<lparr>g_lock := True\<rparr>))
      (\<lambda>(cand, pq, gq). Inr (cand, pq, gq\<lparr>g_lock := False\<rparr>))"
    unfolding gq_fetch_def Let_def mf ..
  ultimately show ?thesis using assms(3,4) by simp
qed

section \<open>The same on the linked items\<close>

text \<open>
  \<open>__runqputslow\<close> and the fetching loop again, on the store of theory \<open>Queue\<close>: the tasks moved out of the
  ring are linked through their status links and spliced into the global queue; the fetching loop advances
  the head by hand and repairs \<open>prev\<close> and \<open>tail\<close> once at the end.
\<close>

fun link_all :: "addr list \<Rightarrow> qmem \<Rightarrow> qmem" where
  "link_all (a # b # ts) m = link_all (b # ts) (queue_link a b m)"
| "link_all ts m = m"

definition runqputslow_ptr ::
    "addr \<Rightarrow> p_task_que \<Rightarrow> tid \<Rightarrow> u32 \<Rightarrow> u32 \<Rightarrow> qmem \<Rightarrow> c_err + (bool \<times> p_task_que \<times> qmem)" where
  "runqputslow_ptr q pq task head tail m =
     (let n = (tail - head) div 2 in
      if n \<noteq> of_nat (TSC_TASK_NUM_PERPRIO div 2) then Inl AssertFail
      else
        (let temp = read_slots pq head (unat n) in
         if runqhead pq \<noteq> head then Inr (False, pq, m)
         else
           (let temp = temp @ [task] in
            andthen (atomic_queue_add_range q (n + 1) (hd temp) task (link_all temp m))
              (\<lambda>m. Inr (True, pq\<lparr>runqhead := head + n\<rparr>, m)))))"

definition runqput_ptr :: "addr \<Rightarrow> p_task_que \<Rightarrow> tid \<Rightarrow> qmem \<Rightarrow> c_err + (p_task_que \<times> qmem)" where
  "runqput_ptr q pq task m =
     (let head = runqhead pq; tail = runqtail pq in
      if tail - head < of_nat TSC_TASK_NUM_PERPRIO
      then Inr (pq\<lparr>runq := (runq pq)[slot tail := task], runqtail := tail + 1\<rparr>, m)
      else andthen (runqputslow_ptr q pq task head tail m)
        (\<lambda>(done, pq, m). if done then Inr (pq, m) else Inl Diverges))"

primrec elect_fetch_ptr ::
    "nat \<Rightarrow> tid option \<Rightarrow> p_task_que \<Rightarrow> addr \<Rightarrow> qmem \<Rightarrow> c_err + (tid option \<times> p_task_que \<times> qmem)" where
  "elect_fetch_ptr 0 cand pq q m = Inr (cand, pq, m)"
| "elect_fetch_ptr (Suc k) cand pq q m =
     (case q_head (queues m q) of
        None \<Rightarrow> Inl NullDeref
      | Some kitem \<Rightarrow>
          (let m = upd_queue q (\<lambda>r. r\<lparr>q_head := item_next (items m kitem), q_status := q_status r - 1\<rparr>) m in
           case item_owner (items m kitem) of
             None \<Rightarrow> Inl NullDeref
           | Some t \<Rightarrow>
               (case cand of
                  None \<Rightarrow> elect_fetch_ptr k (Some t) pq q m
                | Some c \<Rightarrow> andthen (runqput_ptr q pq t m) (\<lambda>(pq, m). elect_fetch_ptr k cand pq q m))))"

definition gq_fetch_ptr :: "p_task_que \<Rightarrow> addr \<Rightarrow> qmem \<Rightarrow> c_err + (tid option \<times> p_task_que \<times> qmem)" where
  "gq_fetch_ptr pq q m =
     andthen (q_acquire q m) (\<lambda>m.
       let status = unat (q_status (queues m q));
           max_fetch = (if status < TSC_TASK_NUM_PERPRIO - 1 then status else TSC_TASK_NUM_PERPRIO - 1) in
       andthen (elect_fetch_ptr max_fetch None pq q m)
         (\<lambda>(cand, pq, m).
            let m = (case q_head (queues m q) of
                  Some h \<Rightarrow> upd_item h (\<lambda>r. r\<lparr>item_prev := None\<rparr>) m
                | None \<Rightarrow> upd_queue q (\<lambda>r. r\<lparr>q_tail := q_head r\<rparr>) m)
            in Inr (cand, pq, q_release q m)))"

text \<open>What it means that a store implements the global queue \<open>gq\<close> of the list model.\<close>

definition gq_repr :: "qmem \<Rightarrow> addr \<Rightarrow> gqueue \<Rightarrow> bool" where
  "gq_repr m q gq \<longleftrightarrow> queue_fwd m q (g_tasks gq) \<and> q_lock (queues m q) = g_lock gq \<and>
     (\<forall>t \<in> set (g_tasks gq). item_owner (items m t) = Some t)"

lemma link_all_other:
  "x \<notin> set ts \<Longrightarrow> items (link_all ts m) x = items m x"
  "queues (link_all ts m) = queues m"
  by (induction ts m rule: link_all.induct) (auto simp: queue_link_def ptr_simps)

lemma link_all_owner: "item_owner (items (link_all ts m) x) = item_owner (items m x)"
  by (induction ts m rule: link_all.induct) (auto simp: queue_link_def ptr_simps)

lemma link_all_hd_next:
  "item_next (items (link_all (a # b # ts) m) a) = Some b" if "a \<notin> set (b # ts)" "a \<noteq> b"
  using that by (simp add: link_all_other queue_link_def ptr_simps)

lemma link_all_nexts:
  "ts \<noteq> [] \<Longrightarrow> distinct ts \<Longrightarrow> nexts (items (link_all ts m)) (butlast ts) (Some (last ts))"
proof (induction ts m rule: link_all.induct)
  case (1 a b ts m)
  then have "item_next (items (link_all (b # ts) (queue_link a b m)) a) = Some b"
    using link_all_hd_next [of a b ts m] by simp
  with 1 show ?case by (cases ts) auto
qed auto

lemma queue_fwd_link_all:
  assumes "queue_fwd m q xs" "set xs \<inter> set ts = {}"
  shows "queue_fwd (link_all ts m) q xs"
proof -
  have "nexts (items (link_all ts m)) xs None = nexts (items m) xs None"
    using assms(2) by (intro nexts_cong) (metis disjoint_iff link_all_other(1))
  then show ?thesis using assms(1) by (simp add: queue_fwd_def link_all_other)
qed

lemma runqputslow_ptr_refines:
  assumes repr: "gq_repr m q gq" and free: "\<not> g_lock gq"
    and slow: "runqputslow pq task head tail gq = Inr (True, pq', gq')"
    and own: "\<forall>t \<in> set (rq_list pq). item_owner (items m t) = Some t" "item_owner (items m task) = Some task"
    and dist: "distinct (g_tasks gq')" and len: "length (g_tasks gq') < 2 ^ 32"
    and hd: "head = runqhead pq" "tail = runqtail pq"
  shows "\<exists>m'. runqputslow_ptr q pq task head tail m = Inr (True, pq', m') \<and> gq_repr m' q gq'"
proof -
  define temp where "temp = read_slots pq head 256 @ [task]"
  have n: "(tail - head) div 2 = 256" and gq': "g_tasks gq' = g_tasks gq @ temp" "\<not> g_lock gq'"
    and pq': "pq' = pq\<lparr>runqhead := head + 256\<rparr>"
    using slow free by (auto simp: runqputslow_def temp_def Let_def hd split: if_splits)
  have lt: "length temp = 257" by (simp add: temp_def)
  have ne: "temp \<noteq> []" "last temp = task" "distinct temp" "set (g_tasks gq) \<inter> set temp = {}"
    using dist gq' by (auto simp: temp_def)
  have "(tail - head) div 2 \<le> tail - head" by (simp add: word_le_nat_alt unat_div)
  then have "256 \<le> rq_len pq" using n hd by (simp add: word_le_nat_alt rq_len_def)
  then have ot: "\<forall>t \<in> set temp. item_owner (items m t) = Some t"
    using own rq_list_advance(2) [of 256 pq] hd by (auto simp: temp_def dest: in_set_takeD)
  let ?m = "upd_queue q (\<lambda>r. r\<lparr>q_lock := True\<rparr>) (link_all temp m)"
  have "queue_fwd ?m q (g_tasks gq)"
    using repr ne queue_fwd_link_all [of m q "g_tasks gq" temp] by (simp add: gq_repr_def)
  moreover have "nexts (items ?m) (butlast temp) (Some (last temp))"
    using ne link_all_nexts [of temp m] by simp
  moreover have "length (g_tasks gq) + length temp < 2 ^ 32" using len gq' by simp
  ultimately obtain m1 where m1: "queue_add_range q (of_nat (length temp)) (hd temp) (last temp) ?m = Inr m1"
    "queue_fwd m1 q (g_tasks gq @ temp)" "touches ?m m1 q (set (g_tasks gq) \<union> set temp)"
    using queue_add_range_fwd [of ?m q "g_tasks gq" temp] ne by blast
  have "atomic_queue_add_range q 257 (hd temp) task (link_all temp m) = Inr (q_release q m1)"
    using m1(1) repr free lt ne(2)
    by (simp add: atomic_queue_add_range_def q_acquire_def gq_repr_def link_all_other)
  moreover have "gq_repr (q_release q m1) q gq'"
    using m1 gq' repr ot
    by (auto simp: gq_repr_def q_release_def touches_def link_all_owner) (simp_all add: ptr_simps)
  ultimately show ?thesis using n pq' hd by (simp add: runqputslow_ptr_def Let_def temp_def)
qed

lemma runqput_ptr_room:
  "rq_len pq < 512 \<Longrightarrow> runqput_ptr q pq t m = Inr (rq_push pq t, m)"
  by (simp add: runqput_ptr_def rq_push_def less_512_iff Let_def)

text \<open>The state of the global queue inside the loop: everything but the tail is up to date.\<close>

definition fetching :: "qmem \<Rightarrow> addr \<Rightarrow> tid list \<Rightarrow> bool" where
  "fetching m q ts \<longleftrightarrow> q_head (queues m q) = hd_ptr ts None \<and>
     q_status (queues m q) = of_nat (length ts) \<and> nexts (items m) ts None \<and>
     (\<forall>t \<in> set ts. item_owner (items m t) = Some t)"

lemma fetching_step:
  assumes "fetching m q (t # ts)"
  shows "fetching (upd_queue q (\<lambda>r. r\<lparr>q_head := item_next (items m t), q_status := q_status r - 1\<rparr>) m) q ts"
  using assms by (simp add: fetching_def ptr_simps)

lemma elect_fetch_ptr_refines:
  assumes "fetching m q (g_tasks gq)" "rq_inv pq" "rq_len pq + k \<le> 512"
    "elect_fetch k cand pq gq = Inr (cand', pq', gq')"
  shows "\<exists>m'. elect_fetch_ptr k cand pq q m = Inr (cand', pq', m') \<and> fetching m' q (g_tasks gq') \<and>
     items m' = items m \<and> q_tail (queues m' q) = q_tail (queues m q) \<and>
     q_lock (queues m' q) = q_lock (queues m q) \<and>
     (\<exists>us. g_tasks gq = us @ g_tasks gq') \<and> g_lock gq' = g_lock gq"
  using assms
proof (induction k arbitrary: cand pq gq m)
  case (Suc k)
  from Suc.prems(4) obtain t ts where gq: "g_tasks gq = t # ts" by (cases "g_tasks gq") auto
  let ?m = "upd_queue q (\<lambda>r. r\<lparr>q_head := item_next (items m t), q_status := q_status r - 1\<rparr>) m"
  have f: "fetching ?m q ts" using Suc.prems(1) gq by (simp add: fetching_step)
  have o: "item_owner (items m t) = Some t" "q_head (queues m q) = Some t"
    using Suc.prems(1) gq by (simp_all add: fetching_def)
  have tail: "q_tail (queues ?m q) = q_tail (queues m q)" "q_lock (queues ?m q) = q_lock (queues m q)"
    by (simp_all add: ptr_simps)
  show ?case
  proof (cases cand)
    case None
    with Suc.IH [of ?m "gq\<lparr>g_tasks := ts\<rparr>" pq "Some t"] f Suc.prems gq o tail show ?thesis by auto
  next
    case (Some c)
    have room: "rq_len pq < 512" using Suc.prems(3) by simp
    from rq_push [OF Suc.prems(2) room, of t] have "rq_inv (rq_push pq t)"
      "rq_len (rq_push pq t) + k \<le> 512" using Suc.prems(3) room by (simp_all add: rq_len_push)
    with Suc.IH [of ?m "gq\<lparr>g_tasks := ts\<rparr>" "rq_push pq t" cand] f Suc.prems gq o tail Some room
    show ?thesis by (auto simp: runqput_room runqput_ptr_room)
  qed
qed auto

lemma gq_fetch_ptr_refines:
  assumes repr: "gq_repr m q gq" and free: "\<not> g_lock gq" and pq: "rq_inv pq" "rq_list pq = []"
    and fetch: "gq_fetch pq gq = Inr (c, pq', gq')"
  shows "\<exists>m'. gq_fetch_ptr pq q m = Inr (c, pq', m') \<and> gq_repr m' q gq'"
proof -
  let ?m = "upd_queue q (\<lambda>r. r\<lparr>q_lock := True\<rparr>) m"
  define k where "k = (if length (g_tasks gq) < 511 then length (g_tasks gq) else 511)"
  from fetch obtain gq1 where el: "elect_fetch k None pq (gq\<lparr>g_lock := True\<rparr>) = Inr (c, pq', gq1)"
    and gq': "gq' = gq1\<lparr>g_lock := False\<rparr>"
    by (auto simp: gq_fetch_def k_def Let_def andthen_Inr_iff split: if_splits)
  have "rq_len pq + k \<le> 512" using pq(2) length_rq_list [of pq] by (simp add: k_def rq_len_def)
  moreover have "fetching ?m q (g_tasks (gq\<lparr>g_lock := True\<rparr>))"
    using repr by (simp add: gq_repr_def queue_fwd_def fetching_def) (simp add: ptr_simps)
  ultimately obtain m1 us where m1: "elect_fetch_ptr k None pq q ?m = Inr (c, pq', m1)"
    "fetching m1 q (g_tasks gq1)" "items m1 = items m" "q_tail (queues m1 q) = q_tail (queues m q)"
    "g_tasks gq = us @ g_tasks gq1"
    using elect_fetch_ptr_refines [OF _ pq(1) _ el, of ?m q] by (auto simp: ptr_simps)
  have st: "unat (q_status (queues ?m q)) = length (g_tasks gq)" "length (g_tasks gq) < 2 ^ 32"
    "\<not> q_lock (queues m q)"
    using repr free by (auto simp: gq_repr_def queue_fwd_def ptr_simps)
  define m2 where "m2 = (case q_head (queues m1 q) of
      Some h \<Rightarrow> upd_item h (\<lambda>r. r\<lparr>item_prev := None\<rparr>) m1
    | None \<Rightarrow> upd_queue q (\<lambda>r. r\<lparr>q_tail := q_head r\<rparr>) m1)"
  have "gq_fetch_ptr pq q m = Inr (c, pq', q_release q m2)"
    using m1(1) st
    by (cases "length (g_tasks gq) < 511")
       (simp_all add: gq_fetch_ptr_def q_acquire_def k_def m2_def Let_def)
  moreover have "gq_repr (q_release q m2) q gq'"
    using m1(2-) repr st(2)
    by (cases "g_tasks gq1")
       (auto simp: gq_repr_def queue_fwd_def fetching_def m2_def q_release_def gq' ptr_simps)
  ultimately show ?thesis by blast
qed

section \<open>Properties\<close>

text \<open>A ring for the witnesses whose counters are about to wrap around; it holds tasks 7, 8, 9.\<close>

definition example_ring :: p_task_que where
  "example_ring = \<lparr>pq_prio = 2, runq = (replicate 512 0)[510 := 7, 511 := 8, 0 := 9],
     runqhead = -2, runqtail = 1\<rparr>"

definition empty_ring :: "u32 \<Rightarrow> p_task_que" where
  "empty_ring k = \<lparr>pq_prio = 2, runq = replicate 512 0, runqhead = k, runqtail = k\<rparr>"

lemma example_ring_list: "rq_inv example_ring" "rq_list example_ring = [7, 8, 9]"
  by (simp_all add: example_ring_def rq_inv_def rq_list_def rq_len_def read_slots_def slot_def
      upt_conv_Cons nth_list_update)

lemma empty_ring_list: "rq_inv (empty_ring k)" "rq_list (empty_ring k) = []"
  by (simp_all add: empty_ring_def rq_inv_def rq_list_def rq_len_def read_slots_def)

text \<open>
  Claim C36. The private ring behaves as a queue at every value of its 32-bit counters, including across their
  wrap-around: \<open>__runqget\<close> returns the oldest task; \<open>__runqput\<close> appends while a slot is free;
  on a full ring it moves exactly the oldest 256 tasks, followed by the new one, to the global queue and
  keeps the newest 256. The ring invariant is kept in every case, so no task is lost or duplicated.
\<close>

theorem runq_get_put_spec:
  assumes "rq_inv pq" "\<not> g_lock gq"
  shows "(case rq_list pq of
            [] \<Rightarrow> runqget pq = (None, pq)
          | t # ts \<Rightarrow> (\<exists>pq'. runqget pq = (Some t, pq') \<and> rq_inv pq' \<and> rq_list pq' = ts)) \<and>
         (\<exists>pq' gq'. runqput pq task gq = Inr (pq', gq') \<and> rq_inv pq' \<and> \<not> g_lock gq' \<and>
            (if length (rq_list pq) < 512
             then rq_list pq' = rq_list pq @ [task] \<and> gq' = gq
             else rq_list pq' = drop 256 (rq_list pq) \<and>
               g_tasks gq' = g_tasks gq @ take 256 (rq_list pq) @ [task]))"
proof
  show "case rq_list pq of [] \<Rightarrow> runqget pq = (None, pq)
      | t # ts \<Rightarrow> (\<exists>pq'. runqget pq = (Some t, pq') \<and> rq_inv pq' \<and> rq_list pq' = ts)"
    using ring.get_nil [OF assms(1)] ring.get_cons [OF assms(1)] by (auto split: list.split)
  show "\<exists>pq' gq'. runqput pq task gq = Inr (pq', gq') \<and> rq_inv pq' \<and> \<not> g_lock gq' \<and>
      (if length (rq_list pq) < 512 then rq_list pq' = rq_list pq @ [task] \<and> gq' = gq
       else rq_list pq' = drop 256 (rq_list pq) \<and>
         g_tasks gq' = g_tasks gq @ take 256 (rq_list pq) @ [task])"
  proof (cases "length (rq_list pq) < 512")
    case True
    with ring.put_room [OF assms(1) True, of task gq] assms(2) show ?thesis by auto
  next
    case False
    then have len: "rq_len pq = 512" using assms(1) by (simp add: rq_inv_def)
    from runqput_full [OF assms(1) len] rq_list_advance(1) [of 256 pq] rq_inv_advance [of pq 256] assms len
    show ?thesis by simp
  qed
qed

theorem runq_get_put_spec_witness:
  "(\<exists>pq'. runqget example_ring = (Some 7, pq') \<and> rq_list pq' = [8, 9]) \<and>
   (\<exists>pq'. runqput example_ring 5 \<lparr>g_lock = False, g_tasks = []\<rparr> = Inr (pq', \<lparr>g_lock = False, g_tasks = []\<rparr>) \<and>
      rq_list pq' = [7, 8, 9, 5])"
  using runq_get_put_spec [OF example_ring_list(1), of "\<lparr>g_lock = False, g_tasks = []\<rparr>" 5]
  by (auto simp: example_ring_list(2))

text \<open>
  Work stealing conserves tasks and its assertion never fails: a thief whose own ring is empty takes
  the oldest \<open>n - n div 2\<close> of the victim's \<open>n\<close> tasks in one step, runs the newest of them and keeps the others
  in their order; the victim keeps the rest in order. It comes back empty-handed only if the victim
  had nothing.
\<close>

theorem runqsteal_conserves:
  assumes "rq_inv pq" "rq_inv victim" "rq_list pq = []"
  shows "\<exists>r pq' victim'. runqsteal pq victim = Inr (r, pq', victim') \<and> rq_inv pq' \<and> rq_inv victim' \<and>
           rq_list victim = rq_list pq' @ opt_list r @ rq_list victim' \<and>
           length (rq_list victim') = length (rq_list victim) div 2 \<and>
           (r = None \<longleftrightarrow> rq_list victim = [])"
proof -
  from ring.steal_law [OF assms] obtain r pq' victim' where st:
    "runqsteal pq victim = Inr (r, pq', victim')" "rq_inv pq'" "rq_inv victim'"
    "r = None \<longleftrightarrow> rq_list victim = []" "rq_list victim = rq_list pq' @ opt_list r @ rq_list victim'"
    by blast
  from runqsteal_spec [OF assms] st(1) have "length (rq_list victim') = length (rq_list victim) div 2"
    by auto
  with st show ?thesis by blast
qed

theorem runqsteal_conserves_witness:
  "\<exists>pq' victim'. runqsteal (empty_ring 100) example_ring = Inr (Some 8, pq', victim') \<and>
     rq_list pq' = [7] \<and> rq_list victim' = [9]"
proof -
  obtain r pq' victim' where st: "runqsteal (empty_ring 100) example_ring = Inr (r, pq', victim')"
    "[7, 8, 9] = rq_list pq' @ opt_list r @ rq_list victim'" "length (rq_list victim') = 1" "r \<noteq> None"
    using runqsteal_conserves [OF empty_ring_list(1) example_ring_list(1) empty_ring_list(2), of 100]
    by (auto simp: example_ring_list(2) simp del: length_rq_list)
  then obtain t v where "r = Some t" "rq_list victim' = [v]"
    by (metis length_0_conv length_Suc_conv not_None_eq One_nat_def)
  with st have "rq_list pq' = [7]" "t = 8" "v = 9"
    by (cases "rq_list pq'"; cases "tl (rq_list pq')"; auto)+
  with st \<open>r = Some t\<close> \<open>rq_list victim' = [v]\<close> show ?thesis by simp
qed

text \<open>
  Fetching from the global queue cannot deadlock on the queue's own lock. \<open>core_elect\<close> calls
  \<open>__runqput\<close> while it holds that lock, and a full ring would make \<open>__runqput\<close> acquire it again; but from an
  empty ring at most 511 tasks are fetched, so every put finds a free slot. The oldest task is
  returned, the next 510 are in the ring, the rest stays queued, all in order, and the lock is free again.
\<close>

theorem gq_fetch_no_self_deadlock:
  assumes "rq_inv pq" "rq_list pq = []" "\<not> g_lock gq" "g_tasks gq = t # ts"
  shows "\<exists>pq' gq'. gq_fetch pq gq = Inr (Some t, pq', gq') \<and> rq_inv pq' \<and> \<not> g_lock gq' \<and>
           rq_list pq' = take 510 ts \<and> g_tasks gq' = drop 510 ts"
  using gq_fetch_spec [OF assms] assms(3) by auto

theorem gq_fetch_no_self_deadlock_witness:
  "\<exists>pq' gq'. gq_fetch (empty_ring 5) \<lparr>g_lock = False, g_tasks = [1, 2, 3]\<rparr> = Inr (Some 1, pq', gq') \<and>
     rq_list pq' = [2, 3] \<and> g_tasks gq' = [] \<and> \<not> g_lock gq'"
  using gq_fetch_no_self_deadlock [OF empty_ring_list, of "\<lparr>g_lock = False, g_tasks = [1, 2, 3]\<rparr>" 1 "[2, 3]" 5]
  by auto

text \<open>
  Claim C37. The pointer-level code of the overflow path and of the fetching loop implements the list model: if the
  linked items of a store represent the global queue, then linking 257 tasks through their status links and
  splicing them in, and unlinking up to 511 items by hand with one repair of \<open>prev\<close> and \<open>tail\<close>
  at the end, give the same ring and a store that represents the resulting global queue.
\<close>

theorem global_queue_ptr_refines:
  assumes "gq_repr m q gq" "\<not> g_lock gq" "rq_inv pq"
  shows "(runqputslow pq task (runqhead pq) (runqtail pq) gq = Inr (True, pq1, gq1) \<and>
            (\<forall>t \<in> set (rq_list pq) \<union> {task}. item_owner (items m t) = Some t) \<and>
            distinct (g_tasks gq1) \<and> length (g_tasks gq1) < 2 ^ 32 \<longrightarrow>
          (\<exists>m'. runqputslow_ptr q pq task (runqhead pq) (runqtail pq) m = Inr (True, pq1, m') \<and>
              gq_repr m' q gq1)) \<and>
         (rq_list pq = [] \<and> gq_fetch pq gq = Inr (c, pq2, gq2) \<longrightarrow>
          (\<exists>m'. gq_fetch_ptr pq q m = Inr (c, pq2, m') \<and> gq_repr m' q gq2))"
  using runqputslow_ptr_refines [OF assms(1,2), of pq task "runqhead pq" "runqtail pq" pq1 gq1]
    gq_fetch_ptr_refines [OF assms, of c pq2 gq2] by auto

definition full_ring :: p_task_que where
  "full_ring = \<lparr>pq_prio = 2, runq = map (\<lambda>i. i + 1000) [0..<512], runqhead = 0, runqtail = 512\<rparr>"

definition task_store :: qmem where
  "task_store = \<lparr>items = (\<lambda>i. \<lparr>item_next = None, item_prev = None, item_que = None, item_owner = Some i\<rparr>),
     queues = (\<lambda>q. \<lparr>q_lock = False, q_head = Some 1, q_tail = Some 1, q_status = 1\<rparr>)\<rparr>"

lemma full_ring_list: "rq_inv full_ring" "rq_list full_ring = map (\<lambda>i. i + 1000) [0..<512]"
proof -
  have len: "rq_len full_ring = 512" by (simp add: full_ring_def rq_len_def)
  then show "rq_inv full_ring" by (simp add: rq_inv_def) (simp add: full_ring_def)
  show "rq_list full_ring = map (\<lambda>i. i + 1000) [0..<512]"
    using len slot_add [of 0] by (intro nth_equalityI) (simp_all add: rq_list_nth, simp add: full_ring_def)
qed

lemma full_ring_slow:
  "runqputslow full_ring 7 (runqhead full_ring) (runqtail full_ring) \<lparr>g_lock = False, g_tasks = [1]\<rparr> =
     Inr (True, full_ring\<lparr>runqhead := 256\<rparr>,
       \<lparr>g_lock = False, g_tasks = [1] @ map (\<lambda>i. i + 1000) [0..<256] @ [7]\<rparr>)"
proof -
  have "read_slots full_ring (runqhead full_ring) 256 = map (\<lambda>i. i + 1000) [0..<256]"
    using rq_list_advance(2) [of 256 full_ring] length_rq_list [of full_ring]
    by (simp add: full_ring_list(2) take_map)
  then show ?thesis by (simp add: runqputslow_def Let_def) (simp add: full_ring_def)
qed

theorem global_queue_ptr_refines_witness:
  "(\<exists>m'. runqputslow_ptr 0 full_ring 7 (runqhead full_ring) (runqtail full_ring) task_store =
      Inr (True, full_ring\<lparr>runqhead := 256\<rparr>, m')) \<and>
   (\<exists>pq' m'. gq_fetch_ptr (empty_ring 5) 0 task_store = Inr (Some 1, pq', m'))"
proof
  have r: "gq_repr task_store 0 \<lparr>g_lock = False, g_tasks = [1]\<rparr>"
    by (simp add: gq_repr_def queue_fwd_def task_store_def last_ptr_def)
  have "distinct ([1] @ map (\<lambda>i. i + 1000) [0..<256] @ [7 :: nat])" by (auto simp: distinct_map)
  then show "\<exists>m'. runqputslow_ptr 0 full_ring 7 (runqhead full_ring) (runqtail full_ring) task_store =
      Inr (True, full_ring\<lparr>runqhead := 256\<rparr>, m')"
    using global_queue_ptr_refines [OF r _ full_ring_list(1), of 7] full_ring_slow
    by (fastforce simp: task_store_def)
  obtain pq' gq' where "gq_fetch (empty_ring 5) \<lparr>g_lock = False, g_tasks = [1]\<rparr> = Inr (Some 1, pq', gq')"
    using gq_fetch_spec [OF empty_ring_list, of "\<lparr>g_lock = False, g_tasks = [1]\<rparr>" 1 "[]" 5] by auto
  then show "\<exists>pq' m'. gq_fetch_ptr (empty_ring 5) 0 task_store = Inr (Some 1, pq', m')"
    using global_queue_ptr_refines [OF r _ empty_ring_list(1), of 5] empty_ring_list(2) by fastforce
qed

end
