(* ===== verification/Refcnt.thy ===== *)
theory Refcnt
  imports Prelude
begin

text \<open>
  Reference counts (\<^verbatim>\<open>include/inter/refcnt.h\<close>). Every counted object starts with a \<open>coroc_refcnt\<close>, so
  it is named by the object's address. The store keeps the 32-bit count of each object and the sequence
  of release handlers that have run; what a handler frees is its own affair.
\<close>

section \<open>State and operations\<close>

record refmem =
  rc_count :: "addr \<Rightarrow> u32"
  rc_released :: "addr list"

definition refcnt_init :: "addr \<Rightarrow> refmem \<Rightarrow> refmem" where
  "refcnt_init r m = m\<lparr>rc_count := (rc_count m)(r := 1)\<rparr>"

definition refcnt_get :: "addr \<Rightarrow> refmem \<Rightarrow> refmem" where
  "refcnt_get r m = m\<lparr>rc_count := (rc_count m)(r := rc_count m r + 1)\<rparr>"

definition refcnt_put :: "ptr \<Rightarrow> refmem \<Rightarrow> bool \<times> refmem" where
  "refcnt_put ref m = (case ref of
       None \<Rightarrow> (False, m)
     | Some r \<Rightarrow>
         (let m = m\<lparr>rc_count := (rc_count m)(r := rc_count m r - 1)\<rparr> in
          if rc_count m r = 0 then (True, m\<lparr>rc_released := rc_released m @ [r]\<rparr>) else (False, m)))"

text \<open>
  \<open>*to\<close> is a pointer variable; the functions return its new value. \<open>assign\<close> takes a reference of its own,
  \<open>assign_expr\<close> takes over the one the expression already holds.
\<close>

definition refcnt_assign :: "ptr \<Rightarrow> ptr \<Rightarrow> refmem \<Rightarrow> ptr \<times> refmem" where
  "refcnt_assign to from m =
     (let m = snd (refcnt_put to m) in
      case from of None \<Rightarrow> (None, m) | Some f \<Rightarrow> (Some f, refcnt_get f m))"

definition refcnt_assign_expr :: "ptr \<Rightarrow> ptr \<Rightarrow> refmem \<Rightarrow> ptr \<times> refmem" where
  "refcnt_assign_expr to from m = (from, snd (refcnt_put to m))"

definition refcnt_put_array :: "ptr list \<Rightarrow> refmem \<Rightarrow> refmem" where
  "refcnt_put_array rs m = fold (\<lambda>r m. snd (refcnt_put r m)) rs m"

section \<open>Counting the holders\<close>

text \<open>
  The program's references as a multiset of objects: the counts agree with it when every live object's
  count is the number of references to it, and an object is released exactly when none is left.
\<close>

definition refs_ok :: "addr multiset \<Rightarrow> refmem \<Rightarrow> bool" where
  "refs_ok R m \<longleftrightarrow> (\<forall>r. count R r < 2 ^ 32 \<and> (0 < count R r \<longrightarrow>
     rc_count m r = of_nat (count R r) \<and> r \<notin> set (rc_released m))) \<and> distinct (rc_released m)"

lemma refs_okD:
  "refs_ok R m \<Longrightarrow> r \<in># R \<Longrightarrow> unat (rc_count m r) = count R r \<and> r \<notin> set (rc_released m)"
  by (auto simp: refs_ok_def)

lemma refs_ok_get:
  assumes "refs_ok R m" "r \<in># R" "Suc (count R r) < 2 ^ 32"
  shows "refs_ok (add_mset r R) (refcnt_get r m)"
  using assms by (auto simp: refs_ok_def refcnt_get_def)

lemma refs_ok_put:
  assumes ok: "refs_ok R m" and r: "r \<in># R"
  shows "refs_ok (R - {#r#}) (snd (refcnt_put (Some r) m)) \<and>
         fst (refcnt_put (Some r) m) = (count R r = 1) \<and>
         (r \<in> set (rc_released (snd (refcnt_put (Some r) m))) \<longleftrightarrow> r \<notin># R - {#r#})"
proof -
  have "0 < count R r" using r by simp
  then obtain n where n: "count R r = Suc n" using gr0_implies_Suc by blast
  from ok r have "count R r < 4294967296" "rc_count m r = of_nat (count R r)" and nr: "r \<notin> set (rc_released m)"
    by (auto simp: refs_ok_def)
  with n have nb: "Suc n < 4294967296" and c: "rc_count m r = of_nat (Suc n)" by simp_all
  have dec: "rc_count m r - 1 = of_nat n" using c by simp
  have z: "(of_nat n :: u32) = 0 \<longleftrightarrow> n = 0" using nb by simp
  have zero: "r \<notin># R - {#r#} \<longleftrightarrow> n = 0" using n by (simp add: not_in_iff)
  have "refs_ok (R - {#r#}) (snd (refcnt_put (Some r) m))"
    using ok n nb nr dec z unfolding refs_ok_def refcnt_put_def
    by (auto simp: Let_def)
  then show ?thesis using n nr dec z zero by (auto simp: refcnt_put_def Let_def)
qed


lemma refs_ok_assign:
  assumes ok: "refs_ok R m" and t: "to = None \<or> (\<exists>r. to = Some r \<and> r \<in># R)"
    and f: "from = None \<or> (\<exists>r. from = Some r \<and> r \<in># R - mset (opt_list to) \<and> Suc (count R r) < 2 ^ 32)"
  shows "fst (refcnt_assign to from m) = from \<and>
         refs_ok (R - mset (opt_list to) + mset (opt_list from)) (snd (refcnt_assign to from m))"
proof -
  have put: "refs_ok (R - mset (opt_list to)) (snd (refcnt_put to m))"
    using ok t refs_ok_put [OF ok] by (auto simp: refcnt_put_def)
  show ?thesis
  proof (cases "from")
    case (Some r)
    with f have r: "r \<in># R - mset (opt_list to)" and "Suc (count R r) < 2 ^ 32" by auto
    then have "Suc (count (R - mset (opt_list to)) r) < 2 ^ 32" by simp
    from refs_ok_get [OF put r this] Some show ?thesis by (simp add: refcnt_assign_def)
  qed (use put in \<open>simp add: refcnt_assign_def\<close>)
qed

section \<open>Properties\<close>

text \<open>
  Reference counting is exact: as long as the counts agree with the references the program holds,
  dropping one reference releases the object if and only if it was the last one, exactly once, and the
  counts agree with the remaining references; assigning a reference variable drops the old
  reference and adds the new one, provided another reference keeps the new object alive meanwhile.
\<close>

theorem refcnt_exact:
  assumes "refs_ok R m" "r \<in># R" "f \<in># R - {#r#}" "Suc (count R f) < 2 ^ 32"
  shows "fst (refcnt_put (Some r) m) = (count R r = 1) \<and>
         refs_ok (R - {#r#}) (snd (refcnt_put (Some r) m)) \<and>
         (r \<in> set (rc_released (snd (refcnt_put (Some r) m))) \<longleftrightarrow> r \<notin># R - {#r#}) \<and>
         fst (refcnt_assign (Some r) (Some f) m) = Some f \<and>
         refs_ok (R - {#r#} + {#f#}) (snd (refcnt_assign (Some r) (Some f) m))"
  using refs_ok_put [OF assms(1,2)] refs_ok_assign [OF assms(1), of "Some r" "Some f"] assms by simp

definition example_refs :: refmem where
  "example_refs = \<lparr>rc_count = (\<lambda>r. if r = 5 then 1 else if r = 6 then 2 else 0), rc_released = []\<rparr>"

theorem refcnt_exact_witness:
  "fst (refcnt_put (Some 5) example_refs) \<and> rc_released (snd (refcnt_put (Some 5) example_refs)) = [5] \<and>
   refs_ok {#6, 6, 6#} (snd (refcnt_assign (Some 5) (Some 6) example_refs))"
proof -
  have "refs_ok {#5, 6, 6#} example_refs" by (auto simp: refs_ok_def example_refs_def)
  from refcnt_exact [OF this, of 5 6] show ?thesis
    by (auto simp: refcnt_put_def example_refs_def)
qed

text \<open>
  \<open>__coroc_refcnt_assign\<close> drops the old reference before it takes the new one, so assigning a
  variable to itself when it holds the only reference runs the release handler of the object and then
  returns that object as the variable's value, with a count of one.
\<close>

theorem refcnt_self_assign_releases:
  assumes "rc_count m r = 1"
  shows "fst (refcnt_assign (Some r) (Some r) m) = Some r \<and>
         r \<in> set (rc_released (snd (refcnt_assign (Some r) (Some r) m))) \<and>
         rc_count (snd (refcnt_assign (Some r) (Some r) m)) r = 1"
  using assms by (simp add: refcnt_assign_def refcnt_put_def refcnt_get_def Let_def)

theorem refcnt_self_assign_releases_witness:
  "5 \<in> set (rc_released (snd (refcnt_assign (Some 5) (Some 5) example_refs)))"
  using refcnt_self_assign_releases [of example_refs 5] by (simp add: example_refs_def)

end
