(* ===== verification/Chan_Data.thy ===== *)
theory Chan_Data
  imports Refcnt
begin

text \<open>
  The data of channels (\<^verbatim>\<open>include/inter/channel.h\<close>, \<^verbatim>\<open>include/inter/message.h\<close>, \<^verbatim>\<open>src/channel.c\<close> lines 1 to
  92, \<^verbatim>\<open>src/message.c\<close> lines 11 to 57): channels and quanta as records, the ring buffer of a buffered channel,
  the message queue of a coroutine's own channel, and their initialisation.

  An element is copied as a whole, so a memory cell holds one element: the bytes of a plain element, a message
  descriptor, or a counted reference. The wait queues hold the addresses of quanta in queue order (theory
  \<open>Queue\<close> relates such lists to the linked items). The two copy handlers of a channel are either both absent,
  those of the ring buffer, or those of the message queue.
\<close>

section \<open>State\<close>

datatype elem =
    Raw "u8 list"
  | MsgE int ptr
  | RefE ptr

type_synonym memory = "addr \<Rightarrow> elem"

definition chan_memcpy :: "ptr \<Rightarrow> ptr \<Rightarrow> memory \<Rightarrow> memory" where
  "chan_memcpy dst src m = (case dst of None \<Rightarrow> m | Some d \<Rightarrow>
     (case src of None \<Rightarrow> m | Some s \<Rightarrow> m(d := m s)))"

datatype chan_handlers = NoHandlers | BuffHandlers | MqueHandlers

record chan =
  ch_close :: bool
  ch_select :: bool
  ch_isref :: bool
  ch_elemsize :: int
  recv_que :: "addr list"
  send_que :: "addr list"
  ch_handlers :: chan_handlers
  bufsize :: nat
  nbuf :: nat
  recvx :: nat
  sendx :: nat
  buf :: "elem list"
  mque :: "elem list"

record quantum =
  qm_close :: bool
  qm_select :: bool
  qm_chan :: addr
  qm_co :: addr
  qm_itembuf :: ptr

definition quantum_init :: "addr \<Rightarrow> addr \<Rightarrow> ptr \<Rightarrow> bool \<Rightarrow> quantum" where
  "quantum_init chan co b select =
     \<lparr>qm_close = False, qm_select = select, qm_chan = chan, qm_co = co, qm_itembuf = b\<rparr>"

section \<open>The ring buffer\<close>

definition copy_to_buff :: "chan \<Rightarrow> ptr \<Rightarrow> memory \<Rightarrow> bool \<times> chan" where
  "copy_to_buff ch src m =
     (if nbuf ch < bufsize ch
      then (True, ch\<lparr>buf := (case src of None \<Rightarrow> buf ch | Some s \<Rightarrow> (buf ch)[sendx ch := m s]),
                     sendx := Suc (sendx ch) mod bufsize ch, nbuf := Suc (nbuf ch)\<rparr>)
      else (False, ch))"

definition copy_from_buff :: "chan \<Rightarrow> ptr \<Rightarrow> memory \<Rightarrow> bool \<times> chan \<times> memory" where
  "copy_from_buff ch dst m =
     (if 0 < nbuf ch
      then (True, ch\<lparr>recvx := Suc (recvx ch) mod bufsize ch, nbuf := nbuf ch - 1\<rparr>,
            (case dst of None \<Rightarrow> m | Some d \<Rightarrow> m(d := buf ch ! recvx ch)))
      else (False, ch, m))"

text \<open>Dropping the references left in the buffer of a closed channel, oldest first.\<close>

function clean_buff :: "chan \<Rightarrow> refmem \<Rightarrow> c_err + (chan \<times> refmem)" where
  "clean_buff ch m =
     (if nbuf ch = 0 then Inr (ch, m)
      else (case buf ch ! recvx ch of
          RefE r \<Rightarrow> clean_buff (ch\<lparr>recvx := Suc (recvx ch) mod bufsize ch, nbuf := nbuf ch - 1\<rparr>)
                     (snd (refcnt_put r m))
        | _ \<Rightarrow> Inl BadPointer))"
  by pat_completeness auto
termination
  by (relation "measure (\<lambda>(ch, m). nbuf ch)") auto

declare clean_buff.simps [simp del]

section \<open>The message queue\<close>

definition copy_to_mque :: "chan \<Rightarrow> ptr \<Rightarrow> memory \<Rightarrow> c_err + (bool \<times> chan)" where
  "copy_to_mque ch src m = (case src of
       None \<Rightarrow> Inl NullDeref
     | Some s \<Rightarrow> Inr (True, ch\<lparr>mque := mque ch @ [m s]\<rparr>))"

definition copy_from_mque :: "chan \<Rightarrow> ptr \<Rightarrow> memory \<Rightarrow> bool \<times> chan \<times> memory" where
  "copy_from_mque ch dst m = (case mque ch of
       [] \<Rightarrow> (False, ch, m)
     | x # xs \<Rightarrow> (True, ch\<lparr>mque := xs\<rparr>, (case dst of None \<Rightarrow> m | Some d \<Rightarrow> m(d := x))))"

section \<open>Initialisation\<close>

definition blank_chan :: chan where
  "blank_chan = \<lparr>ch_close = False, ch_select = False, ch_isref = False, ch_elemsize = 0,
     recv_que = [], send_que = [], ch_handlers = NoHandlers, bufsize = 0, nbuf = 0,
     recvx = 0, sendx = 0, buf = [], mque = []\<rparr>"

definition chan_init :: "chan \<Rightarrow> int \<Rightarrow> bool \<Rightarrow> chan_handlers \<Rightarrow> chan" where
  "chan_init ch elemsize isref h =
     ch\<lparr>ch_close := False, ch_select := False, ch_isref := isref, ch_elemsize := elemsize,
        ch_handlers := h, recv_que := [], send_que := []\<rparr>"

definition buffered_chan_init :: "chan \<Rightarrow> int \<Rightarrow> nat \<Rightarrow> bool \<Rightarrow> elem list \<Rightarrow> chan" where
  "buffered_chan_init ch elemsize bsize isref store =
     (chan_init ch elemsize isref BuffHandlers)
       \<lparr>bufsize := bsize, buf := store, nbuf := 0, recvx := 0, sendx := 0\<rparr>"

text \<open>
  The freshly allocated buffer has room for \<open>bufsize\<close> elements of unspecified content (\<open>store\<close>). A channel
  without a buffer never handles references.
\<close>

definition chan_allocate :: "int \<Rightarrow> int \<Rightarrow> bool \<Rightarrow> elem list \<Rightarrow> chan" where
  "chan_allocate elemsize bsize isref store =
     (let isref' = (0 < bsize \<and> isref) in
      if 0 < bsize then buffered_chan_init blank_chan elemsize (nat bsize) isref' (take (nat bsize) store)
      else chan_init blank_chan elemsize isref' NoHandlers)"

text \<open>\<open>sizeof(struct coroc_msg)\<close> on the 64-bit platforms.\<close>

definition async_chan_init :: "chan \<Rightarrow> chan" where
  "async_chan_init ch = (chan_init ch 16 False MqueHandlers)\<lparr>mque := []\<rparr>"

definition async_chan_fini :: "chan \<Rightarrow> chan" where
  "async_chan_fini ch = ch\<lparr>mque := [], ch_close := True\<rparr>"

section \<open>What a channel stores\<close>

definition buf_inv :: "chan \<Rightarrow> bool" where
  "buf_inv ch \<longleftrightarrow> 0 < bufsize ch \<and> length (buf ch) = bufsize ch \<and> recvx ch < bufsize ch \<and>
     nbuf ch \<le> bufsize ch \<and> sendx ch = (recvx ch + nbuf ch) mod bufsize ch"

definition buf_list :: "chan \<Rightarrow> elem list" where
  "buf_list ch = map (\<lambda>i. buf ch ! ((recvx ch + i) mod bufsize ch)) [0..<nbuf ch]"

lemma mod_add_inj:
  assumes "(a + i) mod n = (a + j) mod n" "i < n" "j < (n::nat)"
  shows "i = j"
proof (cases "i \<le> j")
  case True
  then obtain q where "a + j = a + i + n * q"
    using assms(1) mod_eq_nat1E [of "a + j" n "a + i"] by auto
  with assms show ?thesis by (cases q) auto
next
  case False
  then obtain q where "a + i = a + j + n * q"
    using assms(1) mod_eq_nat1E [of "a + i" n "a + j"] by auto
  with assms show ?thesis by (cases q) auto
qed

lemma length_buf_list [simp]: "length (buf_list ch) = nbuf ch"
  by (simp add: buf_list_def)

lemma copy_to_buff_list:
  assumes "buf_inv ch" "nbuf ch < bufsize ch"
  shows "\<exists>ch'. copy_to_buff ch (Some s) m = (True, ch') \<and> buf_inv ch' \<and> buf_list ch' = buf_list ch @ [m s]"
proof -
  let ?ch = "ch\<lparr>buf := (buf ch)[sendx ch := m s], sendx := Suc (sendx ch) mod bufsize ch, nbuf := Suc (nbuf ch)\<rparr>"
  have "buf_list ?ch = buf_list ch @ [m s]"
  proof (rule nth_equalityI)
    fix i
    assume "i < length (buf_list ?ch)"
    then have i: "i \<le> nbuf ch" by simp
    have nth: "buf_list ?ch ! i = (buf ch)[sendx ch := m s] ! ((recvx ch + i) mod bufsize ch)"
      using i by (simp add: buf_list_def del: upt_Suc)
    have sx: "sendx ch = (recvx ch + nbuf ch) mod bufsize ch" "sendx ch < length (buf ch)"
      using assms by (simp_all add: buf_inv_def)
    show "buf_list ?ch ! i = (buf_list ch @ [m s]) ! i"
    proof (cases "i = nbuf ch")
      case True
      with nth sx show ?thesis by (simp add: nth_append)
    next
      case False
      then have "(recvx ch + i) mod bufsize ch \<noteq> sendx ch"
        using assms(2) i sx(1) mod_add_inj [of "recvx ch" i "bufsize ch" "nbuf ch"] by fastforce
      with False nth i show ?thesis by (simp add: nth_append buf_list_def)
    qed
  qed simp
  moreover have "buf_inv ?ch" using assms by (simp add: buf_inv_def mod_Suc_eq)
  ultimately show ?thesis using assms by (simp add: copy_to_buff_def)
qed

lemma copy_from_buff_list:
  assumes "buf_inv ch" "buf_list ch = x # xs"
  shows "\<exists>ch'. copy_from_buff ch dst m = (True, ch', (case dst of None \<Rightarrow> m | Some d \<Rightarrow> m(d := x))) \<and>
           buf_inv ch' \<and> buf_list ch' = xs \<and> buf ch ! recvx ch = x \<and>
           ch' = ch\<lparr>recvx := Suc (recvx ch) mod bufsize ch, nbuf := nbuf ch - 1\<rparr>"
proof -
  from assms(2) obtain n where n: "nbuf ch = Suc n" by (metis length_buf_list length_Suc_conv)
  let ?ch = "ch\<lparr>recvx := Suc (recvx ch) mod bufsize ch, nbuf := nbuf ch - 1\<rparr>"
  have "buf_list ch = buf ch ! (recvx ch mod bufsize ch) # buf_list ?ch"
    by (simp add: buf_list_def n upt_conv_Cons map_Suc_upt [symmetric] mod_simps comp_def del: upt_Suc)
  moreover have "recvx ch mod bufsize ch = recvx ch" using assms by (simp add: buf_inv_def)
  moreover have "buf_inv ?ch"
    using assms(1) n by (auto simp: buf_inv_def mod_simps)
  ultimately show ?thesis using assms n by (auto simp: copy_from_buff_def)
qed

primrec elem_ref :: "elem \<Rightarrow> ptr" where
  "elem_ref (RefE r) = r"
| "elem_ref (Raw bs) = None"
| "elem_ref (MsgE n p) = None"

lemma clean_buff_drops:
  assumes "buf_inv ch" "\<forall>x \<in> set (buf_list ch). \<exists>r. x = RefE r"
  shows "\<exists>ch'. clean_buff ch m = Inr (ch', refcnt_put_array (map elem_ref (buf_list ch)) m) \<and>
           buf_inv ch' \<and> buf_list ch' = [] \<and> recv_que ch' = recv_que ch \<and> send_que ch' = send_que ch \<and>
           ch_close ch' = ch_close ch \<and> ch_handlers ch' = ch_handlers ch \<and> ch_isref ch' = ch_isref ch"
  using assms
proof (induction "buf_list ch" arbitrary: ch m)
  case Nil
  then have "nbuf ch = 0" by (metis length_buf_list list.size(3))
  with Nil show ?case by (simp add: clean_buff.simps [of ch] refcnt_put_array_def)
next
  case (Cons x xs)
  let ?ch = "ch\<lparr>recvx := Suc (recvx ch) mod bufsize ch, nbuf := nbuf ch - 1\<rparr>"
  have nb: "nbuf ch \<noteq> 0" using arg_cong [OF Cons.hyps(2), of length] by simp
  have step: "buf_inv ?ch" "buf_list ?ch = xs" "buf ch ! recvx ch = x"
    using copy_from_buff_list [OF Cons.prems(1) Cons.hyps(2) [symmetric]] by auto
  obtain r where r: "x = RefE r" using Cons.prems(2) Cons.hyps(2) by (metis list.set_intros(1))
  from Cons.hyps(1) [of ?ch "snd (refcnt_put r m)"] step Cons.prems(2) Cons.hyps(2) [symmetric]
  show ?case using nb step r
    by (simp add: clean_buff.simps [of ch] refcnt_put_array_def)
qed

section \<open>The interface the channel operations use\<close>

definition copy_to :: "chan \<Rightarrow> ptr \<Rightarrow> memory \<Rightarrow> c_err + (bool \<times> chan)" where
  "copy_to ch src m = (case ch_handlers ch of
       NoHandlers \<Rightarrow> Inr (False, ch)
     | BuffHandlers \<Rightarrow> Inr (copy_to_buff ch src m)
     | MqueHandlers \<Rightarrow> copy_to_mque ch src m)"

definition copy_from :: "chan \<Rightarrow> ptr \<Rightarrow> memory \<Rightarrow> bool \<times> chan \<times> memory" where
  "copy_from ch dst m = (case ch_handlers ch of
       NoHandlers \<Rightarrow> (False, ch, m)
     | BuffHandlers \<Rightarrow> copy_from_buff ch dst m
     | MqueHandlers \<Rightarrow> copy_from_mque ch dst m)"

definition contents :: "chan \<Rightarrow> elem list" where
  "contents ch = (case ch_handlers ch of
       NoHandlers \<Rightarrow> [] | BuffHandlers \<Rightarrow> buf_list ch | MqueHandlers \<Rightarrow> mque ch)"

text \<open>How many elements a channel can store; a message queue has no limit.\<close>

definition has_room :: "chan \<Rightarrow> bool" where
  "has_room ch = (case ch_handlers ch of
       NoHandlers \<Rightarrow> False | BuffHandlers \<Rightarrow> nbuf ch < bufsize ch | MqueHandlers \<Rightarrow> True)"

definition store_inv :: "chan \<Rightarrow> bool" where
  "store_inv ch \<longleftrightarrow> (ch_handlers ch = BuffHandlers \<longrightarrow> buf_inv ch)"

text \<open>Everything of a channel but its store.\<close>

definition same_waiters :: "chan \<Rightarrow> chan \<Rightarrow> bool" where
  "same_waiters ch ch' \<longleftrightarrow> recv_que ch' = recv_que ch \<and> send_que ch' = send_que ch \<and>
     ch_close ch' = ch_close ch \<and> ch_select ch' = ch_select ch \<and> ch_isref ch' = ch_isref ch \<and>
     ch_handlers ch' = ch_handlers ch \<and> bufsize ch' = bufsize ch"

locale elem_store =
  fixes inv :: "'c \<Rightarrow> bool"
    and held :: "'c \<Rightarrow> 'e list"
    and room :: "'c \<Rightarrow> bool"
    and frame :: "'c \<Rightarrow> 'c \<Rightarrow> bool"
    and put :: "'c \<Rightarrow> 'a option \<Rightarrow> ('a \<Rightarrow> 'e) \<Rightarrow> 'err + (bool \<times> 'c)"
    and take :: "'c \<Rightarrow> 'a option \<Rightarrow> ('a \<Rightarrow> 'e) \<Rightarrow> bool \<times> 'c \<times> ('a \<Rightarrow> 'e)"
  assumes put_room: "inv c \<Longrightarrow> room c \<Longrightarrow>
      \<exists>c'. put c (Some s) m = Inr (True, c') \<and> inv c' \<and> held c' = held c @ [m s] \<and> frame c c'"
    and put_full: "inv c \<Longrightarrow> \<not> room c \<Longrightarrow> put c src m = Inr (False, c)"
    and take_nil: "inv c \<Longrightarrow> held c = [] \<Longrightarrow> take c dst m = (False, c, m)"
    and take_cons: "inv c \<Longrightarrow> held c = x # xs \<Longrightarrow>
      \<exists>c'. take c dst m = (True, c', (case dst of None \<Rightarrow> m | Some d \<Rightarrow> m(d := x))) \<and>
        inv c' \<and> held c' = xs \<and> frame c c'"
    and frame_trans: "frame a b \<Longrightarrow> frame b c \<Longrightarrow> frame a c"
begin

lemma put_then_take:
  assumes "inv c" "held c = []" "room c"
  shows "\<exists>c1 c2. put c (Some s) m = Inr (True, c1) \<and> take c1 (Some d) m = (True, c2, m(d := m s)) \<and>
           inv c2 \<and> held c2 = [] \<and> frame c c2"
proof -
  from put_room [OF assms(1,3), of s m] obtain c1 where c1: "put c (Some s) m = Inr (True, c1)" "inv c1"
    "held c1 = [m s]" "frame c c1" using assms(2) by auto
  from take_cons [OF c1(2,3), of "Some d" m] frame_trans [OF c1(4)] c1(1) show ?thesis by auto
qed

end

interpretation store: elem_store store_inv contents has_room same_waiters copy_to copy_from
proof
  fix c :: chan and s :: addr and m :: memory and src dst :: ptr and x xs
  show "\<exists>c'. copy_to c (Some s) m = Inr (True, c') \<and> store_inv c' \<and> contents c' = contents c @ [m s] \<and>
      same_waiters c c'" if "store_inv c" "has_room c"
  proof (cases "ch_handlers c")
    case BuffHandlers
    with that copy_to_buff_list [of c s m] show ?thesis
      by (auto simp: store_inv_def has_room_def copy_to_def contents_def same_waiters_def copy_to_buff_def)
  qed (use that in \<open>auto simp: store_inv_def has_room_def copy_to_def contents_def same_waiters_def
      copy_to_mque_def\<close>)
  show "copy_to c src m = Inr (False, c)" if "store_inv c" "\<not> has_room c"
    using that by (auto simp: has_room_def copy_to_def copy_to_buff_def split: chan_handlers.splits)
  show "copy_from c dst m = (False, c, m)" if "store_inv c" "contents c = []"
    using that length_buf_list [of c]
    by (auto simp: contents_def copy_from_def copy_from_buff_def copy_from_mque_def
        simp del: length_buf_list split: chan_handlers.splits list.splits)
  show "\<exists>c'. copy_from c dst m = (True, c', (case dst of None \<Rightarrow> m | Some d \<Rightarrow> m(d := x))) \<and>
      store_inv c' \<and> contents c' = xs \<and> same_waiters c c'" if "store_inv c" "contents c = x # xs"
  proof (cases "ch_handlers c")
    case BuffHandlers
    with that copy_from_buff_list [of c x xs dst m] show ?thesis
      by (auto simp: store_inv_def copy_from_def contents_def same_waiters_def)
  qed (use that in \<open>auto simp: store_inv_def copy_from_def contents_def same_waiters_def
      copy_from_mque_def\<close>)
qed (auto simp: same_waiters_def)

lemma chan_allocate_fresh:
  assumes "bsize \<le> 0 \<or> length st = nat bsize"
  shows "store_inv (chan_allocate es bsize isref st)" "contents (chan_allocate es bsize isref st) = []"
    "has_room (chan_allocate es bsize isref st) \<longleftrightarrow> 0 < bsize"
    "recv_que (chan_allocate es bsize isref st) = []" "send_que (chan_allocate es bsize isref st) = []"
    "\<not> ch_close (chan_allocate es bsize isref st)"
    "ch_isref (chan_allocate es bsize isref st) \<longleftrightarrow> isref \<and> 0 < bsize"
  using assms
  by (auto simp: chan_allocate_def buffered_chan_init_def chan_init_def blank_chan_def store_inv_def
      buf_inv_def contents_def buf_list_def has_room_def Let_def)

end
