(* ===== verification/Vpu.thy ===== *)
theory Vpu
  imports Runq Chan_Data
begin

text \<open>
  The state of the runtime and the scheduler operations that coroutines and helper threads call
  (\<^verbatim>\<open>src/vpu.c\<close>, \<^verbatim>\<open>src/coroutine.c\<close>, \<^verbatim>\<open>include/inter/vpu.h\<close>, \<^verbatim>\<open>include/inter/coroutine.h\<close>).

  One record holds the VPU manager, the VPUs, the coroutines and what the other components keep (channels,
  quanta, memory cells, reference counts, poll descriptors, locks). An operation takes the index of the VPU it
  runs on (\<open>None\<close> for the threads that are no VPU) and returns the new state or an error. \<open>vpu_syscall\<close> saves
  the caller's context and continues on the scheduler's stack with a core function, so its model ends
  in the state after that function, with the VPU in its scheduler; the next step is a pass of
  \<open>core_sched\<close> (theory \<open>Core_Sched\<close>). Signals, stacks and saved contexts are not state of the model.
\<close>

section \<open>State\<close>

definition TSC_PRIO_NUM :: nat where
  [simp]: "TSC_PRIO_NUM = 4"

datatype co_status = SLEEP | READY | RUNNING | WAIT | IOWAIT | EXIT

datatype co_type = IDLE | NORMAL | MAIN

record coroutine =
  co_id :: u32
  co_type :: co_type
  co_vpu_id :: u8
  co_affinity :: u8
  co_async_wait :: bool
  co_status :: co_status
  co_prio :: nat
  co_syscall :: bool
  co_backtrace :: bool
  co_qtag :: ptr
  co_stack :: bool
  co_entry :: ptr
  co_arguments :: ptr
  co_cleanup :: ptr

record vpu =
  vpu_ident :: nat
  vpu_initialized :: bool
  watchdog :: u32
  ticks :: u32
  rand_seed :: u32
  current :: ptr
  scheduler :: ptr
  xt :: "nat \<Rightarrow> p_task_que"
  hold :: "addr list option"

record poll_desc =
  pd_done :: bool
  pd_fd :: int
  pd_mode :: u32
  pd_id :: nat
  pd_wait :: ptr

record sys =
  vpus :: "nat \<Rightarrow> vpu"
  gxt :: "nat \<Rightarrow> gqueue"
  ready :: "nat \<Rightarrow> u32"
  xt_index :: nat
  last_pid :: u32
  main_co :: ptr
  coroutine_list :: "addr list"
  alive :: u16
  idle :: u16
  total_ready :: u32
  total_iowait :: u32
  cond_signals :: nat
  exited :: bool
  cos :: "addr \<Rightarrow> coroutine"
  locks :: "addr \<Rightarrow> bool"
  chans :: "addr \<Rightarrow> chan"
  quanta :: "addr \<Rightarrow> quantum"
  mem :: memory
  rmem :: refmem
  descs :: "addr \<Rightarrow> poll_desc"
  num_op :: int

definition upd_co :: "addr \<Rightarrow> (coroutine \<Rightarrow> coroutine) \<Rightarrow> sys \<Rightarrow> sys" where
  [sched_simps]: "upd_co t f s = s\<lparr>cos := (cos s)(t := f (cos s t))\<rparr>"

definition upd_vpu :: "nat \<Rightarrow> (vpu \<Rightarrow> vpu) \<Rightarrow> sys \<Rightarrow> sys" where
  [sched_simps]: "upd_vpu v f s = s\<lparr>vpus := (vpus s)(v := f (vpus s v))\<rparr>"

definition set_xt :: "nat \<Rightarrow> nat \<Rightarrow> p_task_que \<Rightarrow> sys \<Rightarrow> sys" where
  [sched_simps]: "set_xt v p q s = upd_vpu v (\<lambda>r. r\<lparr>xt := (xt r)(p := q)\<rparr>) s"

definition set_gxt :: "nat \<Rightarrow> gqueue \<Rightarrow> sys \<Rightarrow> sys" where
  [sched_simps]: "set_gxt p g s = s\<lparr>gxt := (gxt s)(p := g)\<rparr>"

definition inc_ready :: "nat \<Rightarrow> sys \<Rightarrow> sys" where
  [sched_simps]: "inc_ready p s =
     s\<lparr>total_ready := total_ready s + 1, ready := (ready s)(p := ready s p + 1)\<rparr>"

definition dec_ready :: "nat \<Rightarrow> sys \<Rightarrow> sys" where
  [sched_simps]: "dec_ready p s =
     s\<lparr>total_ready := total_ready s - 1, ready := (ready s)(p := ready s p - 1)\<rparr>"

section \<open>Locks of channels and descriptors\<close>

text \<open>
  A thread that finds a lock held waits for it. In a sequential step the holder can only be the thread itself or a
  coroutine that is not running, so the wait is reported as \<open>SelfDeadlock\<close>.
\<close>

definition lock_acquire_at :: "addr \<Rightarrow> sys \<Rightarrow> c_err + sys" where
  "lock_acquire_at l s = (if locks s l then Inl SelfDeadlock else Inr (s\<lparr>locks := (locks s)(l := True)\<rparr>))"

definition lock_release_at :: "addr \<Rightarrow> sys \<Rightarrow> sys" where
  "lock_release_at l s = s\<lparr>locks := (locks s)(l := False)\<rparr>"

section \<open>The random number generator of the thieves\<close>

definition RNGMOD :: u64 where "RNGMOD = push_bit 32 1 - 5"

definition RNGMUL :: u64 where "RNGMUL = 69070"

definition myrand :: "nat \<Rightarrow> sys \<Rightarrow> u32 \<times> sys" where
  "myrand v s =
     (let state = rand_seed (vpus s v);
          state = ucast ((RNGMUL * ucast state) mod RNGMOD) in
      (state, upd_vpu v (\<lambda>r. r\<lparr>rand_seed := state\<rparr>) s))"

definition mysrand :: "nat \<Rightarrow> u32 \<Rightarrow> sys \<Rightarrow> sys" where
  "mysrand v seed s =
     (let seed = seed mod ucast RNGMOD;
          seed = seed + (if seed = 0 then 1 else 0) in
      upd_vpu v (\<lambda>r. r\<lparr>rand_seed := seed\<rparr>) s)"

section \<open>Waking sleeping VPU threads\<close>

definition vpu_wakeup_one :: "sys \<Rightarrow> sys" where
  "vpu_wakeup_one s =
     (if alive s = 0 \<or> (unat (alive s) < xt_index s \<and> idle s = 0 \<and>
           unat (total_ready s) > 2 * unat (alive s))
      then s\<lparr>cond_signals := Suc (cond_signals s)\<rparr> else s)"

section \<open>Core functions, run on the scheduler's stack\<close>

text \<open>Releasing what the VPU holds for the coroutine that went to sleep (the unlock handler).\<close>

definition release_locks :: "addr list \<Rightarrow> sys \<Rightarrow> sys" where
  "release_locks ls s = fold (\<lambda>l s. s\<lparr>locks := (locks s)(l := False)\<rparr>) (rev ls) s"

definition core_wait :: "nat \<Rightarrow> addr \<Rightarrow> sys \<Rightarrow> c_err + sys" where
  "core_wait v t s =
     (let s = upd_co t (\<lambda>c. c\<lparr>co_status := WAIT\<rparr>) s;
          s = (if co_async_wait (cos s t) then s\<lparr>total_iowait := total_iowait s + 1\<rparr> else s) in
      case hold (vpus s v) of
        None \<Rightarrow> Inr s
      | Some ls \<Rightarrow> Inr (upd_vpu v (\<lambda>r. r\<lparr>hold := None\<rparr>) (release_locks ls s)))"

definition core_yield :: "nat \<Rightarrow> addr \<Rightarrow> sys \<Rightarrow> c_err + sys" where
  "core_yield v t s =
     (let s = upd_co t (\<lambda>c. c\<lparr>co_status := READY\<rparr>) s;
          p = co_prio (cos s t); g = gxt s p in
      if g_lock g then Inl SelfDeadlock
      else Inr (inc_ready p (set_gxt p (g\<lparr>g_tasks := g_tasks g @ [t]\<rparr>) s)))"

definition coroutine_deallocate :: "addr \<Rightarrow> sys \<Rightarrow> c_err + sys" where
  "coroutine_deallocate t s =
     (if co_status (cos s t) \<noteq> RUNNING then Inl AssertFail
      else
        (let s = upd_co t (\<lambda>c. c\<lparr>co_status := EXIT\<rparr>) s;
             s = s\<lparr>coroutine_list := removeAll t (coroutine_list s)\<rparr>;
             s = upd_co t (\<lambda>c. c\<lparr>co_stack := False\<rparr>) s;
             s = s\<lparr>chans := (chans s)(t := async_chan_fini (chans s t))\<rparr> in
         Inr (s\<lparr>rmem := snd (refcnt_put (Some t) (rmem s))\<rparr>)))"

definition core_exit :: "nat \<Rightarrow> addr \<Rightarrow> sys \<Rightarrow> c_err + sys" where
  "core_exit v t s =
     (if co_type (cos s t) = MAIN then Inr (s\<lparr>exited := True\<rparr>) else coroutine_deallocate t s)"

section \<open>Entering the scheduler\<close>

definition vpu_syscall :: "(nat \<Rightarrow> addr \<Rightarrow> sys \<Rightarrow> c_err + sys) \<Rightarrow> nat \<Rightarrow> sys \<Rightarrow> c_err + sys" where
  "vpu_syscall pfn v s = (case current (vpus s v) of
       None \<Rightarrow> Inl AssertFail
     | Some self \<Rightarrow>
         (case scheduler (vpus s v) of
            None \<Rightarrow> Inl NullDeref
          | Some sch \<Rightarrow>
              (let s = upd_co self (\<lambda>c. c\<lparr>co_syscall := True\<rparr>) s;
                   s = upd_co sch (\<lambda>c. c\<lparr>co_arguments := Some self\<rparr>) s;
                   s = upd_vpu v (\<lambda>r. r\<lparr>current := Some sch\<rparr>) s
               in pfn v self s)))"

definition vpu_suspend :: "addr list \<Rightarrow> nat \<Rightarrow> sys \<Rightarrow> c_err + sys" where
  "vpu_suspend ls v s = vpu_syscall core_wait v (upd_vpu v (\<lambda>r. r\<lparr>hold := Some ls\<rparr>) s)"

definition coroutine_yield :: "nat \<Rightarrow> sys \<Rightarrow> c_err + sys" where
  "coroutine_yield v s = vpu_syscall core_yield v s"

text \<open>
  \<open>self->cleanup(self->arguments, value)\<close> is a callback of the program; \<open>cleanup\<close> is what it does to the state.
\<close>

definition coroutine_exit :: "(addr \<Rightarrow> sys \<Rightarrow> c_err + sys) \<Rightarrow> nat \<Rightarrow> sys \<Rightarrow> c_err + sys" where
  "coroutine_exit cleanup v s = (case current (vpus s v) of
       None \<Rightarrow> Inl AssertFail
     | Some self \<Rightarrow>
         if co_status (cos s self) \<noteq> RUNNING then Inl AssertFail
         else andthen (if co_cleanup (cos s self) \<noteq> None then cleanup self s else Inr s)
           (vpu_syscall core_exit v))"

text \<open>A coroutine that was resumed only to print its stack trace leaves without its cleanup callback.\<close>

definition coroutine_backtrace :: "nat \<Rightarrow> sys \<Rightarrow> c_err + sys" where
  "coroutine_backtrace v s = vpu_syscall core_exit v s"

definition coroutine_self :: "nat option \<Rightarrow> sys \<Rightarrow> ptr" where
  "coroutine_self v s = (case v of None \<Rightarrow> None | Some i \<Rightarrow> current (vpus s i))"

definition coroutine_set_priority :: "nat \<Rightarrow> nat \<Rightarrow> sys \<Rightarrow> c_err + sys" where
  "coroutine_set_priority p v s =
     (if \<not> p < TSC_PRIO_NUM then Inl AssertFail
      else (case coroutine_self (Some v) s of
          None \<Rightarrow> Inl NullDeref
        | Some me \<Rightarrow> Inr (upd_co me (\<lambda>c. c\<lparr>co_prio := p\<rparr>) s)))"

definition vpu_clock_handler :: "nat \<Rightarrow> sys \<Rightarrow> c_err + sys" where
  "vpu_clock_handler v s =
     (let s = upd_vpu v (\<lambda>r. r\<lparr>ticks := ticks r + 1\<rparr>) s in
      if current (vpus s v) = scheduler (vpus s v) then Inl AssertFail
      else
        (let s = upd_vpu v (\<lambda>r. r\<lparr>watchdog := watchdog r + 1\<rparr>) s in
         if watchdog (vpus s v) > 5 then vpu_syscall core_yield v s else Inr s))"

section \<open>Making a coroutine runnable\<close>

text \<open>The queue \<open>vpu_ready\<close> puts a task in, by a VPU or by another thread.\<close>

definition enqueue :: "nat option \<Rightarrow> tid \<Rightarrow> nat \<Rightarrow> sys \<Rightarrow> c_err + sys" where
  "enqueue vo t p s = (case vo of
      Some v \<Rightarrow> andthen (runqput (xt (vpus s v) p) t (gxt s p))
        (\<lambda>(q, g). Inr (set_gxt p g (set_xt v p q s)))
    | None \<Rightarrow>
        if g_lock (gxt s p) then Inl SelfDeadlock
        else Inr (set_gxt p ((gxt s p)\<lparr>g_tasks := g_tasks (gxt s p) @ [t]\<rparr>) s))"

definition vpu_ready :: "nat option \<Rightarrow> addr \<Rightarrow> bool \<Rightarrow> sys \<Rightarrow> c_err + sys" where
  "vpu_ready vo t preempt s =
     (if co_status (cos s t) \<noteq> WAIT then Inl AssertFail
      else
        (let s = upd_co t (\<lambda>c. c\<lparr>co_status := READY\<rparr>) s; p = co_prio (cos s t) in
         andthen (enqueue vo t p s)
           (\<lambda>s.
              let s = inc_ready p s;
                  s = (if co_async_wait (cos s t) then s\<lparr>total_iowait := total_iowait s - 1\<rparr> else s) in
              case vo of
                None \<Rightarrow> Inr (vpu_wakeup_one s)
              | Some v \<Rightarrow>
                  (case current (vpus s v) of
                     None \<Rightarrow> if preempt then Inl NullDeref else Inr (vpu_wakeup_one s)
                   | Some c \<Rightarrow>
                       if preempt \<and> co_prio (cos s c) > co_prio (cos s t) \<and> unat (alive s) = xt_index s
                       then coroutine_yield v s else Inr (vpu_wakeup_one s)))))"

section \<open>Creating coroutines\<close>

definition alloc_tid :: "sys \<Rightarrow> u32 \<times> sys" where
  "alloc_tid s = (last_pid s + 1, s\<lparr>last_pid := last_pid s + 1\<rparr>)"

text \<open>
  \<open>t\<close> is the address the allocator returns. The memory is zeroed, so \<open>qtag\<close>, the VPU number and the
  \<open>backtrace\<close> flag start at zero.
\<close>

definition coroutine_allocate ::
    "addr \<Rightarrow> ptr \<Rightarrow> ptr \<Rightarrow> co_type \<Rightarrow> nat \<Rightarrow> ptr \<Rightarrow> nat option \<Rightarrow> sys \<Rightarrow> c_err + sys" where
  "coroutine_allocate t entry args ty prio cleanup vo s =
     (if \<not> prio < TSC_PRIO_NUM then Inl AssertFail
      else
        (let s = s\<lparr>chans := (chans s)(t := async_chan_init blank_chan), rmem := refcnt_init t (rmem s)\<rparr>;
             (tid, s) = alloc_tid s;
             s = upd_co t (\<lambda>_. \<lparr>co_id = tid, co_type = ty, co_vpu_id = 0, co_affinity = of_nat (xt_index s),
                   co_async_wait = False, co_status = WAIT,
                   co_prio = (if ty = IDLE then TSC_PRIO_NUM else prio), co_syscall = False,
                   co_backtrace = False, co_qtag = None, co_stack = (ty \<noteq> IDLE), co_entry = entry,
                   co_arguments = args, co_cleanup = cleanup\<rparr>) s in
         if ty \<noteq> IDLE
         then
           (let s = s\<lparr>coroutine_list := coroutine_list s @ [t]\<rparr>;
                s = (if ty = MAIN then s\<lparr>main_co := Some t\<rparr> else s)
            in vpu_ready vo t True s)
         else Inr s))"

section \<open>The invariant of the scheduler\<close>

text \<open>
  The contract of the scheduler, on the parts of the state a client can observe: \<open>Q p\<close> the tasks in the run
  queues of priority \<open>p\<close>, their status, priority and type, the two kinds of counters, and the task each VPU runs
  (\<open>None\<close> while the VPU is in its scheduler). A task is queued exactly once, in the queue of its priority, iff
  it is ready; the counters are the sizes of the queues; a task is running iff exactly one VPU runs it.
\<close>

definition once_queued :: "(nat \<Rightarrow> tid multiset) \<Rightarrow> (tid \<Rightarrow> co_status) \<Rightarrow> (tid \<Rightarrow> nat) \<Rightarrow> bool" where
  "once_queued Q st pr \<longleftrightarrow>
     (\<forall>p<TSC_PRIO_NUM. \<forall>t. count (Q p) t = (if st t = READY \<and> pr t = p then 1 else 0))"

definition prio_ok :: "(tid \<Rightarrow> co_status) \<Rightarrow> (tid \<Rightarrow> nat) \<Rightarrow> (tid \<Rightarrow> co_type) \<Rightarrow> bool" where
  "prio_ok st pr ty \<longleftrightarrow>
     (\<forall>t. st t = READY \<or> st t = RUNNING \<longrightarrow> ty t \<noteq> IDLE) \<and>
     (\<forall>t. (st t = READY \<or> st t = RUNNING \<or> st t = WAIT) \<and> ty t \<noteq> IDLE \<longrightarrow> pr t < TSC_PRIO_NUM)"

definition counters_ok :: "(nat \<Rightarrow> tid multiset) \<Rightarrow> (nat \<Rightarrow> u32) \<Rightarrow> u32 \<Rightarrow> bool" where
  "counters_ok Q rd tr \<longleftrightarrow>
     (\<forall>p<TSC_PRIO_NUM. rd p = of_nat (size (Q p))) \<and> tr = (\<Sum>p<TSC_PRIO_NUM. of_nat (size (Q p)))"

definition once_running :: "nat \<Rightarrow> (tid \<Rightarrow> co_status) \<Rightarrow> (nat \<Rightarrow> tid option) \<Rightarrow> bool" where
  "once_running n st run \<longleftrightarrow>
     (\<forall>t. st t = RUNNING \<longleftrightarrow> (\<exists>v<n. run v = Some t)) \<and>
     (\<forall>v<n. \<forall>w<n. \<forall>t. run v = Some t \<and> run w = Some t \<longrightarrow> v = w)"

definition task_inv :: "nat \<Rightarrow> (nat \<Rightarrow> tid multiset) \<Rightarrow> (tid \<Rightarrow> co_status) \<Rightarrow> (tid \<Rightarrow> nat) \<Rightarrow> (tid \<Rightarrow> co_type) \<Rightarrow>
    (nat \<Rightarrow> u32) \<Rightarrow> u32 \<Rightarrow> (nat \<Rightarrow> tid option) \<Rightarrow> bool" where
  "task_inv n Q st pr ty rd tr run \<longleftrightarrow>
     once_queued Q st pr \<and> prio_ok st pr ty \<and> counters_ok Q rd tr \<and> once_running n st run"

definition ring_tasks :: "sys \<Rightarrow> nat \<Rightarrow> tid multiset" where
  "ring_tasks s p = (\<Sum>v<xt_index s. mset (rq_list (xt (vpus s v) p)))"

definition queued :: "sys \<Rightarrow> nat \<Rightarrow> tid multiset" where
  "queued s p = ring_tasks s p + mset (g_tasks (gxt s p))"

definition running :: "sys \<Rightarrow> nat \<Rightarrow> tid option" where
  "running s v = (if current (vpus s v) = scheduler (vpus s v) then None else current (vpus s v))"

definition queues_ok :: "sys \<Rightarrow> bool" where
  "queues_ok s \<longleftrightarrow> xt_index s < 2 ^ 32 \<and> (\<forall>p<TSC_PRIO_NUM. \<not> g_lock (gxt s p) \<and> (\<forall>v<xt_index s. rq_inv (xt (vpus s v) p)))"

definition idle_ok :: "sys \<Rightarrow> bool" where
  "idle_ok s \<longleftrightarrow> (\<forall>v<xt_index s. vpu_ident (vpus s v) = v \<and> current (vpus s v) \<noteq> None \<and>
     (\<exists>sch. scheduler (vpus s v) = Some sch \<and> co_type (cos s sch) = IDLE \<and> co_status (cos s sch) = WAIT))"

definition sched_inv :: "sys \<Rightarrow> bool" where
  "sched_inv s \<longleftrightarrow> queues_ok s \<and> idle_ok s \<and>
     task_inv (xt_index s) (queued s) (\<lambda>t. co_status (cos s t)) (\<lambda>t. co_prio (cos s t))
       (\<lambda>t. co_type (cos s t)) (ready s) (total_ready s) (running s)"

section \<open>The moves of a task\<close>

lemma sum_prio_upd:
  fixes f :: "'a \<Rightarrow> u32"
  assumes "p < TSC_PRIO_NUM"
  shows "(\<Sum>q<TSC_PRIO_NUM. f ((Q(p := M)) q)) = (\<Sum>q<TSC_PRIO_NUM. f (Q q)) - f (Q p) + f M"
proof -
  have "(\<Sum>q\<in>{..<TSC_PRIO_NUM} - {p}. f ((Q(p := M)) q)) = (\<Sum>q\<in>{..<TSC_PRIO_NUM} - {p}. f (Q q))"
    by (rule sum.cong) auto
  with assms show ?thesis
    by (simp add: sum.remove [of "{..<TSC_PRIO_NUM}" p] del: TSC_PRIO_NUM_def)
qed

lemma counters_ok_upd:
  assumes "counters_ok Q rd tr" "p < TSC_PRIO_NUM"
  shows "counters_ok (Q(p := M)) (rd(p := rd p + (of_nat (size M) - of_nat (size (Q p)))))
     (tr + (of_nat (size M) - of_nat (size (Q p))))"
  using assms sum_prio_upd [OF assms(2), of "\<lambda>M. of_nat (size M)" Q M]
  by (simp add: counters_ok_def del: TSC_PRIO_NUM_def)

lemma task_inv_ready:
  assumes I: "task_inv n Q st pr ty rd tr run"
    and t: "st t \<noteq> READY" "st t \<noteq> RUNNING" "ty t \<noteq> IDLE" "pr t = p" "p < TSC_PRIO_NUM"
  shows "task_inv n (Q(p := add_mset t (Q p))) (st(t := READY)) pr ty (rd(p := rd p + 1)) (tr + 1) run"
proof -
  have "once_queued (Q(p := add_mset t (Q p))) (st(t := READY)) pr"
    using I t by (auto simp: task_inv_def once_queued_def)
  moreover have "prio_ok (st(t := READY)) pr ty" using I t by (auto simp: task_inv_def prio_ok_def)
  moreover have "once_running n (st(t := READY)) run" using I t by (auto simp: task_inv_def once_running_def)
  ultimately show ?thesis using I counters_ok_upd [of Q rd tr p "add_mset t (Q p)"] t(5)
    by (simp add: task_inv_def)
qed

lemma task_inv_queuedD:
  assumes "task_inv n Q st pr ty rd tr run" "t \<in># Q p" "p < TSC_PRIO_NUM"
  shows "st t = READY" "pr t = p"
proof -
  have "count (Q p) t \<noteq> 0" using assms(2) by simp
  moreover have "count (Q p) t = (if st t = READY \<and> pr t = p then 1 else 0)"
    using assms(1,3) by (simp add: task_inv_def once_queued_def del: count_eq_zero_iff)
  ultimately show "st t = READY" "pr t = p" by presburger+
qed

lemma once_runningD:
  assumes "once_running n st run" "run v = Some t" "v < n"
  shows "st t = RUNNING" "\<And>w. run w = Some t \<Longrightarrow> w < n \<Longrightarrow> w = v"
  using assms unfolding once_running_def by blast+

lemma once_runningI:
  assumes "\<And>t. st t = RUNNING \<longleftrightarrow> (\<exists>v<n. run v = Some t)"
    and "\<And>v w t. run v = Some t \<Longrightarrow> run w = Some t \<Longrightarrow> v < n \<Longrightarrow> w < n \<Longrightarrow> v = w"
  shows "once_running n st run"
  using assms unfolding once_running_def by blast

lemma once_running_start:
  assumes R: "once_running n st run" and v: "run v = None" "v < n" and t: "st t \<noteq> RUNNING"
  shows "once_running n (st(t := RUNNING)) (run(v := Some t))"
proof (rule once_runningI)
  have n: "\<And>w. w < n \<Longrightarrow> run w \<noteq> Some t" using once_runningD(1) [OF R] t by blast
  have "(u = t \<or> st u = RUNNING) \<longleftrightarrow> (\<exists>w<n. (run(v := Some t)) w = Some u)" for u
    using R v unfolding once_running_def by (metis fun_upd_apply option.inject option.distinct(1))
  then show "(st(t := RUNNING)) u = RUNNING \<longleftrightarrow> (\<exists>w<n. (run(v := Some t)) w = Some u)" for u
    unfolding fun_upd_apply [of st] by metis
  show "w = x" if "(run(v := Some t)) w = Some u" "(run(v := Some t)) x = Some u" "w < n" "x < n" for w x u
    using that n once_runningD(2) [OF R] by (auto split: if_splits)
qed

lemma once_running_stop:
  assumes R: "once_running n st run" and v: "run v = Some t" "v < n" and x: "x \<noteq> RUNNING"
  shows "once_running n (st(t := x)) (run(v := None))"
proof (rule once_runningI)
  have n: "\<And>w. w < n \<Longrightarrow> w \<noteq> v \<Longrightarrow> run w \<noteq> Some t" using once_runningD(2) [OF R v] by blast
  show "(st(t := x)) u = RUNNING \<longleftrightarrow> (\<exists>w<n. (run(v := None)) w = Some u)" for u
    using R v x n unfolding once_running_def
    by (metis (no_types, lifting) fun_upd_apply option.inject option.distinct(1))
  show "w = y" if "(run(v := None)) w = Some u" "(run(v := None)) y = Some u" "w < n" "y < n" for w y u
    using that once_runningD(2) [OF R] by (auto split: if_splits)
qed

lemma task_inv_dispatch:
  assumes I: "task_inv n Q st pr ty rd tr run"
    and t: "t \<in># Q p" "p < TSC_PRIO_NUM" "v < n" "run v = None"
  shows "task_inv n (Q(p := Q p - {#t#})) (st(t := RUNNING)) pr ty (rd(p := rd p - 1)) (tr - 1) (run(v := Some t))"
proof -
  note st = task_inv_queuedD [OF I t(1,2)]
  have "once_queued (Q(p := Q p - {#t#})) (st(t := RUNNING)) pr"
    using I t st by (auto simp: task_inv_def once_queued_def)
  moreover have "prio_ok (st(t := RUNNING)) pr ty" using I st by (auto simp: task_inv_def prio_ok_def)
  moreover have "once_running n (st(t := RUNNING)) (run(v := Some t))"
    using I t st once_running_start [of n st run v t] by (simp add: task_inv_def)
  moreover have "size (Q p) = Suc (size (Q p - {#t#}))" using t(1) by (simp add: size_Suc_Diff1)
  ultimately show ?thesis using I counters_ok_upd [of Q rd tr p "Q p - {#t#}"] t(2)
    by (simp add: task_inv_def)
qed

lemma task_inv_stop:
  assumes I: "task_inv n Q st pr ty rd tr run"
    and t: "run v = Some t" "v < n" "x \<noteq> READY" "x \<noteq> RUNNING"
  shows "task_inv n Q (st(t := x)) pr ty rd tr (run(v := None))"
proof -
  have st: "st t = RUNNING" using I t once_runningD(1) [of n st run v t] by (simp add: task_inv_def)
  then have "once_queued Q (st(t := x)) pr" using I t by (auto simp: task_inv_def once_queued_def)
  moreover have "prio_ok (st(t := x)) pr ty" using I st t(3,4) by (auto simp: task_inv_def prio_ok_def)
  moreover have "once_running n (st(t := x)) (run(v := None))"
    using I t once_running_stop [of n st run v t x] by (simp add: task_inv_def)
  ultimately show ?thesis using I by (simp add: task_inv_def)
qed

lemma task_inv_alloc:
  assumes I: "task_inv n Q st pr ty rd tr run"
    and t: "st t \<noteq> READY" "st t \<noteq> RUNNING" "y \<noteq> IDLE \<longrightarrow> p < TSC_PRIO_NUM"
  shows "task_inv n Q (st(t := WAIT)) (pr(t := p)) (ty(t := y)) rd tr run"
  using I t by (auto simp: task_inv_def once_queued_def prio_ok_def once_running_def)

lemma task_inv_prio:
  assumes I: "task_inv n Q st pr ty rd tr run" and t: "st t \<noteq> READY" "p < TSC_PRIO_NUM"
  shows "task_inv n Q st (pr(t := p)) ty rd tr run"
  using I t by (auto simp: task_inv_def once_queued_def prio_ok_def)

section \<open>What the updates do to the observed state\<close>

lemma ring_tasks_split:
  "v < xt_index s \<Longrightarrow>
     ring_tasks s p = mset (rq_list (xt (vpus s v) p)) + (\<Sum>w\<in>{..<xt_index s} - {v}. mset (rq_list (xt (vpus s w) p)))"
  by (simp add: ring_tasks_def sum.remove)

lemma ring_tasks_set_xt:
  assumes "v < xt_index s"
  shows "ring_tasks (set_xt v p q s) =
     (ring_tasks s)(p := mset (rq_list q) + (ring_tasks s p - mset (rq_list (xt (vpus s v) p))))"
proof
  fix p'
  have "(\<Sum>w\<in>{..<xt_index s} - {v}. mset (rq_list (xt (vpus (set_xt v p q s) w) p'))) =
      (\<Sum>w\<in>{..<xt_index s} - {v}. mset (rq_list (xt (vpus s w) p')))"
    by (rule sum.cong) (auto simp: sched_simps)
  then show "ring_tasks (set_xt v p q s) p' =
      ((ring_tasks s)(p := mset (rq_list q) + (ring_tasks s p - mset (rq_list (xt (vpus s v) p))))) p'"
    using assms ring_tasks_split [of v s p'] ring_tasks_split [of v "set_xt v p q s" p']
    by (auto simp: sched_simps)
qed

lemma ring_subset: "v < xt_index s \<Longrightarrow> mset (rq_list (xt (vpus s v) p)) \<subseteq># ring_tasks s p"
  by (simp add: ring_tasks_split)

lemma queued_put:
  assumes v: "v < xt_index s"
    and q: "mset (rq_list q) + mset (g_tasks g) = add_mset t (mset (rq_list (xt (vpus s v) p)) + mset (g_tasks (gxt s p)))"
  shows "queued (set_gxt p g (set_xt v p q s)) = (queued s)(p := add_mset t (queued s p))"
proof
  fix p'
  have *: "ring_tasks (set_gxt p g (set_xt v p q s)) = ring_tasks (set_xt v p q s)"
    by (simp add: fun_eq_iff ring_tasks_def set_gxt_def)
  obtain R where "ring_tasks s p = mset (rq_list (xt (vpus s v) p)) + R" using ring_tasks_split [OF v] by blast
  then show "queued (set_gxt p g (set_xt v p q s)) p' = ((queued s)(p := add_mset t (queued s p))) p'"
    using q unfolding queued_def * ring_tasks_set_xt [OF v] by (auto simp: sched_simps add.assoc)
qed

lemma xt_upd_vpu: "(\<And>r. xt (h r) = xt r) \<Longrightarrow> xt (vpus (upd_vpu v h s) w) = xt (vpus s w)"
  by (simp add: upd_vpu_def)

lemma queued_simps [simp]:
  "queued (upd_co t f s) = queued s"
  "queued (inc_ready p s) = queued s" "queued (dec_ready p s) = queued s"
  by (simp_all add: fun_eq_iff queued_def ring_tasks_def sched_simps)

lemma queued_upd_vpu [simp]: "(\<And>r. xt (h r) = xt r) \<Longrightarrow> queued (upd_vpu v h s) = queued s"
  by (rule ext) (simp add: queued_def ring_tasks_def xt_upd_vpu, simp add: upd_vpu_def)

lemma queued_set_gxt:
  "queued (set_gxt p g s) = (queued s)(p := ring_tasks s p + mset (g_tasks g))"
  by (auto simp: fun_eq_iff queued_def ring_tasks_def sched_simps)

lemma queues_ok_simps [simp]:
  "queues_ok (upd_co t f s) = queues_ok s"
  "queues_ok (inc_ready p s) = queues_ok s" "queues_ok (dec_ready p s) = queues_ok s"
  by (simp_all add: queues_ok_def sched_simps)

lemma queues_ok_upd_vpu [simp]: "(\<And>r. xt (h r) = xt r) \<Longrightarrow> queues_ok (upd_vpu v h s) = queues_ok s"
  unfolding queues_ok_def by (simp add: xt_upd_vpu) (simp add: upd_vpu_def)

lemma queues_ok_set:
  "queues_ok s \<Longrightarrow> \<not> g_lock g \<Longrightarrow> queues_ok (set_gxt p g s)"
  "queues_ok s \<Longrightarrow> rq_inv q \<Longrightarrow> queues_ok (set_xt v p q s)"
  by (auto simp: queues_ok_def sched_simps)

lemma running_simps [simp]:
  "running (upd_co t f s) = running s"
  "running (inc_ready p s) = running s" "running (dec_ready p s) = running s"
  "running (set_gxt p g s) = running s" "running (set_xt v p q s) = running s"
  by (auto simp: fun_eq_iff running_def sched_simps)

lemma idle_ok_simps [simp]:
  "idle_ok (inc_ready p s) = idle_ok s" "idle_ok (dec_ready p s) = idle_ok s"
  "idle_ok (set_gxt p g s) = idle_ok s" "idle_ok (set_xt v p q s) = idle_ok s"
  by (auto simp: idle_ok_def sched_simps)

lemma idle_ok_upd_co:
  "idle_ok s \<Longrightarrow> co_type (cos s t) \<noteq> IDLE \<or> co_status (cos s t) \<noteq> WAIT \<or>
       co_type (f (cos s t)) = IDLE \<and> co_status (f (cos s t)) = WAIT \<Longrightarrow>
     idle_ok (upd_co t f s)"
  unfolding idle_ok_def by (simp add: upd_co_def) metis

lemma sys_sel_simps [simp]:
  "cos (inc_ready p s) = cos s" "cos (dec_ready p s) = cos s" "cos (set_gxt p g s) = cos s"
  "cos (set_xt v p q s) = cos s" "cos (upd_vpu v h s) = cos s"
  "cos (upd_co t f s) = (cos s)(t := f (cos s t))"
  "xt_index (inc_ready p s) = xt_index s" "xt_index (dec_ready p s) = xt_index s"
  "xt_index (set_gxt p g s) = xt_index s" "xt_index (set_xt v p q s) = xt_index s"
  "xt_index (upd_vpu v h s) = xt_index s" "xt_index (upd_co t f s) = xt_index s"
  "ready (set_gxt p g s) = ready s" "ready (set_xt v p q s) = ready s" "ready (upd_vpu v h s) = ready s"
  "ready (upd_co t f s) = ready s" "ready (inc_ready p s) = (ready s)(p := ready s p + 1)"
  "ready (dec_ready p s) = (ready s)(p := ready s p - 1)"
  "total_ready (set_gxt p g s) = total_ready s" "total_ready (set_xt v p q s) = total_ready s"
  "total_ready (upd_vpu v h s) = total_ready s" "total_ready (upd_co t f s) = total_ready s"
  "total_ready (inc_ready p s) = total_ready s + 1" "total_ready (dec_ready p s) = total_ready s - 1"
  "gxt (upd_co t f s) = gxt s" "gxt (upd_vpu v h s) = gxt s" "gxt (set_xt v p q s) = gxt s"
  "gxt (inc_ready p s) = gxt s" "gxt (dec_ready p s) = gxt s"
  "vpus (upd_co t f s) = vpus s" "vpus (set_gxt p g s) = vpus s" "vpus (inc_ready p s) = vpus s"
  "vpus (dec_ready p s) = vpus s" "vpus (upd_vpu v h s) = (vpus s)(v := h (vpus s v))"
  by (simp_all add: sched_simps)

text \<open>The invariant looks at part of the state only.\<close>

lemma sched_inv_cong:
  assumes "sched_inv s" "xt_index s' = xt_index s" "gxt s' = gxt s" "ready s' = ready s"
    "total_ready s' = total_ready s"
    "\<And>v. xt (vpus s' v) = xt (vpus s v) \<and> current (vpus s' v) = current (vpus s v) \<and>
       scheduler (vpus s' v) = scheduler (vpus s v) \<and> vpu_ident (vpus s' v) = vpu_ident (vpus s v)"
    "\<And>t. co_status (cos s' t) = co_status (cos s t) \<and> co_prio (cos s' t) = co_prio (cos s t) \<and>
       co_type (cos s' t) = co_type (cos s t)"
  shows "sched_inv s'"
proof -
  have "queued s' = queued s" "running s' = running s"
    using assms by (simp_all add: fun_eq_iff queued_def ring_tasks_def running_def)
  with assms show ?thesis by (simp add: sched_inv_def queues_ok_def idle_ok_def)
qed

lemma ring_tasks_simps [simp]:
  "ring_tasks (upd_co t f s) = ring_tasks s" "ring_tasks (set_gxt p g s) = ring_tasks s"
  "ring_tasks (inc_ready p s) = ring_tasks s" "ring_tasks (dec_ready p s) = ring_tasks s"
  by (simp_all add: fun_eq_iff ring_tasks_def sched_simps)

lemma ring_tasks_upd_vpu [simp]: "(\<And>r. xt (h r) = xt r) \<Longrightarrow> ring_tasks (upd_vpu v h s) = ring_tasks s"
  by (rule ext) (simp add: ring_tasks_def xt_upd_vpu del: sys_sel_simps, simp add: upd_vpu_def)

section \<open>Preservation of the invariant\<close>

lemma task_inv_sysD:
  "sched_inv s \<Longrightarrow> task_inv (xt_index s) (queued s) (\<lambda>t. co_status (cos s t)) (\<lambda>t. co_prio (cos s t))
     (\<lambda>t. co_type (cos s t)) (ready s) (total_ready s) (running s)"
  by (simp add: sched_inv_def)

lemma sched_invI:
  assumes "task_inv n Q st pr ty rd tr run" "queues_ok s" "idle_ok s" "xt_index s = n" "queued s = Q"
    "\<And>t. co_status (cos s t) = st t" "\<And>t. co_prio (cos s t) = pr t" "\<And>t. co_type (cos s t) = ty t"
    "ready s = rd" "total_ready s = tr" "running s = run"
  shows "sched_inv s"
  using assms by (simp add: sched_inv_def)

lemma runningD:
  assumes "sched_inv s" "v < xt_index s" "running s v = Some t"
  shows "co_status (cos s t) = RUNNING" "co_type (cos s t) \<noteq> IDLE" "co_prio (cos s t) < TSC_PRIO_NUM"
    "current (vpus s v) = Some t"
proof -
  note I = task_inv_sysD [OF assms(1)]
  show st: "co_status (cos s t) = RUNNING"
    using I once_runningD(1) [of "xt_index s" "\<lambda>t. co_status (cos s t)" "running s" v t] assms(2,3)
    by (simp add: task_inv_def)
  with I show "co_type (cos s t) \<noteq> IDLE" "co_prio (cos s t) < TSC_PRIO_NUM"
    by (auto simp: task_inv_def prio_ok_def)
  show "current (vpus s v) = Some t" using assms(3) by (auto simp: running_def split: if_splits)
qed

text \<open>The state in which a core function starts: the VPU has switched to its scheduler.\<close>

definition entered :: "nat \<Rightarrow> addr \<Rightarrow> addr \<Rightarrow> sys \<Rightarrow> sys" where
  "entered v self sch s = upd_vpu v (\<lambda>r. r\<lparr>current := Some sch\<rparr>)
     (upd_co sch (\<lambda>c. c\<lparr>co_arguments := Some self\<rparr>) (upd_co self (\<lambda>c. c\<lparr>co_syscall := True\<rparr>) s))"

lemma entered_sel [simp]:
  "co_status (cos (entered v self sch s) t) = co_status (cos s t)"
  "co_prio (cos (entered v self sch s) t) = co_prio (cos s t)"
  "co_type (cos (entered v self sch s) t) = co_type (cos s t)"
  "xt_index (entered v self sch s) = xt_index s" "ready (entered v self sch s) = ready s"
  "total_ready (entered v self sch s) = total_ready s" "gxt (entered v self sch s) = gxt s"
  "queued (entered v self sch s) = queued s" "ring_tasks (entered v self sch s) = ring_tasks s"
  "queues_ok (entered v self sch s) = queues_ok s"
  by (simp_all add: entered_def)

lemma entered_ok:
  assumes "idle_ok s" "v < xt_index s"
  obtains self sch where "current (vpus s v) = Some self" "scheduler (vpus s v) = Some sch"
    "idle_ok (entered v self sch s)" "running (entered v self sch s) = (running s)(v := None)"
    "\<And>pfn. vpu_syscall pfn v s = pfn v self (entered v self sch s)"
proof -
  from assms obtain self sch where c: "current (vpus s v) = Some self" "scheduler (vpus s v) = Some sch"
    by (auto simp: idle_ok_def)
  have "idle_ok (entered v self sch s)" using assms(1) by (auto simp: idle_ok_def entered_def)
  moreover have "running (entered v self sch s) = (running s)(v := None)"
    using c by (auto simp: fun_eq_iff running_def entered_def)
  moreover have "vpu_syscall pfn v s = pfn v self (entered v self sch s)" for pfn
    using c by (simp add: vpu_syscall_def entered_def)
  ultimately show ?thesis using c that by blast
qed

lemma sched_inv_yield:
  assumes "sched_inv s" "v < xt_index s" "running s v = Some t"
  obtains s' where "vpu_syscall core_yield v s = Inr s'" "sched_inv s'" "running s' v = None"
    "\<And>u. co_status (cos s' u) = (if u = t then READY else co_status (cos s u))" "xt_index s' = xt_index s"
proof -
  note t = runningD [OF assms]
  from assms have "idle_ok s" by (simp add: sched_inv_def)
  from entered_ok [OF this assms(2)] t(4) obtain sch where
    e: "idle_ok (entered v t sch s)" "running (entered v t sch s) = (running s)(v := None)"
      "vpu_syscall core_yield v s = core_yield v t (entered v t sch s)" by (metis option.inject)
  define p where "p = co_prio (cos s t)"
  define s' where "s' = inc_ready p (set_gxt p ((gxt s p)\<lparr>g_tasks := g_tasks (gxt s p) @ [t]\<rparr>)
     (upd_co t (\<lambda>c. c\<lparr>co_status := READY\<rparr>) (entered v t sch s)))"
  have q: "queues_ok s" "\<not> g_lock (gxt s p)" using assms(1) t(3) by (auto simp: sched_inv_def queues_ok_def p_def)
  have "vpu_syscall core_yield v s = Inr s'" using q e(3) by (simp add: core_yield_def s'_def p_def Let_def)
  moreover have "sched_inv s'"
  proof (rule sched_invI)
    show "task_inv (xt_index s) ((queued s)(p := add_mset t (queued s p)))
        ((\<lambda>u. co_status (cos s u))(t := READY)) (\<lambda>u. co_prio (cos s u)) (\<lambda>u. co_type (cos s u))
        ((ready s)(p := ready s p + 1)) (total_ready s + 1) ((running s)(v := None))"
      using task_inv_ready [OF task_inv_stop [OF task_inv_sysD [OF assms(1)] assms(3,2), of WAIT], of t p] t
      by (simp add: p_def)
    show "queued s' = (queued s)(p := add_mset t (queued s p))"
      by (auto simp: s'_def queued_set_gxt fun_eq_iff) (simp add: queued_def)
    show "queues_ok s'" using q by (simp add: s'_def queues_ok_set)
    show "idle_ok s'" using e t by (simp add: s'_def idle_ok_upd_co)
  qed (use e(2) in \<open>simp_all add: s'_def\<close>)
  moreover have "running s' v = None" "\<And>u. co_status (cos s' u) = (if u = t then READY else co_status (cos s u))" "xt_index s' = xt_index s"
    using e(2) by (simp_all add: s'_def)
  ultimately show ?thesis using that by blast
qed

lemma release_locks_eq: "release_locks ls s = s\<lparr>locks := \<lambda>l. locks s l \<and> l \<notin> set ls\<rparr>"
proof -
  have "fold (\<lambda>l s. s\<lparr>locks := (locks s)(l := False)\<rparr>) xs s = s\<lparr>locks := \<lambda>l. locks s l \<and> l \<notin> set xs\<rparr>" for xs
    by (induction xs arbitrary: s) (auto simp: fun_upd_def conj_ac cong: conj_cong)
  then show ?thesis by (simp add: release_locks_def)
qed

lemma core_wait_eq:
  "\<exists>s'. core_wait v t s = Inr s' \<and> cos s' = cos (upd_co t (\<lambda>c. c\<lparr>co_status := WAIT\<rparr>) s) \<and>
     xt_index s' = xt_index s \<and> gxt s' = gxt s \<and> ready s' = ready s \<and> total_ready s' = total_ready s \<and>
     (\<forall>w. xt (vpus s' w) = xt (vpus s w) \<and> current (vpus s' w) = current (vpus s w) \<and>
       scheduler (vpus s' w) = scheduler (vpus s w) \<and> vpu_ident (vpus s' w) = vpu_ident (vpus s w))"
  by (auto simp: core_wait_def release_locks_eq Let_def split: option.split)

text \<open>A running task that stops being runnable leaves the VPU in its scheduler.\<close>

lemma sched_inv_stop:
  assumes "sched_inv s" "v < xt_index s" "running s v = Some t" "x \<noteq> READY" "x \<noteq> RUNNING"
    and idle: "idle_ok (entered v t sch s)" and run: "running (entered v t sch s) = (running s)(v := None)"
  shows "sched_inv (upd_co t (\<lambda>c. c\<lparr>co_status := x\<rparr>) (entered v t sch s))"
proof (rule sched_invI)
  show "task_inv (xt_index s) (queued s) ((\<lambda>u. co_status (cos s u))(t := x)) (\<lambda>u. co_prio (cos s u))
      (\<lambda>u. co_type (cos s u)) (ready s) (total_ready s) ((running s)(v := None))"
    by (rule task_inv_stop [OF task_inv_sysD]) fact+
qed (use assms runningD(2) [OF assms(1-3)] in \<open>simp_all add: sched_inv_def idle_ok_upd_co\<close>)

lemma sched_inv_suspend:
  assumes "sched_inv s" "v < xt_index s" "running s v = Some t"
  obtains s' where "vpu_suspend ls v s = Inr s'" "sched_inv s'" "running s' v = None"
    "\<And>u. co_status (cos s' u) = (if u = t then WAIT else co_status (cos s u))" "xt_index s' = xt_index s"
proof -
  define s1 where "s1 = upd_vpu v (\<lambda>r. r\<lparr>hold := Some ls\<rparr>) s"
  have s1: "sched_inv s1" "v < xt_index s1" "running s1 v = Some t"
    using sched_inv_cong [OF assms(1), of s1] assms(2,3) by (auto simp: s1_def running_def)
  from s1 have "idle_ok s1" by (simp add: sched_inv_def)
  from entered_ok [OF this s1(2)] runningD(4) [OF s1] obtain sch where
    e: "idle_ok (entered v t sch s1)" "running (entered v t sch s1) = (running s1)(v := None)"
      "vpu_syscall core_wait v s1 = core_wait v t (entered v t sch s1)" by (metis option.inject)
  define s2 where "s2 = upd_co t (\<lambda>c. c\<lparr>co_status := WAIT\<rparr>) (entered v t sch s1)"
  have s2: "sched_inv s2" using sched_inv_stop [OF s1, of WAIT] e by (simp add: s2_def)
  obtain s' where s': "vpu_suspend ls v s = Inr s'" "cos s' = cos s2" "xt_index s' = xt_index s2" "gxt s' = gxt s2"
    "ready s' = ready s2" "total_ready s' = total_ready s2"
    "\<And>v. xt (vpus s' v) = xt (vpus s2 v) \<and> current (vpus s' v) = current (vpus s2 v) \<and>
       scheduler (vpus s' v) = scheduler (vpus s2 v) \<and> vpu_ident (vpus s' v) = vpu_ident (vpus s2 v)"
    using e(3) core_wait_eq [of v t "entered v t sch s1"]
    by (auto simp: vpu_suspend_def s1_def [symmetric] s2_def)
  moreover have "sched_inv s'" using sched_inv_cong [OF s2] s' by simp
  moreover have "running s' = running s2" using s'(7) by (simp add: running_def fun_eq_iff)
  ultimately show ?thesis using that [OF s'(1)] e(2) by (simp add: s2_def) (simp add: s1_def)
qed

lemma sched_inv_exit:
  assumes "sched_inv s" "v < xt_index s" "running s v = Some t" "co_type (cos s t) \<noteq> MAIN"
  obtains s' where "vpu_syscall core_exit v s = Inr s'" "sched_inv s'" "running s' v = None"
    "\<And>u. co_status (cos s' u) = (if u = t then EXIT else co_status (cos s u))" "xt_index s' = xt_index s"
proof -
  from assms have "idle_ok s" by (simp add: sched_inv_def)
  from entered_ok [OF this assms(2)] runningD(4) [OF assms(1-3)] obtain sch where
    e: "idle_ok (entered v t sch s)" "running (entered v t sch s) = (running s)(v := None)"
      "vpu_syscall core_exit v s = core_exit v t (entered v t sch s)" by (metis option.inject)
  define s2 where "s2 = upd_co t (\<lambda>c. c\<lparr>co_status := EXIT\<rparr>) (entered v t sch s)"
  have s2: "sched_inv s2" using sched_inv_stop [OF assms(1-3), of EXIT] e by (simp add: s2_def)
  obtain s' where s': "vpu_syscall core_exit v s = Inr s'" "xt_index s' = xt_index s2" "gxt s' = gxt s2"
    "ready s' = ready s2" "total_ready s' = total_ready s2" "vpus s' = vpus s2"
    "\<And>u. co_status (cos s' u) = co_status (cos s2 u) \<and> co_prio (cos s' u) = co_prio (cos s2 u) \<and>
       co_type (cos s' u) = co_type (cos s2 u)"
    using e(3) assms(4) runningD(1) [OF assms(1-3)]
    by (auto simp: core_exit_def coroutine_deallocate_def s2_def [symmetric] Let_def)
  moreover have "sched_inv s'" using sched_inv_cong [OF s2] s' by simp
  moreover have "running s' = running s2" using s'(6) by (simp add: running_def fun_eq_iff)
  ultimately show ?thesis using that [OF s'(1)] e(2) by (simp add: s2_def)
qed

lemma queued_append_global:
  "queued (set_gxt p ((gxt s p)\<lparr>g_tasks := g_tasks (gxt s p) @ [t]\<rparr>) s) = (queued s)(p := add_mset t (queued s p))"
  by (simp add: queued_set_gxt) (simp add: queued_def)

lemma enqueue_ok:
  assumes "queues_ok s" "p < TSC_PRIO_NUM" "\<And>v. vo = Some v \<Longrightarrow> v < xt_index s"
  obtains s' where "enqueue vo t p s = Inr s'" "queues_ok s'" "queued s' = (queued s)(p := add_mset t (queued s p))"
    "running s' = running s" "idle_ok s' = idle_ok s" "cos s' = cos s" "xt_index s' = xt_index s" "ready s' = ready s"
    "total_ready s' = total_ready s"
    "\<And>w. current (vpus s' w) = current (vpus s w)"
proof (cases vo)
  case None
  have "\<not> g_lock (gxt s p)" using assms by (simp add: queues_ok_def)
  then show ?thesis using that None assms(1)
    by (simp add: enqueue_def queues_ok_set queued_append_global)
next
  case (Some v)
  then have v: "v < xt_index s" by (rule assms(3))
  with assms have "rq_inv (xt (vpus s v) p)" "\<not> g_lock (gxt s p)" by (simp_all add: queues_ok_def)
  from ring.put_law [OF this, of t] obtain q g where
    q: "runqput (xt (vpus s v) p) t (gxt s p) = Inr (q, g)" "rq_inv q" "\<not> g_lock g"
      "mset (rq_list q) + mset (g_tasks g) = add_mset t (mset (rq_list (xt (vpus s v) p)) + mset (g_tasks (gxt s p)))"
    by auto
  have "current (vpus (set_gxt p g (set_xt v p q s)) w) = current (vpus s w)" for w
    by (simp add: sched_simps)
  then show ?thesis using that [of "set_gxt p g (set_xt v p q s)"] q assms(1) Some queued_put [OF v q(4)]
    by (simp add: enqueue_def queues_ok_set)
qed

lemma sched_inv_ready:
  assumes "sched_inv s" "co_status (cos s t) = WAIT" "co_type (cos s t) \<noteq> IDLE"
    and vo: "\<And>v. vo = Some v \<Longrightarrow> v < xt_index s" "\<And>v. vo = Some v \<Longrightarrow> preempt \<Longrightarrow> running s v \<noteq> None"
  obtains s' where "vpu_ready vo t preempt s = Inr s'" "sched_inv s'" "co_status (cos s' t) = READY"
    "xt_index s' = xt_index s"
proof -
  define p where "p = co_prio (cos s t)"
  have p: "p < TSC_PRIO_NUM" using assms(1-3) by (auto simp: p_def sched_inv_def task_inv_def prio_ok_def)
  have ok: "queues_ok (upd_co t (\<lambda>c. c\<lparr>co_status := READY\<rparr>) s)" "idle_ok (upd_co t (\<lambda>c. c\<lparr>co_status := READY\<rparr>) s)"
    using assms by (simp_all add: sched_inv_def idle_ok_upd_co)
  obtain s1 where s1: "enqueue vo t p (upd_co t (\<lambda>c. c\<lparr>co_status := READY\<rparr>) s) = Inr s1" "queues_ok s1"
    "queued s1 = (queued s)(p := add_mset t (queued s p))" "running s1 = running s" "idle_ok s1"
    "cos s1 = (cos s)(t := (cos s t)\<lparr>co_status := READY\<rparr>)" "xt_index s1 = xt_index s" "ready s1 = ready s"
    "total_ready s1 = total_ready s" "\<And>w. current (vpus s1 w) = current (vpus s w)"
    using enqueue_ok [OF ok(1) p, of vo t] vo(1) ok(2) by auto
  define s3 where "s3 = (if co_async_wait (cos s t) then (inc_ready p s1)\<lparr>total_iowait := total_iowait (inc_ready p s1) - 1\<rparr>
     else inc_ready p s1)"
  have "sched_inv (inc_ready p s1)"
  proof (rule sched_invI)
    show "task_inv (xt_index s) ((queued s)(p := add_mset t (queued s p)))
        ((\<lambda>u. co_status (cos s u))(t := READY)) (\<lambda>u. co_prio (cos s u)) (\<lambda>u. co_type (cos s u))
        ((ready s)(p := ready s p + 1)) (total_ready s + 1) (running s)"
      using task_inv_ready [OF task_inv_sysD [OF assms(1)], of t p] assms(2,3) p by (simp add: p_def)
  qed (use s1 in simp_all)
  then have s3: "sched_inv s3" by (rule sched_inv_cong) (simp_all add: s3_def)
  have sel: "running s3 = running s" "xt_index s3 = xt_index s" "\<And>w. current (vpus s3 w) = current (vpus s w)"
    "co_status (cos s3 t) = READY"
  proof -
    have "running s3 = running s1" by (simp add: s3_def running_def fun_eq_iff)
    with s1 show "running s3 = running s" "xt_index s3 = xt_index s" "\<And>w. current (vpus s3 w) = current (vpus s w)"
      "co_status (cos s3 t) = READY" by (simp_all add: s3_def)
  qed
  have wake: "sched_inv (vpu_wakeup_one s3)" "co_status (cos (vpu_wakeup_one s3) t) = READY"
    "xt_index (vpu_wakeup_one s3) = xt_index s"
    using sched_inv_cong [OF s3, of "vpu_wakeup_one s3"] sel by (simp_all add: vpu_wakeup_one_def)
  have yield: "\<exists>s'. coroutine_yield v s3 = Inr s' \<and> sched_inv s' \<and> co_status (cos s' t) = READY \<and>
      xt_index s' = xt_index s" if "vo = Some v" preempt for v
  proof -
    from vo(2) [OF that] obtain c where "running s3 v = Some c" using sel by auto
    from sched_inv_yield [OF s3 _ this] vo(1) [OF that(1)] sel show ?thesis
      by (metis coroutine_yield_def)
  qed
  have eq: "vpu_ready vo t preempt s = (case vo of
      None \<Rightarrow> Inr (vpu_wakeup_one s3)
    | Some v \<Rightarrow>
        (case current (vpus s3 v) of
           None \<Rightarrow> if preempt then Inl NullDeref else Inr (vpu_wakeup_one s3)
         | Some c \<Rightarrow>
             if preempt \<and> co_prio (cos s3 c) > co_prio (cos s3 t) \<and> unat (alive s3) = xt_index s3
             then coroutine_yield v s3 else Inr (vpu_wakeup_one s3)))"
  proof -
    have "co_prio (cos (upd_co t (\<lambda>c. c\<lparr>co_status := READY\<rparr>) s) t) = p"
      "co_async_wait (cos (inc_ready p s1) t) = co_async_wait (cos s t)" by (simp_all add: p_def s1(6))
    with s1(1) assms(2) show ?thesis by (simp only: vpu_ready_def Let_def s3_def andthen.simps) simp
  qed
  have "\<exists>s'. vpu_ready vo t preempt s = Inr s' \<and> sched_inv s' \<and> co_status (cos s' t) = READY \<and> xt_index s' = xt_index s"
  proof (cases vo)
    case None
    then show ?thesis using wake eq by simp
  next
    case (Some v)
    have "current (vpus s3 v) \<noteq> None" using assms(1) vo(1) Some sel(3) by (simp add: sched_inv_def idle_ok_def)
    then show ?thesis using wake Some yield [OF Some] eq by auto
  qed
  then show ?thesis using that by blast
qed

lemma sched_inv_set_priority:
  assumes "sched_inv s" "v < xt_index s" "running s v = Some t" "p < TSC_PRIO_NUM"
  obtains s' where "coroutine_set_priority p v s = Inr s'" "sched_inv s'" "co_prio (cos s' t) = p"
    "xt_index s' = xt_index s"
proof -
  note t = runningD [OF assms(1-3)]
  let ?s = "upd_co t (\<lambda>c. c\<lparr>co_prio := p\<rparr>) s"
  have "sched_inv ?s"
  proof (rule sched_invI)
    show "task_inv (xt_index s) (queued s) (\<lambda>u. co_status (cos s u)) ((\<lambda>u. co_prio (cos s u))(t := p))
        (\<lambda>u. co_type (cos s u)) (ready s) (total_ready s) (running s)"
      using task_inv_prio [OF task_inv_sysD [OF assms(1)], of t p] t(1) assms(4) by simp
  qed (use assms t in \<open>auto simp: sched_inv_def idle_ok_upd_co\<close>)
  moreover have "coroutine_set_priority p v s = Inr ?s"
    using t assms(4) by (simp add: coroutine_set_priority_def coroutine_self_def)
  ultimately show ?thesis using that by simp
qed

lemma sched_inv_clock:
  assumes "sched_inv s" "v < xt_index s" "running s v = Some t"
  obtains s' where "vpu_clock_handler v s = Inr s'" "sched_inv s'" "xt_index s' = xt_index s"
    "running s' v = (if watchdog (vpus s v) + 1 > 5 then None else Some t)"
proof -
  define s1 where "s1 = upd_vpu v (\<lambda>r. r\<lparr>watchdog := watchdog r + 1\<rparr>) (upd_vpu v (\<lambda>r. r\<lparr>ticks := ticks r + 1\<rparr>) s)"
  have s1: "sched_inv s1" "v < xt_index s1" "running s1 v = Some t" "xt_index s1 = xt_index s"
    using sched_inv_cong [OF assms(1), of s1] assms(2,3) by (auto simp: s1_def running_def)
  have "current (vpus s v) \<noteq> scheduler (vpus s v)" using assms(3) by (auto simp: running_def)
  then have eq: "vpu_clock_handler v s = (if watchdog (vpus s v) + 1 > 5 then vpu_syscall core_yield v s1 else Inr s1)"
    by (simp add: vpu_clock_handler_def s1_def [symmetric] Let_def) (simp add: s1_def)
  show ?thesis
  proof (cases "watchdog (vpus s v) + 1 > 5")
    case True
    with eq s1 sched_inv_yield [OF s1(1-3)] that show ?thesis by (metis (full_types))
  next
    case False
    with eq s1 that show ?thesis by simp
  qed
qed

lemma sched_inv_allocate:
  assumes "sched_inv s" "prio < TSC_PRIO_NUM"
    and t: "co_status (cos s t) \<noteq> READY" "co_status (cos s t) \<noteq> RUNNING" "co_status (cos s t) \<noteq> WAIT"
    and vo: "\<And>v. vo = Some v \<Longrightarrow> v < xt_index s" "\<And>v. vo = Some v \<Longrightarrow> running s v \<noteq> None"
  obtains s' where "coroutine_allocate t entry args ty prio cleanup vo s = Inr s'" "sched_inv s'"
    "co_status (cos s' t) = (if ty = IDLE then WAIT else READY)" "xt_index s' = xt_index s"
proof -
  define c where "c = \<lparr>co_id = last_pid s + 1, co_type = ty, co_vpu_id = 0, co_affinity = of_nat (xt_index s),
     co_async_wait = False, co_status = WAIT, co_prio = (if ty = IDLE then TSC_PRIO_NUM else prio), co_syscall = False,
     co_backtrace = False, co_qtag = None, co_stack = (ty \<noteq> IDLE), co_entry = entry,
     co_arguments = args, co_cleanup = cleanup\<rparr>"
  have c: "co_status c = WAIT" "co_type c = ty" "co_prio c = (if ty = IDLE then TSC_PRIO_NUM else prio)"
    by (simp_all add: c_def)
  define s1 where "s1 = upd_co t (\<lambda>_. c) (s\<lparr>chans := (chans s)(t := async_chan_init blank_chan),
     rmem := refcnt_init t (rmem s), last_pid := last_pid s + 1\<rparr>)"
  define s2 where "s2 = (if ty = MAIN then (s1\<lparr>coroutine_list := coroutine_list s1 @ [t]\<rparr>)\<lparr>main_co := Some t\<rparr>
     else s1\<lparr>coroutine_list := coroutine_list s1 @ [t]\<rparr>)"
  have eq: "coroutine_allocate t entry args ty prio cleanup vo s = (if ty \<noteq> IDLE then vpu_ready vo t True s2 else Inr s1)"
    using assms(2) unfolding coroutine_allocate_def alloc_tid_def Let_def
    by (simp add: s1_def s2_def c_def)
  have run: "running s1 = running s" by (simp add: s1_def) (simp add: running_def fun_eq_iff)
  have s1: "sched_inv s1"
  proof (rule sched_invI)
    show "task_inv (xt_index s) (queued s) ((\<lambda>u. co_status (cos s u))(t := WAIT)) ((\<lambda>u. co_prio (cos s u))(t := co_prio c))
        ((\<lambda>u. co_type (cos s u))(t := ty)) (ready s) (total_ready s) (running s)"
      using task_inv_alloc [OF task_inv_sysD [OF assms(1)], of t ty "co_prio c"] t assms(2) by (simp add: c)
    show "idle_ok s1" using assms(1) t(3) c by (auto simp: sched_inv_def idle_ok_def s1_def)
    show "queues_ok s1" using assms(1) by (simp add: sched_inv_def s1_def) (simp add: queues_ok_def)
    show "queued s1 = queued s" by (simp add: s1_def) (simp add: queued_def ring_tasks_def fun_eq_iff)
  qed (use run c in \<open>simp_all add: s1_def\<close>)
  then have s2: "sched_inv s2" by (rule sched_inv_cong) (simp_all add: s2_def)
  have sel: "co_status (cos s2 t) = WAIT" "co_type (cos s2 t) = ty" "xt_index s2 = xt_index s" "running s2 = running s"
    "co_status (cos s1 t) = WAIT" "xt_index s1 = xt_index s"
    using c run by (simp_all add: s2_def s1_def running_def fun_eq_iff)
  show ?thesis
  proof (cases "ty = IDLE")
    case True
    with eq s1 sel that show ?thesis by simp
  next
    case False
    from sched_inv_ready [OF s2 sel(1), of vo True] vo sel False obtain s' where
      "vpu_ready vo t True s2 = Inr s'" "sched_inv s'" "co_status (cos s' t) = READY" "xt_index s' = xt_index s2"
      by (metis (full_types))
    with False eq sel that show ?thesis by simp
  qed
qed

lemma enqueue_frame:
  assumes "enqueue vo t p s = Inr s'"
  shows "locks s' = locks s \<and> descs s' = descs s \<and> chans s' = chans s \<and> quanta s' = quanta s \<and> mem s' = mem s \<and>
     rmem s' = rmem s \<and> num_op s' = num_op s \<and> cos s' = cos s \<and> xt_index s' = xt_index s \<and> main_co s' = main_co s \<and>
     coroutine_list s' = coroutine_list s \<and> alive s' = alive s \<and> idle s' = idle s \<and>
     (\<forall>w. current (vpus s' w) = current (vpus s w) \<and> scheduler (vpus s' w) = scheduler (vpus s w))"
  using assms by (cases vo) (auto simp: enqueue_def andthen_Inr_iff sched_simps split: if_splits)

text \<open>Without preemption \<open>vpu_ready\<close> is the same for VPUs and for other threads once the task is queued.\<close>

lemma vpu_ready_plain:
  "vpu_ready vo t False s = (if co_status (cos s t) \<noteq> WAIT then Inl AssertFail
     else andthen (enqueue vo t (co_prio (cos s t)) (upd_co t (\<lambda>c. c\<lparr>co_status := READY\<rparr>) s))
       (\<lambda>s1. Inr (vpu_wakeup_one (let s2 = inc_ready (co_prio (cos s t)) s1 in
          if co_async_wait (cos s2 t) then s2\<lparr>total_iowait := total_iowait s2 - 1\<rparr> else s2))))"
proof -
  have p: "co_prio (cos (upd_co t (\<lambda>c. c\<lparr>co_status := READY\<rparr>) s) t) = co_prio (cos s t)" by (simp add: upd_co_def)
  show ?thesis unfolding vpu_ready_def Let_def p by (auto intro!: arg_cong2 [of _ _ _ _ andthen] ext split: option.split)
qed

lemma vpu_ready_frame:
  assumes "vpu_ready vo t False s = Inr s'"
  shows "locks s' = locks s \<and> descs s' = descs s \<and> chans s' = chans s \<and> quanta s' = quanta s \<and> mem s' = mem s \<and>
     rmem s' = rmem s \<and> num_op s' = num_op s \<and> cos s' = (cos s)(t := (cos s t)\<lparr>co_status := READY\<rparr>) \<and>
     xt_index s' = xt_index s \<and> main_co s' = main_co s \<and> coroutine_list s' = coroutine_list s \<and>
     alive s' = alive s \<and> idle s' = idle s \<and>
     (\<forall>w. current (vpus s' w) = current (vpus s w) \<and> scheduler (vpus s' w) = scheduler (vpus s w))"
proof -
  from assms obtain s1 s3 where s1: "enqueue vo t (co_prio (cos s t)) (upd_co t (\<lambda>c. c\<lparr>co_status := READY\<rparr>) s) = Inr s1"
    and s3: "s3 = inc_ready (co_prio (cos s t)) s1 \<or>
      s3 = (inc_ready (co_prio (cos s t)) s1)\<lparr>total_iowait := total_iowait (inc_ready (co_prio (cos s t)) s1) - 1\<rparr>"
    and s': "s' = vpu_wakeup_one s3"
    by (auto simp: vpu_ready_def Let_def andthen_Inr_iff split: if_splits option.splits)
  note f = enqueue_frame [OF s1, simplified]
  from s3 show ?thesis
  proof
    assume "s3 = inc_ready (co_prio (cos s t)) s1"
    then show ?thesis using f by (simp add: s' vpu_wakeup_one_def inc_ready_def upd_co_def)
  next
    assume "s3 = (inc_ready (co_prio (cos s t)) s1)\<lparr>total_iowait := total_iowait (inc_ready (co_prio (cos s t)) s1) - 1\<rparr>"
    then show ?thesis using f by (simp add: s' vpu_wakeup_one_def inc_ready_def upd_co_def)
  qed
qed

lemma sched_inv_frame [simp]:
  "sched_inv (s\<lparr>locks := x1\<rparr>) \<longleftrightarrow> sched_inv s" "sched_inv (s\<lparr>rmem := x2\<rparr>) \<longleftrightarrow> sched_inv s"
  "sched_inv (s\<lparr>num_op := x3\<rparr>) \<longleftrightarrow> sched_inv s" "sched_inv (s\<lparr>descs := x4\<rparr>) \<longleftrightarrow> sched_inv s"
  "sched_inv (s\<lparr>chans := x5\<rparr>) \<longleftrightarrow> sched_inv s" "sched_inv (s\<lparr>quanta := x6\<rparr>) \<longleftrightarrow> sched_inv s"
  "sched_inv (s\<lparr>mem := x7\<rparr>) \<longleftrightarrow> sched_inv s" "sched_inv (s\<lparr>idle := x8\<rparr>) \<longleftrightarrow> sched_inv s"
  "sched_inv (s\<lparr>alive := x9\<rparr>) \<longleftrightarrow> sched_inv s"
  by (rule iffI; erule sched_inv_cong; simp)+

lemma running_frame [simp]:
  "running (s\<lparr>locks := x1\<rparr>) = running s" "running (s\<lparr>rmem := x2\<rparr>) = running s"
  "running (s\<lparr>num_op := x3\<rparr>) = running s" "running (s\<lparr>descs := x4\<rparr>) = running s"
  "running (s\<lparr>chans := x5\<rparr>) = running s" "running (s\<lparr>quanta := x6\<rparr>) = running s"
  "running (s\<lparr>mem := x7\<rparr>) = running s" "running (s\<lparr>idle := x8\<rparr>) = running s"
  "running (s\<lparr>alive := x9\<rparr>) = running s" "running (s\<lparr>cos := x10\<rparr>) = running s"
  by (simp_all add: running_def fun_eq_iff)

section \<open>The random number generator never gets stuck\<close>

lemma RNGMOD_val: "unat RNGMOD = 4294967291"
  by (simp add: RNGMOD_def push_bit_eq_mult)

lemma coprime_rng: "coprime (4294967291 :: nat) 69070"
  by (simp add: coprime_iff_gcd_eq_1 gcd_non_0_nat)

lemma unat_step: "unat ((RNGMUL * ucast (x :: u32)) mod RNGMOD) = 69070 * unat x mod 4294967291"
proof -
  have x: "unat x < 4294967296" using unsigned_less [of x] by simp
  then have "69070 * unat x < 2 ^ 64" by simp
  moreover have "unat (ucast x :: u64) = unat x"
    using x by (simp add: unsigned_ucast_eq take_bit_nat_def)
  ultimately show ?thesis by (simp add: unat_mod RNGMOD_val RNGMUL_def unat_word_ariths)
qed

lemma unat_ucast_small: "unat (w :: u64) < 4294967296 \<Longrightarrow> unat (ucast w :: u32) = unat w"
  by (simp add: unsigned_ucast_eq take_bit_nat_def)

definition seed_ok :: "u32 \<Rightarrow> bool" where
  "seed_ok x \<longleftrightarrow> 0 < unat x \<and> unat x < 4294967291"

lemma mysrand_ok: "seed_ok (rand_seed (vpus (mysrand v x s) v))"
proof -
  have u: "unat (ucast RNGMOD :: u32) = 4294967291" by (simp add: unat_ucast_small RNGMOD_val)
  then have lt: "unat (x mod ucast RNGMOD) < 4294967291" by (simp add: unat_mod)
  show ?thesis
  proof (cases "x mod ucast RNGMOD = 0")
    case True
    then show ?thesis by (simp add: mysrand_def seed_ok_def)
  next
    case False
    then have "unat (x mod ucast RNGMOD) \<noteq> 0" by (simp add: unat_eq_0)
    with False lt show ?thesis by (simp add: mysrand_def seed_ok_def)
  qed
qed

lemma myrand_ok:
  assumes "seed_ok (rand_seed (vpus s v))"
  shows "seed_ok (fst (myrand v s))" "rand_seed (vpus (snd (myrand v s)) v) = fst (myrand v s)"
    "unat (fst (myrand v s)) = 69070 * unat (rand_seed (vpus s v)) mod 4294967291"
proof -
  let ?x = "unat (rand_seed (vpus s v))"
  have "69070 * ?x mod 4294967291 < 4294967291" by (rule mod_less_divisor) simp
  then have "69070 * ?x mod 4294967291 < 4294967296" by linarith
  then show eq: "unat (fst (myrand v s)) = 69070 * ?x mod 4294967291"
    unfolding myrand_def Let_def fst_conv by (subst unat_ucast_small) (simp_all only: unat_step)
  have "\<not> 4294967291 dvd 69070 * ?x"
  proof
    assume "4294967291 dvd 69070 * ?x"
    then have "4294967291 dvd ?x" using coprime_rng coprime_dvd_mult_right_iff by blast
    then have "4294967291 \<le> ?x" using assms unfolding seed_ok_def by (intro dvd_imp_le) blast+
    then show False using assms unfolding seed_ok_def by linarith
  qed
  then show "seed_ok (fst (myrand v s))" unfolding seed_ok_def eq by (simp add: dvd_eq_mod_eq_0)
  show "rand_seed (vpus (snd (myrand v s)) v) = fst (myrand v s)" by (simp add: myrand_def Let_def)
qed

section \<open>A small system\<close>

text \<open>
  For the witnesses: two VPUs, the first of them running coroutine 1, the second in its scheduler; coroutines
  2 and 3 wait, coroutine 100 and 101 are the schedulers.
\<close>

definition example_co :: "co_type \<Rightarrow> co_status \<Rightarrow> nat \<Rightarrow> coroutine" where
  "example_co ty st p = \<lparr>co_id = 0, co_type = ty, co_vpu_id = 0, co_affinity = 2, co_async_wait = False, co_status = st,
     co_prio = p, co_syscall = False, co_backtrace = False, co_qtag = None, co_stack = True, co_entry = None,
     co_arguments = None, co_cleanup = None\<rparr>"

definition example_sys :: sys where
  "example_sys = \<lparr>
     vpus = (\<lambda>v. \<lparr>vpu_ident = v, vpu_initialized = True, watchdog = 0, ticks = 0, rand_seed = 1,
       current = Some (if v = 0 then 1 else 100 + v), scheduler = Some (100 + v), xt = (\<lambda>p. empty_ring 0), hold = None\<rparr>),
     gxt = (\<lambda>p. \<lparr>g_lock = False, g_tasks = []\<rparr>), ready = (\<lambda>p. 0), xt_index = 2, last_pid = 5, main_co = Some 1,
     coroutine_list = [1, 2, 3], alive = 2, idle = 1, total_ready = 0, total_iowait = 0, cond_signals = 0,
     exited = False,
     cos = (\<lambda>t. if t = 1 then example_co MAIN RUNNING 3
            else if t = 2 then example_co NORMAL WAIT 2
            else if t = 3 then example_co NORMAL WAIT 1
            else if t = 100 \<or> t = 101 then example_co IDLE WAIT 4
            else example_co NORMAL EXIT 2),
     locks = (\<lambda>l. False), chans = (\<lambda>c. blank_chan), quanta = (\<lambda>q. quantum_init 0 0 None False),
     mem = (\<lambda>a. Raw []), rmem = \<lparr>rc_count = (\<lambda>r. 1), rc_released = []\<rparr>,
     descs = (\<lambda>d. \<lparr>pd_done = False, pd_fd = 0, pd_mode = 3, pd_id = 0, pd_wait = Some (if d = 50 then 2 else 3)\<rparr>),
     num_op = 2\<rparr>"

lemma example_running: "running example_sys v = (if v = 0 then Some 1 else None)"
  by (auto simp: running_def example_sys_def)

lemma example_sched_inv: "sched_inv example_sys"
proof (rule sched_invI)
  show "task_inv 2 (\<lambda>p. {#}) (\<lambda>t. co_status (cos example_sys t)) (\<lambda>t. co_prio (cos example_sys t))
      (\<lambda>t. co_type (cos example_sys t)) (\<lambda>p. 0) 0 (\<lambda>v. if v = 0 then Some 1 else None)"
    by (auto simp: task_inv_def once_queued_def prio_ok_def counters_ok_def once_running_def
        example_sys_def example_co_def split: if_splits)
  show "queues_ok example_sys" by (simp add: queues_ok_def example_sys_def empty_ring_list)
  show "idle_ok example_sys" by (auto simp: idle_ok_def example_sys_def example_co_def less_2_cases_iff)
  show "queued example_sys = (\<lambda>p. {#})"
    by (simp add: fun_eq_iff queued_def ring_tasks_def example_sys_def empty_ring_list)
  show "running example_sys = (\<lambda>v. if v = 0 then Some 1 else None)" using example_running by blast
qed (simp_all add: example_sys_def fun_eq_iff)

section \<open>Properties\<close>

text \<open>
  The generator that picks the victims of work stealing never falls into its fixed point zero, whatever the
  seed: \<open>__mysrand\<close> puts the seed into the multiplicative group modulo \<open>2 ^ 32 - 5\<close> and the \<open>k\<close>-th call of
  \<open>__myrand\<close> yields \<open>69070 ^ k\<close> times the seed modulo that number, computed in 64 bits without overflow.
\<close>

theorem rand_sequence:
  "let s0 = mysrand v x s; y = rand_seed (vpus (((\<lambda>s. snd (myrand v s)) ^^ k) s0) v) in
   seed_ok y \<and> unat y = 69070 ^ k * unat (rand_seed (vpus s0 v)) mod 4294967291"
proof (induction k)
  case 0
  then show ?case using mysrand_ok [of v x s] by (simp add: Let_def seed_ok_def)
next
  case (Suc k)
  let ?s = "((\<lambda>s. snd (myrand v s)) ^^ k) (mysrand v x s)"
  from Suc have I: "seed_ok (rand_seed (vpus ?s v))"
    "unat (rand_seed (vpus ?s v)) = 69070 ^ k * unat (rand_seed (vpus (mysrand v x s) v)) mod 4294967291"
    by (simp_all add: Let_def)
  note m = myrand_ok [OF I(1)]
  have "69070 * (a mod 4294967291) mod 4294967291 = 69070 * a mod (4294967291 :: nat)" for a
    by (rule mod_mult_right_eq)
  then show ?case using m I(2) by (simp add: Let_def mult.assoc)
qed

end
