(* ===== verification/Netpoll.thy ===== *)
theory Netpoll
  imports Vpu
begin

unbundle bit_operations_syntax

text \<open>
  Waiting for file descriptors (\<^verbatim>\<open>src/netpoll.c\<close> with its back end \<^verbatim>\<open>src/netpoll_epoll.c\<close>,
  \<^verbatim>\<open>include/inter/netpoll.h\<close>). A coroutine registers a poll descriptor and goes to sleep holding its lock; a polling
  thread or the timer that marks the descriptor as done first wakes it.

  What \<open>epoll_wait\<close> reports is an argument of the polling function: the list of descriptors with their event
  bits. A call that suspends the coroutine is split in two, the part up to the suspension and the part after
  it. The lock of a descriptor is the lock at the descriptor's address.
\<close>

section \<open>Descriptors\<close>

definition TSC_NETPOLL_READ :: u32 where "TSC_NETPOLL_READ = 1"
definition TSC_NETPOLL_WRITE :: u32 where "TSC_NETPOLL_WRITE = 2"
definition TSC_NETPOLL_ERROR :: u32 where "TSC_NETPOLL_ERROR = 4"

text \<open>The bits of \<open>sys/epoll.h\<close>.\<close>

definition EPOLLIN :: u32 where "EPOLLIN = 0x1"
definition EPOLLOUT :: u32 where "EPOLLOUT = 0x4"
definition EPOLLERR :: u32 where "EPOLLERR = 0x8"
definition EPOLLRDHUP :: u32 where "EPOLLRDHUP = 0x2000"
definition EPOLLET :: u32 where "EPOLLET = 0x80000000"

lemmas poll_bits = TSC_NETPOLL_READ_def TSC_NETPOLL_WRITE_def TSC_NETPOLL_ERROR_def
  EPOLLIN_def EPOLLOUT_def EPOLLERR_def EPOLLRDHUP_def EPOLLET_def

definition upd_desc :: "addr \<Rightarrow> (poll_desc \<Rightarrow> poll_desc) \<Rightarrow> sys \<Rightarrow> sys" where
  "upd_desc d f s = s\<lparr>descs := (descs s)(d := f (descs s d))\<rparr>"

definition poll_desc_init :: "addr \<Rightarrow> int \<Rightarrow> u32 \<Rightarrow> nat option \<Rightarrow> sys \<Rightarrow> sys" where
  "poll_desc_init d fd mode vo s =
     (let s = upd_desc d (\<lambda>r. r\<lparr>pd_done := False, pd_fd := fd, pd_mode := mode, pd_wait := coroutine_self vo s\<rparr>) s in
      s\<lparr>locks := (locks s)(d := False), rmem := refcnt_init d (rmem s)\<rparr>)"

section \<open>The epoll back end\<close>

text \<open>The event mask that \<open>__coroc_netpoll_ctl\<close> passes to \<open>epoll_ctl\<close>.\<close>

definition netpoll_ctl :: "u32 \<Rightarrow> u32" where
  "netpoll_ctl mode =
     (let ev = EPOLLET;
          ev = (if mode AND TSC_NETPOLL_READ \<noteq> 0 then ev OR (EPOLLIN OR EPOLLRDHUP) else ev) in
      if mode AND TSC_NETPOLL_WRITE \<noteq> 0 then ev OR EPOLLOUT else ev)"

definition netpoll_add :: "addr \<Rightarrow> sys \<Rightarrow> sys" where
  "netpoll_add d s = s\<lparr>rmem := refcnt_get d (rmem s), num_op := num_op s + 1\<rparr>"

definition netpoll_rem :: "addr \<Rightarrow> sys \<Rightarrow> sys" where
  "netpoll_rem d s = s\<lparr>rmem := snd (refcnt_put (Some d) (rmem s)), num_op := num_op s - 1\<rparr>"

definition netpoll_size :: "sys \<Rightarrow> int" where
  "netpoll_size s = num_op s"

definition netpoll_wakeup :: "nat option \<Rightarrow> addr \<Rightarrow> sys \<Rightarrow> c_err + sys" where
  "netpoll_wakeup vo d s = andthen (lock_acquire_at d s)
     (\<lambda>s. let s = netpoll_rem d s; s = lock_release_at d s in
        case pd_wait (descs s d) of
          None \<Rightarrow> Inl AssertFail
        | Some w \<Rightarrow> vpu_ready vo w False s)"

text \<open>
  The loop of \<open>__coroc_netpoll_polling\<close>. The variable \<open>mode\<close> is declared before the loop and keeps its value
  from one descriptor to the next.
\<close>

definition event_mode :: "u32 \<Rightarrow> u32 \<Rightarrow> u32 \<Rightarrow> u32" where
  "event_mode mode want ev =
     (if ev AND EPOLLERR \<noteq> 0 then TSC_NETPOLL_ERROR
      else
        (let mode = (if want AND TSC_NETPOLL_READ \<noteq> 0 \<and> ev AND (EPOLLIN OR EPOLLRDHUP) \<noteq> 0
                     then mode OR TSC_NETPOLL_READ else mode) in
         if want AND TSC_NETPOLL_WRITE \<noteq> 0 \<and> ev AND EPOLLOUT \<noteq> 0
         then mode OR TSC_NETPOLL_WRITE else mode))"

fun poll_events :: "nat option \<Rightarrow> (addr \<times> u32) list \<Rightarrow> u32 \<Rightarrow> sys \<Rightarrow> c_err + sys" where
  "poll_events vo [] mode s = Inr s"
| "poll_events vo ((d, ev) # evs) mode s =
     (if pd_done (descs s d) then poll_events vo evs mode s
      else
        (let s = upd_desc d (\<lambda>r. r\<lparr>pd_done := True\<rparr>) s;
             mode = event_mode mode (pd_mode (descs s d)) ev;
             s = upd_desc d (\<lambda>r. r\<lparr>pd_mode := mode\<rparr>) s in
         andthen (netpoll_wakeup vo d s) (poll_events vo evs mode)))"

definition netpoll_polling :: "nat option \<Rightarrow> (addr \<times> u32) list \<Rightarrow> sys \<Rightarrow> c_err + (bool \<times> sys)" where
  "netpoll_polling vo events s =
     (if events = [] then Inr (False, s)
      else andthen (poll_events vo events 0 s) (\<lambda>s. Inr (True, s)))"

section \<open>Waiting\<close>

text \<open>\<open>coroc_net_wait\<close> up to its suspension, and after it; \<open>d\<close> is the freshly allocated descriptor.\<close>

definition net_wait :: "addr \<Rightarrow> int \<Rightarrow> u32 \<Rightarrow> nat \<Rightarrow> sys \<Rightarrow> c_err + sys" where
  "net_wait d fd mode v s =
     (let s = poll_desc_init d fd mode (Some v) s in
      andthen (lock_acquire_at d s) (\<lambda>s. vpu_suspend [d] v (netpoll_add d s)))"

definition net_wait_awaken :: "addr \<Rightarrow> sys \<Rightarrow> u32 \<times> sys" where
  "net_wait_awaken d s =
     (let mode = pd_mode (descs s d) in (mode, s\<lparr>rmem := snd (refcnt_put (Some d) (rmem s))\<rparr>))"

text \<open>The callback of the deadline timer.\<close>

definition netpoll_timeout :: "nat option \<Rightarrow> addr \<Rightarrow> sys \<Rightarrow> c_err + sys" where
  "netpoll_timeout vo d s = andthen (lock_acquire_at d s)
     (\<lambda>s.
        let succ = (\<not> pd_done (descs s d));
            s = (if succ
                 then netpoll_rem d (upd_desc d (\<lambda>r. r\<lparr>pd_mode := 0\<rparr>) (upd_desc d (\<lambda>r. r\<lparr>pd_done := True\<rparr>) s))
                 else s);
            s = lock_release_at d s in
        andthen
          (if succ
           then (case pd_wait (descs s d) of None \<Rightarrow> Inl AssertFail | Some w \<Rightarrow> vpu_ready vo w True s)
           else Inr s)
          (\<lambda>s. Inr (s\<lparr>rmem := snd (refcnt_put (Some d) (rmem s))\<rparr>)))"

text \<open>
  \<open>coroc_net_timedwait\<close>: the timer holds a reference of its own, dropped by the callback or, when the timer
  could still be deleted (\<open>deleted\<close>, the answer of \<open>coroc_del_intertimer\<close>), by the waiter.
  \<open>add_timer\<close> is the effect of \<open>coroc_add_intertimer\<close>.
\<close>

definition net_timedwait :: "(sys \<Rightarrow> c_err + sys) \<Rightarrow> addr \<Rightarrow> int \<Rightarrow> u32 \<Rightarrow> int \<Rightarrow> nat \<Rightarrow> sys \<Rightarrow> c_err + sys" where
  "net_timedwait add_timer d fd mode usec v s =
     (if \<not> 0 < usec then Inl AssertFail
      else
        (let s = poll_desc_init d fd mode (Some v) s;
             s = s\<lparr>rmem := refcnt_get d (rmem s)\<rparr> in
         andthen (lock_acquire_at d s)
           (\<lambda>s. andthen (add_timer (netpoll_add d s)) (\<lambda>s. vpu_suspend [d] v s))))"

definition net_timedwait_awaken :: "bool \<Rightarrow> addr \<Rightarrow> sys \<Rightarrow> u32 \<times> sys" where
  "net_timedwait_awaken deleted d s =
     (let s = (if deleted then s\<lparr>rmem := snd (refcnt_put (Some d) (rmem s))\<rparr> else s);
          mode = pd_mode (descs s d) in
      (mode, s\<lparr>rmem := snd (refcnt_put (Some d) (rmem s))\<rparr>))"

section \<open>Reading and writing\<close>

text \<open>
  The answers of the successive \<open>read\<close> (or \<open>write\<close>) calls are an argument. The functions return the result and the
  number of times the coroutine waited, or \<open>None\<close> while the answers given so far do not end the loops.
\<close>

datatype io_res = EAgain | EOther | Transfer nat

fun net_transfer :: "nat \<Rightarrow> nat \<Rightarrow> nat \<Rightarrow> io_res list \<Rightarrow> (int \<times> nat) option" where
  "net_transfer n got waits rs =
     (if \<not> got < n then Some (int got, waits)
      else (case rs of
          [] \<Rightarrow> None
        | EAgain # rs \<Rightarrow> net_transfer n got (Suc waits) rs
        | EOther # rs \<Rightarrow> Some (-1, waits)
        | Transfer 0 # rs \<Rightarrow> Some (int got, waits)
        | Transfer m # rs \<Rightarrow> net_transfer n (got + m) waits rs))"

definition net_read :: "nat \<Rightarrow> io_res list \<Rightarrow> (int \<times> nat) option" where
  "net_read n rs = net_transfer n 0 0 rs"

definition net_write :: "nat \<Rightarrow> io_res list \<Rightarrow> (int \<times> nat) option" where
  "net_write n rs = net_transfer n 0 0 rs"

text \<open>In \<open>coroc_net_timed_read\<close> the second list holds the answers of \<open>coroc_net_timedwait\<close>.\<close>

fun net_timed_read :: "io_res list \<Rightarrow> u32 list \<Rightarrow> int option" where
  "net_timed_read [] ws = None"
| "net_timed_read (EAgain # rs) [] = None"
| "net_timed_read (EAgain # rs) (w # ws) = (if w = 0 then Some (-1) else net_timed_read rs ws)"
| "net_timed_read (EOther # rs) ws = Some (-1)"
| "net_timed_read (Transfer m # rs) ws = Some (int m)"

section \<open>Waking a waiter\<close>

definition waiter_ok :: "sys \<Rightarrow> addr \<Rightarrow> bool" where
  "waiter_ok s d \<longleftrightarrow> \<not> locks s d \<and>
     (\<exists>w. pd_wait (descs s d) = Some w \<and> co_status (cos s w) = WAIT \<and> co_type (cos s w) \<noteq> IDLE)"

lemma netpoll_wakeup_ok:
  assumes inv: "sched_inv s" and w: "waiter_ok s d" "pd_wait (descs s d) = Some w"
    and vo: "\<And>v. vo = Some v \<Longrightarrow> v < xt_index s"
  obtains s' where "netpoll_wakeup vo d s = Inr s'" "sched_inv s'"
    "cos s' = (cos s)(w := (cos s w)\<lparr>co_status := READY\<rparr>)" "descs s' = descs s" "locks s' = locks s"
    "num_op s' = num_op s - 1" "rmem s' = snd (refcnt_put (Some d) (rmem s))" "xt_index s' = xt_index s"
    "running s' = running s"
proof -
  let ?s = "lock_release_at d (netpoll_rem d (s\<lparr>locks := (locks s)(d := True)\<rparr>))"
  have free: "\<not> locks s d" "co_status (cos s w) = WAIT" "co_type (cos s w) \<noteq> IDLE" using w by (auto simp: waiter_ok_def)
  then have eq: "netpoll_wakeup vo d s = vpu_ready vo w False ?s"
    using w(2) by (simp add: netpoll_wakeup_def lock_acquire_at_def Let_def) (simp add: lock_release_at_def netpoll_rem_def)
  have "sched_inv ?s" using inv by (simp add: lock_release_at_def netpoll_rem_def)
  from sched_inv_ready [OF this, of w vo False] free vo obtain s' where s': "vpu_ready vo w False ?s = Inr s'" "sched_inv s'"
    by (auto simp: lock_release_at_def netpoll_rem_def)
  from vpu_ready_frame [OF s'(1)] free(1) have
    "cos s' = (cos s)(w := (cos s w)\<lparr>co_status := READY\<rparr>)" "descs s' = descs s" "locks s' = locks s"
    "num_op s' = num_op s - 1" "rmem s' = snd (refcnt_put (Some d) (rmem s))" "xt_index s' = xt_index s"
    "running s' = running s"
    by (auto simp: lock_release_at_def netpoll_rem_def fun_eq_iff running_def)
  with that s' eq show ?thesis by simp
qed

definition waiters_ok :: "sys \<Rightarrow> addr set \<Rightarrow> bool" where
  "waiters_ok s D \<longleftrightarrow> (\<forall>d\<in>D. \<not> pd_done (descs s d) \<longrightarrow> waiter_ok s d) \<and>
     (\<forall>d\<in>D. \<forall>e\<in>D. \<not> pd_done (descs s d) \<and> \<not> pd_done (descs s e) \<and>
        pd_wait (descs s d) = pd_wait (descs s e) \<longrightarrow> d = e)"

definition pending :: "sys \<Rightarrow> addr set \<Rightarrow> addr set" where
  "pending s D = {d \<in> D. \<not> pd_done (descs s d)}"

lemma poll_events_step:
  fixes mode ev :: u32
  assumes inv: "sched_inv s" and ok: "waiters_ok s D" "d \<in> D" and vo: "\<forall>v. vo = Some v \<longrightarrow> v < xt_index s"
    and d: "\<not> pd_done (descs s d)"
  defines "m \<equiv> event_mode mode (pd_mode (descs s d)) ev"
  shows "\<exists>s2 w. poll_events vo ((d, ev) # evs) mode s = poll_events vo evs m s2 \<and> sched_inv s2 \<and>
    waiters_ok s2 D \<and> pd_wait (descs s d) = Some w \<and>
    descs s2 = (descs s)(d := (descs s d)\<lparr>pd_done := True, pd_mode := m\<rparr>) \<and>
    cos s2 = (cos s)(w := (cos s w)\<lparr>co_status := READY\<rparr>) \<and> num_op s2 = num_op s - 1 \<and> xt_index s2 = xt_index s \<and>
    running s2 = running s"
proof -
  define s1 where "s1 = upd_desc d (\<lambda>r. r\<lparr>pd_mode := m\<rparr>) (upd_desc d (\<lambda>r. r\<lparr>pd_done := True\<rparr>) s)"
  have w0: "waiter_ok s d" using ok d by (auto simp: waiters_ok_def)
  then obtain w where w: "pd_wait (descs s d) = Some w" by (auto simp: waiter_ok_def)
  have s1: "sched_inv s1" "waiter_ok s1 d" "pd_wait (descs s1 d) = Some w" "xt_index s1 = xt_index s"
    "cos s1 = cos s" "num_op s1 = num_op s" "locks s1 = locks s" "running s1 = running s"
    "descs s1 = (descs s)(d := (descs s d)\<lparr>pd_done := True, pd_mode := m\<rparr>)"
    using inv w0 w by (auto simp: s1_def upd_desc_def waiter_ok_def running_def fun_eq_iff)
  obtain s2 where s2: "netpoll_wakeup vo d s1 = Inr s2" "sched_inv s2"
    "cos s2 = (cos s)(w := (cos s w)\<lparr>co_status := READY\<rparr>)" "descs s2 = descs s1" "locks s2 = locks s"
    "num_op s2 = num_op s - 1" "xt_index s2 = xt_index s" "running s2 = running s"
    by (rule netpoll_wakeup_ok [OF s1(1-3), of vo]) (use s1 vo in simp_all)
  have sel: "\<And>e. pd_done (descs s1 e) \<longleftrightarrow> pd_done (descs s e) \<or> e = d" "\<And>e. pd_wait (descs s1 e) = pd_wait (descs s e)"
    using s1(9) by auto
  have "waiters_ok s2 D"
    using ok d w s2(3,4,5) sel unfolding waiters_ok_def waiter_ok_def by simp metis
  moreover have "poll_events vo ((d, ev) # evs) mode s = poll_events vo evs m s2"
    using d s2(1) by (simp add: Let_def s1_def [symmetric] m_def [symmetric]) (simp add: s1_def m_def upd_desc_def)
  ultimately show ?thesis using s2 s1(9) w by auto
qed

lemma poll_events_ok:
  assumes "sched_inv s" "waiters_ok s D" "fst ` set evs \<subseteq> D" "\<And>v. vo = Some v \<Longrightarrow> v < xt_index s"
  shows "\<exists>s'. poll_events vo evs mode s = Inr s' \<and> sched_inv s' \<and> waiters_ok s' D \<and> running s' = running s \<and>
     xt_index s' = xt_index s \<and>
     (\<forall>d. pd_done (descs s' d) \<longleftrightarrow> pd_done (descs s d) \<or> d \<in> fst ` set evs) \<and>
     (\<forall>t. co_status (cos s' t) = (if Some t \<in> (\<lambda>d. pd_wait (descs s d)) ` pending s (fst ` set evs) then READY
        else co_status (cos s t))) \<and>
     num_op s' = num_op s - int (card (pending s (fst ` set evs)))"
  using assms
proof (induction evs arbitrary: mode s)
  case Nil
  then show ?case by (auto simp: pending_def)
next
  case (Cons de evs)
  obtain d ev where de: "de = (d, ev)" by fastforce
  show ?case
  proof (cases "pd_done (descs s d)")
    case True
    then have p: "pending s (fst ` set (de # evs)) = pending s (fst ` set evs)" by (auto simp: pending_def de)
    from Cons.IH [OF Cons.prems(1,2), of mode] Cons.prems(3,4) True show ?thesis unfolding p by (auto simp: de)
  next
    case False
    define m where "m = event_mode mode (pd_mode (descs s d)) ev"
    have dD: "d \<in> D" using Cons.prems(3) by (simp add: de)
    obtain s2 w where s2: "poll_events vo (de # evs) mode s = poll_events vo evs m s2" "sched_inv s2"
      "waiters_ok s2 D" "pd_wait (descs s d) = Some w"
      "descs s2 = (descs s)(d := (descs s d)\<lparr>pd_done := True, pd_mode := m\<rparr>)"
      "cos s2 = (cos s)(w := (cos s w)\<lparr>co_status := READY\<rparr>)" "num_op s2 = num_op s - 1" "xt_index s2 = xt_index s"
      "running s2 = running s"
      using poll_events_step [OF Cons.prems(1,2) dD _ False, of vo ev evs mode] Cons.prems(4) unfolding de m_def by blast
    have wt: "\<And>e. pd_wait (descs s2 e) = pd_wait (descs s e)" by (simp add: s2(5))
    have d2: "pending s (fst ` set (de # evs)) = insert d (pending s2 (fst ` set evs))" "d \<notin> pending s2 (fst ` set evs)"
      using False s2(5) by (auto simp: pending_def de)
    have fin: "finite (pending s2 (fst ` set evs))" by (simp add: pending_def)
    from Cons.IH [OF s2(2,3), of m] Cons.prems(3,4) s2(8) obtain s' where s':
      "poll_events vo evs m s2 = Inr s'" "sched_inv s'"
      "\<forall>d. pd_done (descs s' d) \<longleftrightarrow> pd_done (descs s2 d) \<or> d \<in> fst ` set evs"
      "\<forall>t. co_status (cos s' t) = (if Some t \<in> (\<lambda>d. pd_wait (descs s2 d)) ` pending s2 (fst ` set evs) then READY
          else co_status (cos s2 t))"
      "num_op s' = num_op s2 - int (card (pending s2 (fst ` set evs)))"
      "waiters_ok s' D" "running s' = running s2" "xt_index s' = xt_index s2" by auto
    have "\<forall>t. co_status (cos s' t) = (if Some t \<in> (\<lambda>d. pd_wait (descs s d)) ` pending s (fst ` set (de # evs))
        then READY else co_status (cos s t))"
      unfolding d2(1) using s'(4) wt s2(4,6) by auto
    moreover have "\<forall>e. pd_done (descs s' e) \<longleftrightarrow> pd_done (descs s e) \<or> e \<in> fst ` set (de # evs)"
      using s'(3) s2(5) by (auto simp: de)
    ultimately show ?thesis using s' s2(1,7,8,9) d2 fin by auto
  qed
qed

section \<open>Properties\<close>

text \<open>
  Claim C40. One pass of the poller wakes each reported waiter exactly once. Whatever the order of the events and however
  often a descriptor is reported, the pass succeeds (no lock is taken twice, no assertion of \<open>vpu_ready\<close> fails),
  keeps the scheduler's invariant, marks every reported descriptor as done, makes the waiters of those that were not
  done ready and no other task, and decreases the number of registered operations by their number.
\<close>

theorem netpoll_polling_wakes_once:
  assumes "sched_inv s" "waiters_ok s (fst ` set evs)" "\<And>v. vo = Some v \<Longrightarrow> v < xt_index s"
  shows "\<exists>s'. netpoll_polling vo evs s = Inr (evs \<noteq> [], s') \<and> sched_inv s' \<and>
     (\<forall>d. pd_done (descs s' d) \<longleftrightarrow> pd_done (descs s d) \<or> d \<in> fst ` set evs) \<and>
     (\<forall>t. co_status (cos s' t) = (if Some t \<in> (\<lambda>d. pd_wait (descs s d)) ` pending s (fst ` set evs) then READY
        else co_status (cos s t))) \<and>
     netpoll_size s' = netpoll_size s - int (card (pending s (fst ` set evs)))"
proof (cases "evs = []")
  case True
  then show ?thesis using assms(1) by (simp add: netpoll_polling_def pending_def)
next
  case False
  from poll_events_ok [OF assms(1,2) order_refl, of vo 0] assms(3) obtain s' where "poll_events vo evs 0 s = Inr s' \<and> sched_inv s' \<and>
     (\<forall>d. pd_done (descs s' d) \<longleftrightarrow> pd_done (descs s d) \<or> d \<in> fst ` set evs) \<and>
     (\<forall>t. co_status (cos s' t) = (if Some t \<in> (\<lambda>d. pd_wait (descs s d)) ` pending s (fst ` set evs) then READY
        else co_status (cos s t))) \<and>
     num_op s' = num_op s - int (card (pending s (fst ` set evs)))" by blast
  with False show ?thesis by (simp add: netpoll_polling_def netpoll_size_def)
qed

lemma example_waiters: "waiters_ok example_sys {50, 51}"
  by (auto simp: waiters_ok_def waiter_ok_def example_sys_def example_co_def)

theorem netpoll_polling_wakes_once_witness:
  "\<exists>s'. netpoll_polling (Some 1) [(50, EPOLLIN), (51, EPOLLOUT), (50, EPOLLERR)] example_sys = Inr (True, s') \<and>
     co_status (cos s' 2) = READY \<and> co_status (cos s' 3) = READY \<and> netpoll_size s' = 0"
proof -
  have p: "pending example_sys {50, 51} = {50, 51}" by (auto simp: pending_def example_sys_def)
  have i: "insert 50 (insert 51 {50 :: nat}) = {50, 51}" by auto
  have v: "(1 :: nat) < xt_index example_sys" "netpoll_size example_sys = 2"
    "pd_wait (descs example_sys 50) = Some 2" "pd_wait (descs example_sys 51) = Some 3"
    by (simp_all add: example_sys_def netpoll_size_def)
  from netpoll_polling_wakes_once [OF example_sched_inv, of "[(50, EPOLLIN), (51, EPOLLOUT), (50, EPOLLERR)]" "Some 1"]
    example_waiters v show ?thesis by (auto simp: p i)
qed

text \<open>
  What a waiter is told. The first descriptor of a pass gets exactly the conditions it asked for that the event
  reports, or the error flag. But the variable that collects the answer is not reset between descriptors: every
  later descriptor whose event is no error also gets all bits of the descriptor before it, so a
  coroutine waiting to write can be told that its descriptor is readable, or in error.
\<close>

theorem event_mode_leaks:
  assumes "sched_inv s" "waiters_ok s {d, e}" "\<And>v. vo = Some v \<Longrightarrow> v < xt_index s" "d \<noteq> e"
    "\<not> pd_done (descs s d)" "\<not> pd_done (descs s e)"
  shows "\<exists>s'. netpoll_polling vo [(d, x), (e, y)] s = Inr (True, s') \<and>
     pd_mode (descs s' d) = (if x AND EPOLLERR \<noteq> 0 then TSC_NETPOLL_ERROR
       else (if pd_mode (descs s d) AND TSC_NETPOLL_READ \<noteq> 0 \<and> x AND (EPOLLIN OR EPOLLRDHUP) \<noteq> 0
             then TSC_NETPOLL_READ else 0) OR
            (if pd_mode (descs s d) AND TSC_NETPOLL_WRITE \<noteq> 0 \<and> x AND EPOLLOUT \<noteq> 0 then TSC_NETPOLL_WRITE else 0)) \<and>
     (y AND EPOLLERR = 0 \<longrightarrow>
        pd_mode (descs s' e) = pd_mode (descs s' d) OR event_mode 0 (pd_mode (descs s e)) y)"
proof -
  have w: "waiters_ok s (fst ` set [(d, x), (e, y)])" using assms(2) by simp
  have dD: "d \<in> fst ` set [(d, x), (e, y)]" "e \<in> fst ` set [(d, x), (e, y)]" by auto
  define m where "m = event_mode 0 (pd_mode (descs s d)) x"
  define n where "n = event_mode m (pd_mode (descs s e)) y"
  obtain s2 where s2: "poll_events vo [(d, x), (e, y)] 0 s = poll_events vo [(e, y)] m s2" "sched_inv s2"
      "waiters_ok s2 (fst ` set [(d, x), (e, y)])" "descs s2 = (descs s)(d := (descs s d)\<lparr>pd_done := True, pd_mode := m\<rparr>)"
      "xt_index s2 = xt_index s"
    using poll_events_step [OF assms(1) w dD(1) _ assms(5), of vo x "[(e, y)]" 0] assms(3) unfolding m_def by blast
  have e: "\<not> pd_done (descs s2 e)" "n = event_mode m (pd_mode (descs s2 e)) y" "\<And>v. vo = Some v \<Longrightarrow> v < xt_index s2"
    using assms(3,4,6) s2(4,5) by (auto simp: n_def)
  obtain s3 where s3: "poll_events vo [(e, y)] m s2 = poll_events vo [] n s3"
      "descs s3 = (descs s2)(e := (descs s2 e)\<lparr>pd_done := True, pd_mode := n\<rparr>)"
    using poll_events_step [OF s2(2,3) dD(2) _ e(1), of vo y "[]" m] e(3) unfolding e(2) [symmetric] by blast
  have "y AND EPOLLERR = 0 \<Longrightarrow> n = m OR event_mode 0 (pd_mode (descs s e)) y"
    by (auto simp: n_def event_mode_def Let_def or.assoc)
  moreover have "m = (if x AND EPOLLERR \<noteq> 0 then TSC_NETPOLL_ERROR
       else (if pd_mode (descs s d) AND TSC_NETPOLL_READ \<noteq> 0 \<and> x AND (EPOLLIN OR EPOLLRDHUP) \<noteq> 0
             then TSC_NETPOLL_READ else 0) OR
            (if pd_mode (descs s d) AND TSC_NETPOLL_WRITE \<noteq> 0 \<and> x AND EPOLLOUT \<noteq> 0 then TSC_NETPOLL_WRITE else 0))"
    by (simp add: m_def event_mode_def Let_def)
  ultimately show ?thesis using s2(1,4) s3 assms(4) by (simp add: netpoll_polling_def)
qed

theorem event_mode_leaks_witness:
  "\<exists>s'. netpoll_polling (Some 1) [(50, EPOLLERR), (51, EPOLLOUT)] example_sys = Inr (True, s') \<and>
     pd_mode (descs s' 51) = TSC_NETPOLL_ERROR OR TSC_NETPOLL_WRITE"
proof -
  have d: "\<not> pd_done (descs example_sys 50)" "\<not> pd_done (descs example_sys 51)" "pd_mode (descs example_sys 51) = 3"
    by (simp_all add: example_sys_def)
  from event_mode_leaks [OF example_sched_inv example_waiters _ _ d(1,2), where vo = "Some 1" and x = EPOLLERR and y = EPOLLOUT]
  obtain s' where "netpoll_polling (Some 1) [(50, EPOLLERR), (51, EPOLLOUT)] example_sys = Inr (True, s')"
    "pd_mode (descs s' 50) = TSC_NETPOLL_ERROR" "pd_mode (descs s' 51) = pd_mode (descs s' 50) OR event_mode 0 3 EPOLLOUT"
    by (auto simp: d(3)) (auto simp: example_sys_def poll_bits)
  then show ?thesis by (auto simp: event_mode_def poll_bits)
qed

text \<open>The kernel transfers no more than it was asked for.\<close>

fun answers_ok :: "nat \<Rightarrow> io_res list \<Rightarrow> bool" where
  "answers_ok left [] = True"
| "answers_ok left (Transfer m # rs) = (m \<le> left \<and> answers_ok (left - m) rs)"
| "answers_ok left (r # rs) = answers_ok left rs"

lemma net_transfer_spec:
  assumes "answers_ok (n - got) rs" "got \<le> n" "net_transfer n got w rs = Some (r, w')"
  shows "r = (-1) \<and> EOther \<in> set rs \<or> (\<exists>k. r = int k \<and> k \<le> n \<and> (k < n \<longrightarrow> Transfer 0 \<in> set rs))"
  using assms
proof (induction n got w rs rule: net_transfer.induct)
  case (1 n got w rs)
  show ?case
  proof (cases "got < n")
    case False
    with 1 show ?thesis by auto
  next
    case True
    then show ?thesis using 1
      by (cases rs; cases "hd rs") (auto split: nat.splits if_splits)
  qed
qed

lemma net_transfer_returns:
  assumes "EOther \<in> set rs \<or> Transfer 0 \<in> set rs"
  shows "\<exists>r w'. net_transfer n got w rs = Some (r, w')"
  using assms
proof (induction n got w rs rule: net_transfer.induct)
  case (1 n got w rs)
  then show ?case by (cases rs; cases "hd rs") (auto split: nat.splits)
qed

text \<open>
  \<open>coroc_net_read\<close> and \<open>coroc_net_write\<close>, given answers of the kernel that transfer no more than was asked for:
  whenever the call returns it reports an error as \<open>-1\<close> or the number of bytes transferred, which never exceeds the size
  of the buffer and falls short of it only at end of file. And it does return once the kernel reports an
  error or the end of the file, if not before.
\<close>

theorem net_read_bounds:
  assumes "answers_ok n rs"
  shows "(\<forall>r w. net_read n rs = Some (r, w) \<longrightarrow> r = (-1) \<and> EOther \<in> set rs \<or>
       (\<exists>k. r = int k \<and> k \<le> n \<and> (k < n \<longrightarrow> Transfer 0 \<in> set rs))) \<and>
     (EOther \<in> set rs \<or> Transfer 0 \<in> set rs \<longrightarrow> (\<exists>r w. net_read n rs = Some (r, w))) \<and>
     net_write n rs = net_read n rs"
  using net_transfer_spec [of n 0 rs 0] net_transfer_returns [of rs n 0 0] assms
  by (auto simp: net_read_def net_write_def)

theorem net_read_bounds_witness:
  "answers_ok 10 [EAgain, Transfer 4, EAgain, Transfer 0] \<and>
   (\<exists>r w. net_read 10 [EAgain, Transfer 4, EAgain, Transfer 0] = Some (r, w)) \<and>
   net_read 10 [EAgain, Transfer 4, EAgain, Transfer 0] = Some (4, 2)"
proof -
  have a: "answers_ok 10 [EAgain, Transfer 4, EAgain, Transfer 0]" by simp
  moreover have "net_read 10 [EAgain, Transfer 4, EAgain, Transfer 0] = Some (4, 2)" by (simp add: net_read_def)
  ultimately show ?thesis using net_read_bounds [OF a] by simp
qed

end
