(* ===== verification/Core_Sched.thy ===== *)
theory Core_Sched
  imports Netpoll
begin

text \<open>
  The scheduler loop (\<^verbatim>\<open>src/vpu.c\<close>, lines 165 to 352 and 414 to 525, and \<open>vpu_backtrace\<close>): electing a task from the
  private ring, the global queue or another VPU's ring, the scan over the priorities, dispatching, the
  decision what an idle VPU does, and the start of the runtime.

  \<open>core_sched\<close> never returns; its body is a step of the model. What the polls of a scan report is an
  argument, one list of events for each priority.
\<close>

section \<open>Electing a task\<close>

definition random_steal :: "nat \<Rightarrow> nat \<Rightarrow> sys \<Rightarrow> c_err + (tid option \<times> sys)" where
  "random_steal v prio s = (case myrand v s of (r, s) \<Rightarrow>
     let victim_id = unat (r mod of_nat (xt_index s)) in
     if victim_id = vpu_ident (vpus s v) then Inr (None, s)
     else andthen (runqsteal (xt (vpus s v) prio) (xt (vpus s victim_id) prio))
       (\<lambda>(task, q, q'). Inr (task, set_xt victim_id prio q' (set_xt v prio q s))))"

text \<open>The first argument counts the attempts left after this one.\<close>

primrec steal_loop :: "nat \<Rightarrow> nat \<Rightarrow> nat \<Rightarrow> sys \<Rightarrow> c_err + (tid option \<times> sys)" where
  "steal_loop 0 v prio s = random_steal v prio s"
| "steal_loop (Suc k) v prio s = andthen (random_steal v prio s)
     (\<lambda>(c, s). if c \<noteq> None then Inr (c, s) else steal_loop k v prio s)"

text \<open>
  \<open>failure_time++ > MAX_STEALING_FAIL_NUM\<close> ends the loop after \<open>2 * xt_index + 2\<close> attempts. A held lock
  makes \<open>lock_try_acquire\<close> fail, ten times, and the global queue is passed over.
\<close>

definition core_elect :: "nat \<Rightarrow> nat \<Rightarrow> sys \<Rightarrow> c_err + (tid option \<times> sys)" where
  "core_elect v prio s = (case runqget (xt (vpus s v) prio) of
       (Some t, q) \<Rightarrow> Inr (Some t, set_xt v prio q s)
     | (None, q) \<Rightarrow>
         andthen
           (if g_tasks (gxt s prio) = [] \<or> g_lock (gxt s prio) then Inr (None, s)
            else andthen (gq_fetch (xt (vpus s v) prio) (gxt s prio))
              (\<lambda>(c, q, g). Inr (c, set_gxt prio g (set_xt v prio q s))))
           (\<lambda>(c, s). if c = None then steal_loop (2 * xt_index s + 1) v prio s else Inr (c, s)))"

section \<open>Dispatching\<close>

definition dispatch :: "nat \<Rightarrow> nat \<Rightarrow> tid \<Rightarrow> sys \<Rightarrow> c_err + sys" where
  "dispatch v prio t s =
     (if co_prio (cos s t) \<noteq> prio then Inl AssertFail
      else
        (let s = s\<lparr>idle := idle s - 1\<rparr>;
             s = dec_ready (co_prio (cos s t)) s;
             vid = of_nat (vpu_ident (vpus s v));
             s = upd_co t (\<lambda>c. c\<lparr>co_syscall := False, co_status := RUNNING, co_async_wait := False,
                   co_vpu_id := vid, co_affinity := vid\<rparr>) s in
         Inr (upd_vpu v (\<lambda>r. r\<lparr>current := Some t\<rparr>) s)))"

text \<open>One pass over the priorities, from the highest; the task that was dispatched, if any.\<close>

fun sched_scan :: "nat \<Rightarrow> (nat \<Rightarrow> (addr \<times> u32) list) \<Rightarrow> nat list \<Rightarrow> sys \<Rightarrow> c_err + (tid option \<times> sys)" where
  "sched_scan v polls [] s = Inr (None, s)"
| "sched_scan v polls (p # ps) s =
     (if ready s p = 0 then sched_scan v polls ps s
      else (case runqget (xt (vpus s v) p) of
          (Some t, q) \<Rightarrow> andthen (dispatch v p t (set_xt v p q s)) (\<lambda>s. Inr (Some t, s))
        | (None, q) \<Rightarrow>
            andthen (netpoll_polling (Some v) (polls p) s)
              (\<lambda>(_, s). andthen (core_elect v p s)
                (\<lambda>(c, s). case c of
                   None \<Rightarrow> sched_scan v polls ps s
                 | Some t \<Rightarrow> andthen (dispatch v p t s) (\<lambda>s. Inr (Some t, s))))))"

definition sched_pass :: "nat \<Rightarrow> (nat \<Rightarrow> (addr \<times> u32) list) \<Rightarrow> sys \<Rightarrow> c_err + (tid option \<times> sys)" where
  "sched_pass v polls s = sched_scan v polls [0..<TSC_PRIO_NUM] s"

text \<open>The entry of \<open>core_sched\<close>.\<close>

definition core_sched_enter :: "nat \<Rightarrow> sys \<Rightarrow> sys" where
  "core_sched_enter v s = upd_vpu v (\<lambda>r. r\<lparr>watchdog := 0\<rparr>) (s\<lparr>idle := idle s + 1\<rparr>)"

section \<open>Nothing to run\<close>

fun backtrace_loop :: "nat \<Rightarrow> addr list \<Rightarrow> sys \<Rightarrow> c_err + sys" where
  "backtrace_loop v [] s = Inr (s\<lparr>coroutine_list := []\<rparr>)"
| "backtrace_loop v (t # ts) s =
     (if Some t = main_co s then backtrace_loop v ts s
      else
        (let s = upd_co t (\<lambda>c. c\<lparr>co_backtrace := True\<rparr>) s; p = co_prio (cos s t) in
         andthen (runqput (xt (vpus s v) p) t (gxt s p))
           (\<lambda>(q, g). backtrace_loop v ts (set_gxt p g (set_xt v p q s)))))"

definition vpu_backtrace :: "nat \<Rightarrow> sys \<Rightarrow> c_err + sys" where
  "vpu_backtrace v s = andthen (backtrace_loop v (coroutine_list s) s)
     (\<lambda>s. case main_co s of
        None \<Rightarrow> Inl NullDeref
      | Some m \<Rightarrow>
          (let s = upd_co m (\<lambda>c. c\<lparr>co_backtrace := True\<rparr>) s; p = co_prio (cos s m) in
           andthen (runqput (xt (vpus s v) p) m (gxt s p))
             (\<lambda>(q, g). Inr (set_gxt p g (set_xt v p q s)))))"

text \<open>
  What the VPU does after two passes without a task: it sleeps on the condition variable, or polls until
  something becomes ready, or reports the deadlock, or just goes on.
\<close>

datatype idle_step = Sleeps sys | Polls sys | GoesOn sys

definition core_sched_idle :: "nat \<Rightarrow> sys \<Rightarrow> c_err + idle_step" where
  "core_sched_idle v s =
     (let s = s\<lparr>alive := alive s - 1\<rparr> in
      if alive s > 0 \<or> (total_ready s = 0 \<and> total_iowait s > 0)
      then Inr (Sleeps (s\<lparr>idle := idle s - 1\<rparr>))
      else if total_ready s = 0
      then
        (if netpoll_size s > 0 then Inr (Polls (s\<lparr>alive := alive s + 1\<rparr>))
         else andthen (vpu_backtrace v s) (\<lambda>s. Inr (GoesOn (s\<lparr>alive := alive s + 1\<rparr>))))
      else Inr (GoesOn (s\<lparr>alive := alive s + 1\<rparr>)))"

text \<open>A VPU that slept continues when it is woken.\<close>

definition core_sched_wake :: "sys \<Rightarrow> sys" where
  "core_sched_wake s = s\<lparr>idle := idle s + 1, alive := alive s + 1\<rparr>"

section \<open>Starting the runtime\<close>

definition per_vpu_initalize :: "nat \<Rightarrow> addr \<Rightarrow> sys \<Rightarrow> c_err + sys" where
  "per_vpu_initalize v sch s =
     (let s = upd_vpu v (\<lambda>r. r\<lparr>vpu_ident := v, ticks := 0, watchdog := 0\<rparr>) s;
          s = mysrand v (of_nat (vpu_ident (vpus s v)) + 1) s;
          s = upd_vpu v (\<lambda>r. r\<lparr>xt := \<lambda>p. if p < TSC_PRIO_NUM then priv_task_queue_init (xt r p) p else xt r p\<rparr>) s in
      andthen (coroutine_allocate sch None None IDLE 0 None (Some v) s)
        (\<lambda>s. Inr (upd_vpu v (\<lambda>r. r\<lparr>current := Some sch, scheduler := Some sch, vpu_initialized := True\<rparr>) s)))"

fun vpus_initialize :: "addr list \<Rightarrow> nat \<Rightarrow> sys \<Rightarrow> c_err + sys" where
  "vpus_initialize [] v s = Inr s"
| "vpus_initialize (sch # schs) v s = andthen (per_vpu_initalize v sch s) (vpus_initialize schs (Suc v))"

text \<open>\<open>m\<close> and \<open>schs\<close> are the addresses the allocator returns for the main coroutine and the schedulers.\<close>

definition vpu_initialize :: "addr \<Rightarrow> addr list \<Rightarrow> ptr \<Rightarrow> sys \<Rightarrow> c_err + sys" where
  "vpu_initialize m schs entry s =
     (let s = s\<lparr>xt_index := length schs, last_pid := 0,
            gxt := (\<lambda>p. if p < TSC_PRIO_NUM then \<lparr>g_lock = False, g_tasks = []\<rparr> else gxt s p),
            ready := (\<lambda>p. if p \<le> TSC_PRIO_NUM then 0 else ready s p), coroutine_list := [],
            alive := of_nat (length schs), idle := 0, total_ready := 0\<rparr> in
      andthen (coroutine_allocate m entry None MAIN 3 None None s) (vpus_initialize schs 0))"

section \<open>Taking a task out of the queues\<close>

definition same_frame :: "sys \<Rightarrow> sys \<Rightarrow> bool" where
  "same_frame s s' \<longleftrightarrow> cos s' = cos s \<and> ready s' = ready s \<and> total_ready s' = total_ready s \<and> xt_index s' = xt_index s \<and>
     (\<forall>w. current (vpus s' w) = current (vpus s w) \<and> scheduler (vpus s' w) = scheduler (vpus s w) \<and>
        vpu_ident (vpus s' w) = vpu_ident (vpus s w))"

text \<open>The task in the hands of the scheduler, if any, is all that is missing from the queues.\<close>

definition taken :: "sys \<Rightarrow> sys \<Rightarrow> nat \<Rightarrow> tid option \<Rightarrow> bool" where
  "taken s s' p c \<longleftrightarrow> same_frame s s' \<and> queues_ok s' \<and> queued s = (queued s')(p := queued s' p + mset (opt_list c)) \<and>
     descs s' = descs s \<and> locks s' = locks s \<and>
     (\<forall>p'. p' \<noteq> p \<longrightarrow> gxt s' p' = gxt s p' \<and> (\<forall>w. xt (vpus s' w) p' = xt (vpus s w) p'))"

lemma same_frame_simps [simp]:
  "same_frame s s" "same_frame s (set_xt v p q s')  = same_frame s s'" "same_frame s (set_gxt p g s') = same_frame s s'"
  by (auto simp: same_frame_def sched_simps)

lemma only_prio [simp]:
  "p' \<noteq> p \<Longrightarrow> xt (vpus (set_xt v p q s) w) p' = xt (vpus s w) p'" "p' \<noteq> p \<Longrightarrow> gxt (set_gxt p g s) p' = gxt s p'"
  "descs (set_xt v p q s) = descs s" "locks (set_xt v p q s) = locks s"
  "descs (set_gxt p g s) = descs s" "locks (set_gxt p g s) = locks s"
  "descs (upd_vpu v f s) = descs s" "locks (upd_vpu v f s) = locks s"
  by (simp_all add: sched_simps)

lemma taken_refl: "queues_ok s \<Longrightarrow> taken s s p None"
  by (simp add: taken_def)

lemma taken_trans: "taken s s1 p None \<Longrightarrow> taken s1 s2 p c \<Longrightarrow> taken s s2 p c"
  by (auto simp: taken_def same_frame_def fun_eq_iff)

lemma queued_set_xt:
  assumes "v < xt_index s"
  shows "queued (set_xt v p q s) p + mset (rq_list (xt (vpus s v) p)) = queued s p + mset (rq_list q)"
    and "p' \<noteq> p \<Longrightarrow> queued (set_xt v p q s) p' = queued s p'"
proof -
  obtain R where "ring_tasks s p = mset (rq_list (xt (vpus s v) p)) + R" using ring_tasks_split [OF assms] by blast
  then show "queued (set_xt v p q s) p + mset (rq_list (xt (vpus s v) p)) = queued s p + mset (rq_list q)"
    "p' \<noteq> p \<Longrightarrow> queued (set_xt v p q s) p' = queued s p'"
    using ring_tasks_set_xt [OF assms, of p q] by (simp_all add: queued_def)
qed

lemma taken_get:
  assumes "queues_ok s" "v < xt_index s" "p < TSC_PRIO_NUM" "runqget (xt (vpus s v) p) = (c, q)"
  shows "taken s (set_xt v p q s) p c" "c = None \<Longrightarrow> rq_list (xt (vpus s v) p) = []"
proof -
  have "rq_inv (xt (vpus s v) p)" using assms(1-3) by (simp add: queues_ok_def)
  from ring.get_law [OF this] assms(4) have q: "rq_inv q" "rq_list (xt (vpus s v) p) = opt_list c @ rq_list q"
    "c = None \<longleftrightarrow> rq_list (xt (vpus s v) p) = []" by auto
  then show "c = None \<Longrightarrow> rq_list (xt (vpus s v) p) = []" by simp
  have "queued s p = queued (set_xt v p q s) p + mset (opt_list c)"
    using queued_set_xt(1) [OF assms(2), of p q] q(2) by (simp add: add.commute add.left_commute)
  then show "taken s (set_xt v p q s) p c"
    using assms(1) q queued_set_xt(2) [OF assms(2), of _ p q] by (auto simp: taken_def queues_ok_set fun_eq_iff)
qed

lemma taken_fetch:
  assumes "queues_ok s" "v < xt_index s" "p < TSC_PRIO_NUM" "rq_list (xt (vpus s v) p) = []" "g_tasks (gxt s p) \<noteq> []"
  obtains t q g where "gq_fetch (xt (vpus s v) p) (gxt s p) = Inr (Some t, q, g)"
    "taken s (set_gxt p g (set_xt v p q s)) p (Some t)"
proof -
  obtain t ts where ts: "g_tasks (gxt s p) = t # ts" using assms(5) by (cases "g_tasks (gxt s p)") auto
  have "rq_inv (xt (vpus s v) p)" "\<not> g_lock (gxt s p)" using assms(1-3) by (simp_all add: queues_ok_def)
  from gq_fetch_spec [OF this(1) assms(4) this(2) ts] this(2) obtain q g where
    q: "gq_fetch (xt (vpus s v) p) (gxt s p) = Inr (Some t, q, g)" "rq_inv q" "\<not> g_lock g"
      "rq_list q = take 510 ts" "g_tasks g = drop 510 ts" by fastforce
  have m: "mset ts = mset (take 510 ts) + mset (drop 510 ts)" by (metis append_take_drop_id mset_append)
  have "ring_tasks (set_xt v p q s) p = mset (take 510 ts) + ring_tasks s p"
    "\<And>p'. p' \<noteq> p \<Longrightarrow> ring_tasks (set_xt v p q s) p' = ring_tasks s p'"
    using ring_tasks_set_xt [OF assms(2), of p q] assms(4) q(4) by simp_all
  then have "queued s = (queued (set_gxt p g (set_xt v p q s)))(p := queued (set_gxt p g (set_xt v p q s)) p + {#t#})"
    using q(5) ts m by (auto simp: fun_eq_iff queued_set_gxt queued_def)
  with that [OF q(1)] assms(1) q show ?thesis by (simp add: taken_def queues_ok_set)
qed

lemma taken_steal:
  assumes "queues_ok s" "idle_ok s" "v < xt_index s" "p < TSC_PRIO_NUM" "rq_list (xt (vpus s v) p) = []"
  obtains c s' where "random_steal v p s = Inr (c, s')" "taken s s' p c" "c = None \<Longrightarrow> rq_list (xt (vpus s' v) p) = []"
proof -
  obtain r s1 where r: "myrand v s = (r, s1)" by fastforce
  then have "s1 = upd_vpu v (\<lambda>x. x\<lparr>rand_seed := r\<rparr>) s" by (auto simp: myrand_def Let_def)
  then have s1: "taken s s1 p None" "queues_ok s1" "xt_index s1 = xt_index s" "vpu_ident (vpus s1 v) = v"
    "xt (vpus s1 v) = xt (vpus s v)"
    using assms(1-3) by (auto simp: taken_def same_frame_def idle_ok_def)
  define w where "w = unat (r mod of_nat (xt_index s1))"
  have w: "w < xt_index s1" using assms(1,3) s1(3) by (simp add: w_def unat_mod queues_ok_def)
  show ?thesis
  proof (cases "w = v")
    case True
    with that [of None s1] r s1 assms(5) show ?thesis by (simp add: random_steal_def w_def Let_def)
  next
    case False
    have rq: "rq_inv (xt (vpus s1 v) p)" "rq_inv (xt (vpus s1 w) p)" "rq_list (xt (vpus s1 v) p) = []"
      using s1(2,3,5) w assms(3-5) unfolding queues_ok_def by metis+
    from ring.steal_law [OF this] obtain c q q' where st: "runqsteal (xt (vpus s1 v) p) (xt (vpus s1 w) p) = Inr (c, q, q')"
      "rq_inv q" "rq_inv q'" "c = None \<longleftrightarrow> rq_list (xt (vpus s1 w) p) = []"
      "rq_list (xt (vpus s1 w) p) = rq_list q @ opt_list c @ rq_list q'" by blast
    let ?s = "set_xt w p q' (set_xt v p q s1)"
    have v1: "v < xt_index s1" "w < xt_index (set_xt v p q s1)" "xt (vpus (set_xt v p q s1) w) = xt (vpus s1 w)"
      using assms(3) s1(3) w False by (simp_all add: sched_simps)
    have "queued s1 p = queued ?s p + mset (opt_list c)"
      using queued_set_xt(1) [OF v1(1), of p q] queued_set_xt(1) [OF v1(2), of p q'] v1(3) st(5) rq(3)
      by (simp add: algebra_simps)
    then have "taken s1 ?s p c"
      using s1(2) st queued_set_xt(2) [OF v1(1), of _ p q] queued_set_xt(2) [OF v1(2), of _ p q']
      by (auto simp: taken_def queues_ok_set fun_eq_iff)
    then have "taken s ?s p c" by (rule taken_trans [OF s1(1)])
    moreover have "random_steal v p s = Inr (c, ?s)"
      using r s1(4) False st(1) by (simp add: random_steal_def w_def Let_def)
    moreover have "c = None \<Longrightarrow> rq_list (xt (vpus ?s v) p) = []"
      using False st(4,5) by (simp add: sched_simps)
    ultimately show ?thesis using that by blast
  qed
qed

lemma taken_steal_loop:
  assumes "queues_ok s" "idle_ok s" "v < xt_index s" "p < TSC_PRIO_NUM" "rq_list (xt (vpus s v) p) = []"
  shows "\<exists>c s'. steal_loop k v p s = Inr (c, s') \<and> taken s s' p c"
  using assms
proof (induction k arbitrary: s)
  case 0
  then show ?case using taken_steal [OF 0] by (metis steal_loop.simps(1))
next
  case (Suc k)
  from taken_steal [OF Suc.prems] obtain c s1 where s1: "random_steal v p s = Inr (c, s1)" "taken s s1 p c"
    "c = None \<Longrightarrow> rq_list (xt (vpus s1 v) p) = []" by metis
  show ?case
  proof (cases c)
    case None
    have "queues_ok s1" "idle_ok s1" "v < xt_index s1"
      using s1(2) Suc.prems(2,3) by (auto simp: taken_def same_frame_def idle_ok_def)
    from Suc.IH [OF this Suc.prems(4) s1(3)] None s1 show ?thesis
      by (auto intro: taken_trans)
  qed (use s1 in auto)
qed

text \<open>The tasks a VPU finds without stealing, in the order in which it takes them.\<close>

definition local_tasks :: "sys \<Rightarrow> nat \<Rightarrow> nat \<Rightarrow> tid list" where
  "local_tasks s v p = rq_list (xt (vpus s v) p) @ g_tasks (gxt s p)"

lemma core_elect_ok:
  assumes q: "queues_ok s" "idle_ok s" and v: "v < xt_index s" and p: "p < TSC_PRIO_NUM"
  shows "\<exists>c s'. core_elect v p s = Inr (c, s') \<and> taken s s' p c \<and>
     (local_tasks s v p \<noteq> [] \<longrightarrow> c = Some (hd (local_tasks s v p)))"
proof -
  obtain c q where g: "runqget (xt (vpus s v) p) = (c, q)" by fastforce
  note t = taken_get [OF assms(1) v p g]
  have inv: "rq_inv (xt (vpus s v) p)" "\<not> g_lock (gxt s p)" using assms by (simp_all add: queues_ok_def)
  show ?thesis
  proof (cases c)
    case (Some x)
    have "\<exists>xs. rq_list (xt (vpus s v) p) = x # xs" using ring.get_law [OF inv(1)] g Some by auto
    then show ?thesis using g t Some by (auto simp: core_elect_def local_tasks_def)
  next
    case None
    note e = t(2) [OF this]
    show ?thesis
    proof (cases "g_tasks (gxt s p) = []")
      case True
      then show ?thesis using taken_steal_loop [OF assms e] g None e
        by (simp add: core_elect_def local_tasks_def del: steal_loop.simps)
    next
      case False
      from taken_fetch [OF q(1) v p e False] obtain x q' g' where
        f: "gq_fetch (xt (vpus s v) p) (gxt s p) = Inr (Some x, q', g')" "taken s (set_gxt p g' (set_xt v p q' s)) p (Some x)"
        by blast
      moreover have "x = hd (g_tasks (gxt s p))"
        using gq_fetch_spec [OF inv(1) e inv(2), of "hd (g_tasks (gxt s p))" "tl (g_tasks (gxt s p))"] False f(1) by auto
      ultimately show ?thesis using g None False inv(2) e by (simp add: core_elect_def local_tasks_def)
    qed
  qed
qed

section \<open>Dispatching keeps the invariant\<close>

lemma idle_ok_current: "idle_ok s \<Longrightarrow> idle_ok (upd_vpu v (\<lambda>r. r\<lparr>current := Some t\<rparr>) s)"
  by (auto simp: idle_ok_def)

lemma dispatch_ok:
  assumes inv: "sched_inv s" and t: "taken s s1 p (Some t)" and p: "p < TSC_PRIO_NUM"
    and v: "v < xt_index s" "running s v = None"
  shows "\<exists>s'. dispatch v p t s1 = Inr s' \<and> sched_inv s' \<and> running s' = (running s)(v := Some t) \<and>
     xt_index s' = xt_index s \<and> co_status (cos s t) = READY \<and> co_prio (cos s t) = p"
proof -
  note I = task_inv_sysD [OF inv]
  have Q: "t \<in># queued s p" "queued s1 = (queued s)(p := queued s p - {#t#})"
    using t by (auto simp: taken_def fun_eq_iff)
  note st = task_inv_queuedD [OF I Q(1) p]
  have f: "cos s1 = cos s" "ready s1 = ready s" "total_ready s1 = total_ready s" "xt_index s1 = xt_index s"
    "queues_ok s1" "\<And>w. current (vpus s1 w) = current (vpus s w)" "\<And>w. scheduler (vpus s1 w) = scheduler (vpus s w)"
    "\<And>w. vpu_ident (vpus s1 w) = vpu_ident (vpus s w)"
    using t by (auto simp: taken_def same_frame_def)
  define vid :: u8 where "vid = of_nat (vpu_ident (vpus s v))"
  define s' where "s' = upd_vpu v (\<lambda>r. r\<lparr>current := Some t\<rparr>) (upd_co t (\<lambda>c. c\<lparr>co_syscall := False, co_status := RUNNING,
     co_async_wait := False, co_vpu_id := vid, co_affinity := vid\<rparr>) (dec_ready p (s1\<lparr>idle := idle s1 - 1\<rparr>)))"
  have "dispatch v p t s1 = Inr s'"
    using st f by (simp add: dispatch_def s'_def vid_def Let_def)
  moreover have run: "running s' = (running s)(v := Some t)"
  proof -
    have "Some t \<noteq> scheduler (vpus s v)"
      using inv v(1) st(1) by (auto simp: sched_inv_def idle_ok_def)
    then show ?thesis using f by (auto simp: fun_eq_iff running_def s'_def dec_ready_def)
  qed
  moreover have "sched_inv s'"
  proof (rule sched_invI)
    show "task_inv (xt_index s) ((queued s)(p := queued s p - {#t#})) ((\<lambda>u. co_status (cos s u))(t := RUNNING))
        (\<lambda>u. co_prio (cos s u)) (\<lambda>u. co_type (cos s u)) ((ready s)(p := ready s p - 1)) (total_ready s - 1)
        ((running s)(v := Some t))"
      by (rule task_inv_dispatch [OF I Q(1) p v])
    have "queued (s1\<lparr>idle := idle s1 - 1\<rparr>) = queued s1" by (simp add: fun_eq_iff queued_def ring_tasks_def)
    then show "queued s' = (queued s)(p := queued s p - {#t#})" using Q(2) by (simp add: s'_def)
    have "queues_ok (s1\<lparr>idle := idle s1 - 1\<rparr>) = queues_ok s1" by (simp add: queues_ok_def)
    then show "queues_ok s'" using f(5) by (simp add: s'_def)
    have "idle_ok (dec_ready p (s1\<lparr>idle := idle s1 - 1\<rparr>))"
      using inv f by (simp add: sched_inv_def idle_ok_def dec_ready_def)
    then show "idle_ok s'" unfolding s'_def
      by (intro idle_ok_current idle_ok_upd_co) (simp_all add: f(1) st(1))
  qed (use run f in \<open>simp_all add: s'_def\<close>)
  ultimately show ?thesis using st f by (simp add: s'_def)
qed

section \<open>The scan\<close>

lemma taken_None_inv:
  assumes "sched_inv s" "taken s s1 p None"
  shows "sched_inv s1" "running s1 = running s" "xt_index s1 = xt_index s" "queued s1 = queued s" "cos s1 = cos s"
    "descs s1 = descs s" "locks s1 = locks s" "ready s1 = ready s"
proof -
  show f: "running s1 = running s" "xt_index s1 = xt_index s" "queued s1 = queued s" "cos s1 = cos s"
    "descs s1 = descs s" "locks s1 = locks s" "ready s1 = ready s"
    using assms(2) by (auto simp: taken_def same_frame_def running_def fun_eq_iff)
  with assms show "sched_inv s1" by (auto simp: sched_inv_def taken_def same_frame_def idle_ok_def)
qed

lemma waiters_ok_cong:
  "cos s1 = cos s \<Longrightarrow> descs s1 = descs s \<Longrightarrow> locks s1 = locks s \<Longrightarrow> waiters_ok s1 D = waiters_ok s D"
  by (simp add: waiters_ok_def waiter_ok_def)

lemma netpoll_polling_inv:
  assumes "sched_inv s" "waiters_ok s D" "fst ` set evs \<subseteq> D" "v < xt_index s"
  shows "\<exists>b s'. netpoll_polling (Some v) evs s = Inr (b, s') \<and> sched_inv s' \<and> waiters_ok s' D \<and> running s' = running s \<and>
     xt_index s' = xt_index s"
  using poll_events_ok [OF assms(1-3), of "Some v" 0] assms by (auto simp: netpoll_polling_def)

lemma sched_scan_ok:
  assumes "sched_inv s" "v < xt_index s" "running s v = None" "waiters_ok s D"
    "\<forall>p\<in>set ps. p < TSC_PRIO_NUM \<and> fst ` set (polls p) \<subseteq> D"
  shows "\<exists>c s'. sched_scan v polls ps s = Inr (c, s') \<and> sched_inv s' \<and> running s' v = c \<and>
     (\<forall>w. w \<noteq> v \<longrightarrow> running s' w = running s w) \<and> xt_index s' = xt_index s"
  using assms
proof (induction ps arbitrary: s)
  case Nil
  then show ?case by simp
next
  case (Cons p ps)
  have p: "p < TSC_PRIO_NUM" "fst ` set (polls p) \<subseteq> D" using Cons.prems(5) by auto
  show ?case
  proof (cases "ready s p = 0")
    case True
    with Cons.IH [OF Cons.prems(1-4)] Cons.prems(5) show ?thesis by simp
  next
    case r: False
    obtain c q where g: "runqget (xt (vpus s v) p) = (c, q)" by fastforce
    have "queues_ok s" using Cons.prems(1) by (simp add: sched_inv_def)
    note t = taken_get [OF this Cons.prems(2) p(1) g]
    show ?thesis
    proof (cases c)
      case (Some x)
      with dispatch_ok [OF Cons.prems(1) t(1) [unfolded Some] p(1) Cons.prems(2,3)] r g show ?thesis by auto
    next
      case None
      obtain b s1 where s1: "netpoll_polling (Some v) (polls p) s = Inr (b, s1)" "sched_inv s1" "waiters_ok s1 D"
        "running s1 = running s" "xt_index s1 = xt_index s"
        using netpoll_polling_inv [OF Cons.prems(1,4) p(2) Cons.prems(2)] by blast
      have v1: "v < xt_index s1" "running s1 v = None" "queues_ok s1" "idle_ok s1"
        using s1 Cons.prems(2,3) by (auto simp: sched_inv_def)
      obtain c' s2 where s2: "core_elect v p s1 = Inr (c', s2)" "taken s1 s2 p c'"
        using core_elect_ok [OF v1(3,4,1) p(1)] by blast
      have eq: "sched_scan v polls (p # ps) s = (case c' of None \<Rightarrow> sched_scan v polls ps s2
          | Some t \<Rightarrow> andthen (dispatch v p t s2) (\<lambda>s. Inr (Some t, s)))"
        using r g None s1(1) s2(1) by simp
      show ?thesis
      proof (cases c')
        case (Some x)
        with dispatch_ok [OF s1(2) s2(2) [unfolded Some] p(1) v1(1,2)] s1(4,5) eq show ?thesis by auto
      next
        case None
        note n = taken_None_inv [OF s1(2) s2(2) [unfolded None]]
        have "v < xt_index s2" "running s2 v = None" "waiters_ok s2 D"
          using n v1 s1 waiters_ok_cong [of s2 s1 D] by simp_all
        from Cons.IH [OF n(1) this] Cons.prems(5) eq None n(2,3) s1(4,5) show ?thesis by auto
      qed
    qed
  qed
qed

lemma sched_scan_priority:
  assumes "sched_inv s" "v < xt_index s" "running s v = None" "sorted_wrt (<) ps" "\<forall>p\<in>set ps. p < TSC_PRIO_NUM"
    "\<forall>p<TSC_PRIO_NUM. size (queued s p) < 2 ^ 32" "sched_scan v (\<lambda>_. []) ps s = Inr (c, s')"
  shows "case c of None \<Rightarrow> \<forall>p\<in>set ps. local_tasks s v p = []
    | Some t \<Rightarrow> co_status (cos s t) = READY \<and> co_prio (cos s t) \<in> set ps \<and>
       (\<forall>p\<in>set ps. p < co_prio (cos s t) \<longrightarrow> local_tasks s v p = []) \<and>
       (local_tasks s v (co_prio (cos s t)) \<noteq> [] \<longrightarrow> t = hd (local_tasks s v (co_prio (cos s t))))"
  using assms
proof (induction ps arbitrary: s)
  case Nil
  then show ?case by simp
next
  case (Cons p ps)
  have p: "p < TSC_PRIO_NUM" using Cons.prems(5) by auto
  have I: "queues_ok s" "idle_ok s" using Cons.prems(1) by (auto simp: sched_inv_def)
  have wf: "sorted_wrt (<) ps" "\<forall>p\<in>set ps. p < TSC_PRIO_NUM" "\<forall>x\<in>set ps. p < x" using Cons.prems(4,5) by auto
  have sub: "mset (local_tasks s v p) \<subseteq># queued s p"
    using ring_subset [OF Cons.prems(2), of p] by (simp add: local_tasks_def queued_def subset_mset.add_right_mono)
  show ?case
  proof (cases "ready s p = 0")
    case True
    then have "queued s p = {#}"
      using Cons.prems(1,6) p by (simp add: sched_inv_def task_inv_def counters_ok_def)
    then have "local_tasks s v p = []" using sub by simp
    with Cons.IH [OF Cons.prems(1-3) wf(1,2) Cons.prems(6)] Cons.prems(7) True wf(3) show ?thesis
      by (auto split: option.splits)
  next
    case r: False
    obtain c1 q where g: "runqget (xt (vpus s v) p) = (c1, q)" by fastforce
    note t = taken_get [OF I(1) Cons.prems(2) p g]
    show ?thesis
    proof (cases c1)
      case (Some x)
      have inv: "rq_inv (xt (vpus s v) p)" using I p Cons.prems(2) by (simp add: queues_ok_def)
      have "\<exists>xs. rq_list (xt (vpus s v) p) = x # xs" using ring.get_law [OF inv] g Some by auto
      with dispatch_ok [OF Cons.prems(1) t(1) [unfolded Some] p Cons.prems(2,3)] r g Some Cons.prems(7)
      show ?thesis by (auto simp: local_tasks_def dest!: bspec [OF wf(3)])
    next
      case None
      obtain c2 s2 where s2: "core_elect v p s = Inr (c2, s2)" "taken s s2 p c2"
        "local_tasks s v p \<noteq> [] \<longrightarrow> c2 = Some (hd (local_tasks s v p))"
        using core_elect_ok [OF I Cons.prems(2) p] by blast
      have eq: "sched_scan v (\<lambda>_. []) (p # ps) s = (case c2 of None \<Rightarrow> sched_scan v (\<lambda>_. []) ps s2
          | Some t \<Rightarrow> andthen (dispatch v p t s2) (\<lambda>s. Inr (Some t, s)))"
        using r g None s2(1) by (simp add: netpoll_polling_def)
      show ?thesis
      proof (cases c2)
        case (Some x)
        with dispatch_ok [OF Cons.prems(1) s2(2) [unfolded Some] p Cons.prems(2,3)] eq Cons.prems(7) s2(3)
        show ?thesis by (auto dest!: bspec [OF wf(3)])
      next
        case None
        note n = taken_None_inv [OF Cons.prems(1) s2(2) [unfolded None]]
        have same: "local_tasks s2 v p' = local_tasks s v p'" if "p' \<in> set ps" for p'
          using s2(2) wf(3) that by (auto simp: local_tasks_def taken_def)
        have "case c of None \<Rightarrow> \<forall>p\<in>set ps. local_tasks s2 v p = []
          | Some t \<Rightarrow> co_status (cos s2 t) = READY \<and> co_prio (cos s2 t) \<in> set ps \<and>
             (\<forall>p\<in>set ps. p < co_prio (cos s2 t) \<longrightarrow> local_tasks s2 v p = []) \<and>
             (local_tasks s2 v (co_prio (cos s2 t)) \<noteq> [] \<longrightarrow> t = hd (local_tasks s2 v (co_prio (cos s2 t))))"
          using Cons.IH [OF n(1) _ _ wf(1,2)] Cons.prems(2,3,6,7) n(2-4) eq None by simp
        then show ?thesis using same n(5) None s2(3) by (auto split: option.splits)
      qed
    qed
  qed
qed

section \<open>The initial state\<close>

lemma per_vpu_initalize_ok:
  "\<exists>s'. per_vpu_initalize v sch s = Inr s' \<and> (\<forall>t. t \<noteq> sch \<longrightarrow> cos s' t = cos s t) \<and>
     co_type (cos s' sch) = IDLE \<and> co_status (cos s' sch) = WAIT \<and>
     gxt s' = gxt s \<and> ready s' = ready s \<and> total_ready s' = total_ready s \<and> xt_index s' = xt_index s \<and>
     coroutine_list s' = coroutine_list s \<and>
     (\<forall>w. w \<noteq> v \<longrightarrow> vpus s' w = vpus s w) \<and>
     vpu_ident (vpus s' v) = v \<and> current (vpus s' v) = Some sch \<and> scheduler (vpus s' v) = Some sch \<and>
     seed_ok (rand_seed (vpus s' v)) \<and>
     (\<forall>p<TSC_PRIO_NUM. xt (vpus s' v) p = priv_task_queue_init (xt (vpus s v) p) p)"
  using mysrand_ok [of v "of_nat v + 1" "upd_vpu v (\<lambda>r. r\<lparr>vpu_ident := v, ticks := 0, watchdog := 0\<rparr>) s"]
  by (simp add: per_vpu_initalize_def coroutine_allocate_def alloc_tid_def mysrand_def Let_def upd_vpu_def upd_co_def)

lemma vpus_initialize_ok:
  assumes "distinct schs"
  shows "\<exists>s'. vpus_initialize schs v s = Inr s' \<and>
     gxt s' = gxt s \<and> ready s' = ready s \<and> total_ready s' = total_ready s \<and> xt_index s' = xt_index s \<and>
     coroutine_list s' = coroutine_list s \<and>
     (\<forall>t. t \<notin> set schs \<longrightarrow> cos s' t = cos s t) \<and>
     (\<forall>t\<in>set schs. co_type (cos s' t) = IDLE \<and> co_status (cos s' t) = WAIT) \<and>
     (\<forall>w<v. vpus s' w = vpus s w) \<and>
     (\<forall>i<length schs. vpu_ident (vpus s' (v + i)) = v + i \<and> current (vpus s' (v + i)) = Some (schs ! i) \<and>
        scheduler (vpus s' (v + i)) = Some (schs ! i) \<and> seed_ok (rand_seed (vpus s' (v + i))) \<and>
        (\<forall>p<TSC_PRIO_NUM. xt (vpus s' (v + i)) p = priv_task_queue_init (xt (vpus s (v + i)) p) p))"
  using assms
proof (induction schs arbitrary: v s)
  case Nil
  then show ?case by simp
next
  case (Cons sch schs)
  from per_vpu_initalize_ok [of v sch s] obtain s1 where
    s1: "per_vpu_initalize v sch s = Inr s1" "\<And>t. t \<noteq> sch \<Longrightarrow> cos s1 t = cos s t"
     "co_type (cos s1 sch) = IDLE" "co_status (cos s1 sch) = WAIT"
     "gxt s1 = gxt s" "ready s1 = ready s" "total_ready s1 = total_ready s" "xt_index s1 = xt_index s"
     "coroutine_list s1 = coroutine_list s" "\<And>w. w \<noteq> v \<Longrightarrow> vpus s1 w = vpus s w"
     "vpu_ident (vpus s1 v) = v" "current (vpus s1 v) = Some sch" "scheduler (vpus s1 v) = Some sch"
     "seed_ok (rand_seed (vpus s1 v))"
     "\<And>p. p < TSC_PRIO_NUM \<Longrightarrow> xt (vpus s1 v) p = priv_task_queue_init (xt (vpus s v) p) p"
    by blast
  from Cons.prems have d: "sch \<notin> set schs" "distinct schs" by auto
  from Cons.IH [OF d(2), of "Suc v" s1] obtain s' where
    s': "vpus_initialize schs (Suc v) s1 = Inr s'" "gxt s' = gxt s1" "ready s' = ready s1" "total_ready s' = total_ready s1"
     "xt_index s' = xt_index s1" "coroutine_list s' = coroutine_list s1"
     "\<And>t. t \<notin> set schs \<Longrightarrow> cos s' t = cos s1 t" "\<And>t. t \<in> set schs \<Longrightarrow> co_type (cos s' t) = IDLE \<and> co_status (cos s' t) = WAIT"
     "\<And>w. w < Suc v \<Longrightarrow> vpus s' w = vpus s1 w"
     "\<And>i. i < length schs \<Longrightarrow> vpu_ident (vpus s' (Suc v + i)) = Suc v + i \<and> current (vpus s' (Suc v + i)) = Some (schs ! i) \<and>
        scheduler (vpus s' (Suc v + i)) = Some (schs ! i) \<and> seed_ok (rand_seed (vpus s' (Suc v + i))) \<and>
        (\<forall>p<TSC_PRIO_NUM. xt (vpus s' (Suc v + i)) p = priv_task_queue_init (xt (vpus s1 (Suc v + i)) p) p)"
    by blast
  have "\<forall>i<length (sch # schs). vpu_ident (vpus s' (v + i)) = v + i \<and> current (vpus s' (v + i)) = Some ((sch # schs) ! i) \<and>
        scheduler (vpus s' (v + i)) = Some ((sch # schs) ! i) \<and> seed_ok (rand_seed (vpus s' (v + i))) \<and>
        (\<forall>p<TSC_PRIO_NUM. xt (vpus s' (v + i)) p = priv_task_queue_init (xt (vpus s (v + i)) p) p)"
  proof (intro allI impI)
    fix i
    assume "i < length (sch # schs)"
    then show "vpu_ident (vpus s' (v + i)) = v + i \<and> current (vpus s' (v + i)) = Some ((sch # schs) ! i) \<and>
        scheduler (vpus s' (v + i)) = Some ((sch # schs) ! i) \<and> seed_ok (rand_seed (vpus s' (v + i))) \<and>
        (\<forall>p<TSC_PRIO_NUM. xt (vpus s' (v + i)) p = priv_task_queue_init (xt (vpus s (v + i)) p) p)"
      using s'(9) [of v] s'(10) [of "i - 1"] s1(10) [of "v + i"] s1(11-15) by (cases i) auto
  qed
  with s1 s' d show ?case by auto
qed

lemma priv_task_queue_init_ok:
  "length (runq q) = 512 \<Longrightarrow> rq_inv (priv_task_queue_init q p) \<and> rq_list (priv_task_queue_init q p) = []"
  by (simp add: priv_task_queue_init_def rq_inv_def rq_list_def rq_len_def read_slots_def)

lemma init_main:
  "\<not> g_lock (gxt s 3) \<Longrightarrow> \<exists>s'. coroutine_allocate m entry None MAIN 3 None None s = Inr s' \<and>
     (\<forall>t. t \<noteq> m \<longrightarrow> cos s' t = cos s t) \<and> co_status (cos s' m) = READY \<and> co_prio (cos s' m) = 3 \<and>
     co_type (cos s' m) = MAIN \<and> vpus s' = vpus s \<and>
     gxt s' = (gxt s)(3 := (gxt s 3)\<lparr>g_tasks := g_tasks (gxt s 3) @ [m]\<rparr>) \<and>
     ready s' = (ready s)(3 := ready s 3 + 1) \<and> total_ready s' = total_ready s + 1 \<and> xt_index s' = xt_index s \<and>
     coroutine_list s' = coroutine_list s @ [m]"
  by (simp add: coroutine_allocate_def alloc_tid_def Let_def vpu_ready_def enqueue_def upd_co_def set_gxt_def inc_ready_def
      vpu_wakeup_one_def)

lemma vpu_initialize_inv:
  assumes d: "distinct (m # schs)" "length schs < 2 ^ 32"
    and fresh: "\<And>t. co_status (cos s t) \<noteq> READY \<and> co_status (cos s t) \<noteq> RUNNING \<and> co_status (cos s t) \<noteq> WAIT"
    and arrays: "\<And>v p. v < length schs \<Longrightarrow> p < TSC_PRIO_NUM \<Longrightarrow> length (runq (xt (vpus s v) p)) = TSC_TASK_NUM_PERPRIO"
  obtains s' where "vpu_initialize m schs entry s = Inr s'" "sched_inv s'" "xt_index s' = length schs"
    "\<And>v. running s' v = None \<or> \<not> v < length schs" "co_status (cos s' m) = READY" "g_tasks (gxt s' 3) = [m]"
    "coroutine_list s' = [m]" "\<forall>t. co_status (cos s' t) = READY \<longleftrightarrow> t = m"
    "\<forall>p<TSC_PRIO_NUM. queued s' p = (if p = 3 then {#m#} else {#})"
proof -
  define s0 where "s0 = s\<lparr>xt_index := length schs, last_pid := 0,
            gxt := (\<lambda>p. if p < TSC_PRIO_NUM then \<lparr>g_lock = False, g_tasks = []\<rparr> else gxt s p),
            ready := (\<lambda>p. if p \<le> TSC_PRIO_NUM then 0 else ready s p), coroutine_list := [],
            alive := of_nat (length schs), idle := 0, total_ready := 0\<rparr>"
  have "\<not> g_lock (gxt s0 3)" by (simp add: s0_def)
  from init_main [OF this, of m entry] obtain s1 where
    s1: "coroutine_allocate m entry None MAIN 3 None None s0 = Inr s1" "\<And>t. t \<noteq> m \<Longrightarrow> cos s1 t = cos s t"
      "co_status (cos s1 m) = READY" "co_prio (cos s1 m) = 3" "co_type (cos s1 m) = MAIN" "vpus s1 = vpus s"
      "\<And>p. p < TSC_PRIO_NUM \<Longrightarrow> gxt s1 p = \<lparr>g_lock = False, g_tasks = (if p = 3 then [m] else [])\<rparr>"
      "\<And>p. p < TSC_PRIO_NUM \<Longrightarrow> ready s1 p = (if p = 3 then 1 else 0)" "total_ready s1 = 1" "xt_index s1 = length schs"
      "coroutine_list s1 = [m]"
    by (auto simp: s0_def)
  from vpus_initialize_ok [of schs 0 s1] d obtain s' where
    s': "vpus_initialize schs 0 s1 = Inr s'" "gxt s' = gxt s1" "ready s' = ready s1" "total_ready s' = total_ready s1"
      "xt_index s' = xt_index s1" "coroutine_list s' = coroutine_list s1" "\<And>t. t \<notin> set schs \<Longrightarrow> cos s' t = cos s1 t"
      "\<And>t. t \<in> set schs \<Longrightarrow> co_type (cos s' t) = IDLE \<and> co_status (cos s' t) = WAIT"
      "\<And>i. i < length schs \<Longrightarrow> vpu_ident (vpus s' i) = i \<and> current (vpus s' i) = Some (schs ! i) \<and>
        scheduler (vpus s' i) = Some (schs ! i) \<and> (\<forall>p<TSC_PRIO_NUM. xt (vpus s' i) p = priv_task_queue_init (xt (vpus s1 i) p) p)"
    by auto
  have rings: "rq_inv (xt (vpus s' v) p)" "rq_list (xt (vpus s' v) p) = []" if "v < length schs" "p < TSC_PRIO_NUM" for v p
    using s'(9) [OF that(1)] arrays [OF that] priv_task_queue_init_ok [of "xt (vpus s v) p" p] that s1(6) by auto
  have m: "cos s' m = cos s1 m" "m \<notin> set schs" using s'(7) d by auto
  have st: "co_status (cos s' t) = READY \<longleftrightarrow> t = m" "co_status (cos s' t) \<noteq> RUNNING"
    "co_status (cos s' t) = WAIT \<longleftrightarrow> t \<in> set schs" for t
    using m s1(2,3) s'(7,8) fresh [of t] by (cases "t = m"; cases "t \<in> set schs"; simp)+
  have run: "running s' v = None" if "v < length schs" for v using s'(9) [OF that] by (simp add: running_def)
  have Q: "queued s' p = (if p = 3 then {#m#} else {#})" if "p < TSC_PRIO_NUM" for p
  proof -
    have "ring_tasks s' p = {#}" using rings that s'(5) s1(10) by (simp add: ring_tasks_def)
    with s1(7) [OF that] s'(2) show ?thesis by (simp add: queued_def)
  qed
  have "task_inv (xt_index s') (queued s') (\<lambda>t. co_status (cos s' t)) (\<lambda>t. co_prio (cos s' t)) (\<lambda>t. co_type (cos s' t))
      (ready s') (total_ready s') (running s')"
    unfolding task_inv_def
  proof (intro conjI)
    show "once_queued (queued s') (\<lambda>t. co_status (cos s' t)) (\<lambda>t. co_prio (cos s' t))"
      using Q st m s1(4) by (auto simp: once_queued_def)
    show "prio_ok (\<lambda>t. co_status (cos s' t)) (\<lambda>t. co_prio (cos s' t)) (\<lambda>t. co_type (cos s' t))"
      using st m s1(4,5) s'(8) by (auto simp: prio_ok_def)
    show "counters_ok (queued s') (ready s') (total_ready s')"
      using Q s1(8,9) s'(3,4) by (simp add: counters_ok_def lessThan_nat_numeral numeral_eq_Suc)
    show "once_running (xt_index s') (\<lambda>t. co_status (cos s' t)) (running s')"
      using st(2) run s'(5) s1(10) by (auto simp: once_running_def)
  qed
  moreover have "queues_ok s'" using rings s1(7,10) s'(2,5) d(2) by (simp add: queues_ok_def)
  moreover have "idle_ok s'" using s'(5,8,9) s1(10) by (auto simp: idle_ok_def)
  ultimately have "sched_inv s'" by (simp add: sched_inv_def)
  moreover have "vpu_initialize m schs entry s = Inr s'" using s1(1) s'(1) by (simp add: vpu_initialize_def s0_def)
  moreover have "xt_index s' = length schs" "\<And>v. running s' v = None \<or> \<not> v < length schs"
    "co_status (cos s' m) = READY" "g_tasks (gxt s' 3) = [m]" "coroutine_list s' = [m]"
    using run s1(7) [of 3] s1(10,11) s'(2,5,6) st(1) by auto
  moreover have "\<forall>t. co_status (cos s' t) = READY \<longleftrightarrow> t = m" "\<forall>p<TSC_PRIO_NUM. queued s' p = (if p = 3 then {#m#} else {#})"
    using st(1) Q by blast+
  ultimately show ?thesis using that by blast
qed

section \<open>Executions\<close>

text \<open>
  The steps of an execution. The first rule stands for the other components: whatever they do to channels, locks, memory
  and the like leaves the scheduler's own state alone. The others are the scheduler's operations in the situations
  in which the sources call them.
\<close>

definition same_sched :: "sys \<Rightarrow> sys \<Rightarrow> bool" where
  "same_sched s s' \<longleftrightarrow> xt_index s' = xt_index s \<and> gxt s' = gxt s \<and> ready s' = ready s \<and> total_ready s' = total_ready s \<and>
     (\<forall>v. xt (vpus s' v) = xt (vpus s v) \<and> current (vpus s' v) = current (vpus s v) \<and>
       scheduler (vpus s' v) = scheduler (vpus s v) \<and> vpu_ident (vpus s' v) = vpu_ident (vpus s v)) \<and>
     (\<forall>t. co_status (cos s' t) = co_status (cos s t) \<and> co_prio (cos s' t) = co_prio (cos s t) \<and>
       co_type (cos s' t) = co_type (cos s t))"

inductive sched_step :: "sys \<Rightarrow> sys \<Rightarrow> bool" where
  client: "same_sched s s' \<Longrightarrow> sched_step s s'"
| ready: "co_status (cos s t) = WAIT \<Longrightarrow> co_type (cos s t) \<noteq> IDLE \<Longrightarrow>
    (\<And>v. vo = Some v \<Longrightarrow> v < xt_index s \<and> (preempt \<longrightarrow> running s v \<noteq> None)) \<Longrightarrow>
    vpu_ready vo t preempt s = Inr s' \<Longrightarrow> sched_step s s'"
| yield: "v < xt_index s \<Longrightarrow> running s v = Some t \<Longrightarrow> coroutine_yield v s = Inr s' \<Longrightarrow> sched_step s s'"
| suspend: "v < xt_index s \<Longrightarrow> running s v = Some t \<Longrightarrow> vpu_suspend ls v s = Inr s' \<Longrightarrow> sched_step s s'"
| exit: "v < xt_index s \<Longrightarrow> running s v = Some t \<Longrightarrow> co_type (cos s t) \<noteq> MAIN \<Longrightarrow>
    vpu_syscall core_exit v s = Inr s' \<Longrightarrow> sched_step s s'"
| spawn: "prio < TSC_PRIO_NUM \<Longrightarrow> co_status (cos s t) \<notin> {READY, RUNNING, WAIT} \<Longrightarrow>
    (\<And>v. vo = Some v \<Longrightarrow> v < xt_index s \<and> running s v \<noteq> None) \<Longrightarrow>
    coroutine_allocate t entry args ty prio cleanup vo s = Inr s' \<Longrightarrow> sched_step s s'"
| priority: "v < xt_index s \<Longrightarrow> running s v = Some t \<Longrightarrow> p < TSC_PRIO_NUM \<Longrightarrow>
    coroutine_set_priority p v s = Inr s' \<Longrightarrow> sched_step s s'"
| clock: "v < xt_index s \<Longrightarrow> running s v = Some t \<Longrightarrow> vpu_clock_handler v s = Inr s' \<Longrightarrow> sched_step s s'"
| sched: "v < xt_index s \<Longrightarrow> running s v = None \<Longrightarrow> waiters_ok s (\<Union>p. fst ` set (polls p)) \<Longrightarrow>
    sched_pass v polls s = Inr (c, s') \<Longrightarrow> sched_step s s'"
| polling: "v < xt_index s \<Longrightarrow> waiters_ok s (fst ` set evs) \<Longrightarrow>
    netpoll_polling (Some v) evs s = Inr (b, s') \<Longrightarrow> sched_step s s'"

inductive_cases sched_stepE: "sched_step s s'"

lemma sched_step_inv:
  assumes "sched_step s s'" "sched_inv s"
  shows "sched_inv s'"
  using assms
proof (induction rule: sched_step.induct)
  case (client s s')
  then show ?case using sched_inv_cong [of s s'] by (auto simp: same_sched_def)
next
  case (ready s t vo preempt s')
  then show ?case using sched_inv_ready [of s t vo preempt] by (metis Inr_inject)
next
  case (yield v s t s')
  then show ?case using sched_inv_yield [of s v t] by (metis Inr_inject coroutine_yield_def)
next
  case (suspend v s t ls s')
  then show ?case using sched_inv_suspend [of s v t ls] by (metis Inr_inject)
next
  case (exit v s t s')
  then show ?case using sched_inv_exit [of s v t] by (metis Inr_inject)
next
  case (spawn prio s t vo entry args ty cleanup s')
  then show ?case using sched_inv_allocate [of s prio t vo entry args ty cleanup] by (metis Inr_inject insert_iff)
next
  case (priority v s t p s')
  then show ?case using sched_inv_set_priority [of s v t p] by (metis Inr_inject)
next
  case (clock v s t s')
  then show ?case using sched_inv_clock [of s v t] by (metis Inr_inject)
next
  case (sched v s polls c s')
  have "\<forall>p\<in>set [0..<TSC_PRIO_NUM]. p < TSC_PRIO_NUM \<and> fst ` set (polls p) \<subseteq> (\<Union>p. fst ` set (polls p))" by auto
  from sched_scan_ok [OF sched(5,1,2,3) this] sched(4) show ?case by (auto simp: sched_pass_def)
next
  case (polling v s evs b s')
  then show ?case using netpoll_polling_inv [of s "fst ` set evs" evs v] by auto
qed

lemma sched_steps_inv:
  assumes "sched_step\<^sup>*\<^sup>* s s'" "sched_inv s"
  shows "sched_inv s'"
  using assms by (induction rule: rtranclp_induct) (auto intro: sched_step_inv)

section \<open>Reporting a deadlock\<close>

lemma backtrace_loop_enqueue:
  "backtrace_loop v (t # ts) s = (if Some t = main_co s then backtrace_loop v ts s
     else andthen (enqueue (Some v) t (co_prio (cos s t)) (upd_co t (\<lambda>c. c\<lparr>co_backtrace := True\<rparr>) s)) (backtrace_loop v ts))"
  by (cases "runqput (xt (vpus s v) (co_prio (cos s t))) t (gxt s (co_prio (cos s t)))")
     (auto simp: enqueue_def Let_def upd_co_def)

lemma backtrace_loop_ok:
  assumes "queues_ok s" "v < xt_index s" "\<forall>t\<in>set ts. co_prio (cos s t) < TSC_PRIO_NUM"
  shows "\<exists>s'. backtrace_loop v ts s = Inr s' \<and> queues_ok s' \<and> ready s' = ready s \<and> main_co s' = main_co s \<and>
     xt_index s' = xt_index s \<and> (\<forall>t. co_prio (cos s' t) = co_prio (cos s t))"
  using assms
proof (induction ts arbitrary: s)
  case Nil
  then show ?case by (simp add: queues_ok_def)
next
  case (Cons t ts)
  show ?case
  proof (cases "Some t = main_co s")
    case True
    with Cons show ?thesis by simp
  next
    case False
    let ?s = "upd_co t (\<lambda>c. c\<lparr>co_backtrace := True\<rparr>) s"
    obtain s1 where s1: "enqueue (Some v) t (co_prio (cos s t)) ?s = Inr s1" "queues_ok s1" "ready s1 = ready s"
      "xt_index s1 = xt_index s" "cos s1 = cos ?s"
      by (rule enqueue_ok [of ?s "co_prio (cos s t)" "Some v" t]) (use Cons.prems that in auto)
    have "main_co s1 = main_co s" using enqueue_frame [OF s1(1)] by (simp add: upd_co_def)
    moreover have "\<forall>u\<in>set ts. co_prio (cos s1 u) < TSC_PRIO_NUM" using Cons.prems(3) s1(5) by simp
    ultimately show ?thesis using Cons.IH [OF s1(2)] Cons.prems(2) s1 False
      unfolding backtrace_loop_enqueue by auto
  qed
qed

lemma vpu_backtrace_ok:
  assumes "queues_ok s" "v < xt_index s" "\<forall>t\<in>set (coroutine_list s). co_prio (cos s t) < TSC_PRIO_NUM"
    "main_co s = Some m" "co_prio (cos s m) < TSC_PRIO_NUM"
  obtains s' where "vpu_backtrace v s = Inr s'" "queues_ok s'" "ready s' = ready s"
    "m \<in># queued s' (co_prio (cos s m))" "co_backtrace (cos s' m)" "co_prio (cos s' m) = co_prio (cos s m)"
proof -
  from backtrace_loop_ok [OF assms(1-3)] obtain s1 where s1: "backtrace_loop v (coroutine_list s) s = Inr s1" "queues_ok s1"
    "ready s1 = ready s" "main_co s1 = Some m" "xt_index s1 = xt_index s" "co_prio (cos s1 m) = co_prio (cos s m)"
    using assms(4) by auto
  let ?s = "upd_co m (\<lambda>c. c\<lparr>co_backtrace := True\<rparr>) s1"
  obtain s' where s': "enqueue (Some v) m (co_prio (cos s m)) ?s = Inr s'" "queues_ok s'" "ready s' = ready s"
    "queued s' = (queued s1)(co_prio (cos s m) := add_mset m (queued s1 (co_prio (cos s m))))" "cos s' = cos ?s"
    by (rule enqueue_ok [of ?s "co_prio (cos s m)" "Some v" m]) (use assms(2,5) s1 that in auto)
  have "vpu_backtrace v s = Inr s'" using s1 s'(1) by (simp add: vpu_backtrace_def enqueue_def Let_def upd_co_def)
  with that [of s'] s' s1(6) show ?thesis by simp
qed

lemma sched_scan_nothing_ready: "\<forall>p\<in>set ps. ready s p = 0 \<Longrightarrow> sched_scan v polls ps s = Inr (None, s)"
  by (induction ps) auto

section \<open>Properties\<close>



text \<open>
  Claim C2. No operation of the scheduler fails in a state of the invariant: yielding, suspending, exiting, changing the
  priority, the clock signal, a pass of the scheduler and waking a waiting coroutine all succeed. None of
  the assertions (the status in \<open>vpu_ready\<close>, \<open>candidate->priority == prio\<close> in \<open>core_sched\<close>, the ring's
  bounds) can fail and no thread waits for a run queue lock that it holds itself. After a pass the VPU runs the
  task the pass returned.
\<close>

theorem sched_operations_succeed:
  assumes inv: "sched_inv s" and v: "v < xt_index s"
  shows "(running s v = Some t \<longrightarrow>
            (\<exists>s'. coroutine_yield v s = Inr s' \<and> running s' v = None \<and> co_status (cos s' t) = READY) \<and>
            (\<exists>s'. vpu_suspend ls v s = Inr s' \<and> running s' v = None \<and> co_status (cos s' t) = WAIT) \<and>
            (\<exists>s'. vpu_clock_handler v s = Inr s') \<and>
            (p < TSC_PRIO_NUM \<longrightarrow> (\<exists>s'. coroutine_set_priority p v s = Inr s' \<and> co_prio (cos s' t) = p)) \<and>
            (co_type (cos s t) \<noteq> MAIN \<longrightarrow>
              (\<exists>s'. vpu_syscall core_exit v s = Inr s' \<and> running s' v = None \<and> co_status (cos s' t) = EXIT))) \<and>
         (running s v = None \<and> waiters_ok s (\<Union>p. fst ` set (polls p)) \<longrightarrow>
            (\<exists>c s'. sched_pass v polls s = Inr (c, s') \<and> running s' v = c)) \<and>
         (co_status (cos s u) = WAIT \<and> co_type (cos s u) \<noteq> IDLE \<and> (preempt \<longrightarrow> running s v \<noteq> None) \<longrightarrow>
            (\<exists>s'. vpu_ready (Some v) u preempt s = Inr s' \<and> co_status (cos s' u) = READY))"
proof (intro conjI impI)
  assume r: "running s v = Some t"
  show "\<exists>s'. coroutine_yield v s = Inr s' \<and> running s' v = None \<and> co_status (cos s' t) = READY"
    using sched_inv_yield [OF inv v r] by (metis coroutine_yield_def)
  show "\<exists>s'. vpu_suspend ls v s = Inr s' \<and> running s' v = None \<and> co_status (cos s' t) = WAIT"
    using sched_inv_suspend [OF inv v r, of ls] by metis
  show "\<exists>s'. vpu_clock_handler v s = Inr s'" using sched_inv_clock [OF inv v r] by metis
  show "\<exists>s'. coroutine_set_priority p v s = Inr s' \<and> co_prio (cos s' t) = p" if "p < TSC_PRIO_NUM"
    using sched_inv_set_priority [OF inv v r that] by metis
  show "\<exists>s'. vpu_syscall core_exit v s = Inr s' \<and> running s' v = None \<and> co_status (cos s' t) = EXIT"
    if "co_type (cos s t) \<noteq> MAIN"
    using sched_inv_exit [OF inv v r that] by metis
next
  assume "running s v = None \<and> waiters_ok s (\<Union>p. fst ` set (polls p))"
  then have r: "running s v = None" "waiters_ok s (\<Union>p. fst ` set (polls p))" by simp_all
  have "\<forall>p\<in>set [0..<TSC_PRIO_NUM]. p < TSC_PRIO_NUM \<and> fst ` set (polls p) \<subseteq> (\<Union>p. fst ` set (polls p))" by auto
  from sched_scan_ok [OF inv v r this] show "\<exists>c s'. sched_pass v polls s = Inr (c, s') \<and> running s' v = c"
    unfolding sched_pass_def by blast
next
  assume "co_status (cos s u) = WAIT \<and> co_type (cos s u) \<noteq> IDLE \<and> (preempt \<longrightarrow> running s v \<noteq> None)"
  with sched_inv_ready [OF inv, of u "Some v" preempt] v
  show "\<exists>s'. vpu_ready (Some v) u preempt s = Inr s' \<and> co_status (cos s' u) = READY" by (metis option.inject)
qed

theorem sched_operations_succeed_witness:
  "(\<exists>s'. coroutine_yield 0 example_sys = Inr s' \<and> co_status (cos s' 1) = READY) \<and>
   (\<exists>c s'. sched_pass 1 (\<lambda>_. []) example_sys = Inr (c, s') \<and> running s' 1 = c)"
proof
  have x: "xt_index example_sys = 2" by (simp add: example_sys_def)
  show "\<exists>s'. coroutine_yield 0 example_sys = Inr s' \<and> co_status (cos s' 1) = READY"
    using sched_operations_succeed [OF example_sched_inv, of 0 1 "[]" 0 "\<lambda>_. []" 0 False] example_running [of 0] x by auto
  have "waiters_ok example_sys (\<Union>p :: nat. fst ` set ((\<lambda>_. [] :: (addr \<times> u32) list) p))" by (simp add: waiters_ok_def)
  then show "\<exists>c s'. sched_pass 1 (\<lambda>_. []) example_sys = Inr (c, s') \<and> running s' 1 = c"
    using sched_operations_succeed [OF example_sched_inv, of 1 1 "[]" 0 "\<lambda>_. []" 0 False] example_running [of 1] x by auto
qed

text \<open>What a pass finds when no event arrives.\<close>

lemma sched_pass_elects:
  assumes inv: "sched_inv s" and v: "v < xt_index s" "running s v = None"
    and few: "\<And>p. p < TSC_PRIO_NUM \<Longrightarrow> size (queued s p) < 2 ^ 32"
  shows "\<exists>c s'. sched_pass v (\<lambda>_. []) s = Inr (c, s') \<and> running s' v = c \<and>
     (case c of None \<Rightarrow> \<forall>p<TSC_PRIO_NUM. local_tasks s v p = []
      | Some t \<Rightarrow> co_status (cos s t) = READY \<and> co_status (cos s' t) = RUNNING \<and>
         (\<forall>p<co_prio (cos s t). local_tasks s v p = []) \<and>
         (local_tasks s v (co_prio (cos s t)) \<noteq> [] \<longrightarrow> t = hd (local_tasks s v (co_prio (cos s t)))))"
proof -
  have w: "waiters_ok s {}" by (simp add: waiters_ok_def)
  have ps: "\<forall>p\<in>set [0..<TSC_PRIO_NUM]. p < TSC_PRIO_NUM \<and> fst ` set ((\<lambda>_. []) p) \<subseteq> {}" by simp
  from sched_scan_ok [OF inv v w ps] obtain c s' where s': "sched_pass v (\<lambda>_. []) s = Inr (c, s')" "sched_inv s'"
    "running s' v = c" "xt_index s' = xt_index s" by (auto simp: sched_pass_def)
  have sc: "sched_scan v (\<lambda>_. []) [0..<TSC_PRIO_NUM] s = Inr (c, s')" using s'(1) by (simp add: sched_pass_def)
  have sorted: "sorted_wrt (<) [0..<TSC_PRIO_NUM]" by (rule strict_sorted_iff [THEN iffD2]) simp
  have f: "\<forall>p<TSC_PRIO_NUM. size (queued s p) < 2 ^ 32" using few by blast
  note pr = sched_scan_priority [OF inv v sorted _ f sc]
  show ?thesis
  proof (cases c)
    case None
    with s' pr show ?thesis by auto
  next
    case (Some t)
    then have "co_status (cos s' t) = RUNNING" using runningD(1) [OF s'(2), of v t] s'(3,4) v(1) by simp
    with Some s' pr show ?thesis by auto
  qed
qed

text \<open>
  Claim C3. The scheduler respects priorities and the order of its queues. If no new event arrives, a pass returns a ready
  task such that the VPU's own ring and the global queue hold nothing of any higher priority, and it is the
  oldest of its priority: the first of the own ring, else the first of the global queue, else stolen. A
  pass that finds nothing means that the own ring and the global queue are empty at every priority.
\<close>

theorem sched_pass_priority:
  assumes inv: "sched_inv s" and v: "v < xt_index s" "running s v = None"
    and few: "\<And>p. p < TSC_PRIO_NUM \<Longrightarrow> size (queued s p) < 2 ^ 32"
  shows "\<exists>c s'. sched_pass v (\<lambda>_. []) s = Inr (c, s') \<and> running s' v = c \<and>
     (case c of None \<Rightarrow> \<forall>p<TSC_PRIO_NUM. local_tasks s v p = []
      | Some t \<Rightarrow> co_status (cos s t) = READY \<and> co_status (cos s' t) = RUNNING \<and>
         (\<forall>p<co_prio (cos s t). local_tasks s v p = []) \<and>
         (local_tasks s v (co_prio (cos s t)) \<noteq> [] \<longrightarrow> t = hd (local_tasks s v (co_prio (cos s t)))))"
  by (rule sched_pass_elects [OF assms])

theorem sched_pass_priority_witness:
  "\<exists>s1 c s'. vpu_ready (Some 1) 2 False example_sys = Inr s1 \<and> sched_pass 1 (\<lambda>_. []) s1 = Inr (c, s') \<and> running s' 1 = c"
proof -
  obtain s1 where s1: "vpu_ready (Some 1) 2 False example_sys = Inr s1" "sched_inv s1" "xt_index s1 = 2"
    by (rule sched_inv_ready [OF example_sched_inv, of 2 "Some 1" False])
       (auto simp: example_sys_def example_co_def)
  have r: "running s1 1 = None"
    using vpu_ready_frame [OF s1(1)] example_running [of 1] by (simp add: running_def split: if_splits)
  have "size (queued s1 p) < 2 ^ 32" if "p < TSC_PRIO_NUM" for p
  proof -
    have c: "count (queued s1 p) t \<le> (if t = 2 then 1 else 0)" for t
      using s1(2) that vpu_ready_frame [OF s1(1)]
      by (auto simp: sched_inv_def task_inv_def once_queued_def example_sys_def example_co_def split: if_splits)
    have "count {#2#} t = (if t = 2 then 1 else 0)" for t :: nat by simp
    with c have "queued s1 p \<subseteq># {#2#}" unfolding subseteq_mset_def by metis
    then show ?thesis using size_mset_mono by fastforce
  qed
  with sched_pass_priority [OF s1(2) _ r] s1 show ?thesis by auto
qed

text \<open>
  When nothing can run any more, \<open>vpu_backtrace\<close> is meant to schedule every coroutine once so that it prints its
  stack, the main coroutine last. It puts them in the run queues but not into the counters, and the
  scheduler skips every priority whose counter is zero: no pass ever finds any of them.
\<close>

theorem backtrace_tasks_never_run:
  assumes "queues_ok s" "v < xt_index s" "\<And>p. p < TSC_PRIO_NUM \<Longrightarrow> ready s p = 0"
    "main_co s = Some m" "co_prio (cos s m) < TSC_PRIO_NUM"
    "\<And>t. t \<in> set (coroutine_list s) \<Longrightarrow> co_prio (cos s t) < TSC_PRIO_NUM"
  shows "\<exists>s'. vpu_backtrace v s = Inr s' \<and> m \<in># queued s' (co_prio (cos s' m)) \<and> co_backtrace (cos s' m) \<and>
     (\<forall>w polls. sched_pass w polls s' = Inr (None, s'))"
proof -
  have "\<forall>t\<in>set (coroutine_list s). co_prio (cos s t) < TSC_PRIO_NUM" using assms(6) by blast
  from vpu_backtrace_ok [OF assms(1,2) this assms(4,5)] obtain s' where s': "vpu_backtrace v s = Inr s'" "ready s' = ready s"
    "m \<in># queued s' (co_prio (cos s m))" "co_backtrace (cos s' m)" "co_prio (cos s' m) = co_prio (cos s m)" by blast
  then have "sched_pass w polls s' = Inr (None, s')" for w polls
    unfolding sched_pass_def using assms(3) by (intro sched_scan_nothing_ready) auto
  with s' show ?thesis by auto
qed

theorem backtrace_tasks_never_run_witness:
  "\<exists>s'. vpu_backtrace 1 example_sys = Inr s' \<and> 1 \<in># queued s' (co_prio (cos s' 1)) \<and>
     sched_pass 1 (\<lambda>_. []) s' = Inr (None, s')"
proof -
  have "queues_ok example_sys" using example_sched_inv by (simp add: sched_inv_def)
  moreover have "1 < xt_index example_sys" "main_co example_sys = Some 1" "co_prio (cos example_sys 1) < TSC_PRIO_NUM"
    "\<And>p. ready example_sys p = 0" "\<And>t. t \<in> set (coroutine_list example_sys) \<Longrightarrow> co_prio (cos example_sys t) < TSC_PRIO_NUM"
    by (auto simp: example_sys_def example_co_def)
  ultimately show ?thesis using backtrace_tasks_never_run [of example_sys 1 1] by blast
qed

end
