(* ===== verification/Channel.thy ===== *)
theory Channel
  imports Netpoll
begin

text \<open>
  Channels (\<^verbatim>\<open>src/channel.c\<close>, \<^verbatim>\<open>include/inter/channel.h\<close>, \<^verbatim>\<open>include/inter/lock_chain.h\<close>): sending, receiving, closing and
  selecting among several channels.

  A call that blocks ends the step with the coroutine suspended; the part of the function after \<open>vpu_suspend\<close>
  is an operation of its own. \<open>q\<close> is the address of the quantum, a local variable of the blocked call.
  The lock of a channel is the lock at the channel's address. The value the caller sends or the place where it
  receives is a memory cell, named by the pointer \<open>buf\<close>.
\<close>

section \<open>Sending and receiving\<close>

datatype chan_code = CHAN_SUCCESS | CHAN_AWAKEN | CHAN_BUSY | CHAN_CLOSED

datatype chan_out = Ret chan_code sys | Suspended sys

definition upd_chan :: "addr \<Rightarrow> (chan \<Rightarrow> chan) \<Rightarrow> sys \<Rightarrow> sys" where
  [chan_simps]: "upd_chan c f s = s\<lparr>chans := (chans s)(c := f (chans s c))\<rparr>"

definition upd_quantum :: "addr \<Rightarrow> (quantum \<Rightarrow> quantum) \<Rightarrow> sys \<Rightarrow> sys" where
  [chan_simps]: "upd_quantum q f s = s\<lparr>quanta := (quanta s)(q := f (quanta s q))\<rparr>"

text \<open>The quantum that was fetched, the rest of the queue, and the state in which a selecting coroutine is claimed.\<close>

fun fetch_quantum :: "addr list \<Rightarrow> sys \<Rightarrow> addr option \<times> addr list \<times> sys" where
  "fetch_quantum [] s = (None, [], s)"
| "fetch_quantum (q # qs) s =
     (if \<not> qm_select (quanta s q) then (Some q, qs, s)
      else if co_qtag (cos s (qm_co (quanta s q))) = None
      then (Some q, qs, upd_co (qm_co (quanta s q)) (\<lambda>c. c\<lparr>co_qtag := Some (qm_chan (quanta s q))\<rparr>) s)
      else fetch_quantum qs s)"

text \<open>Enqueue a quantum of the running coroutine and go to sleep; the channel's lock is released by the scheduler.\<close>

definition block_on :: "nat option \<Rightarrow> addr \<Rightarrow> ptr \<Rightarrow> addr \<Rightarrow> (chan \<Rightarrow> chan) \<Rightarrow> sys \<Rightarrow> c_err + chan_out" where
  "block_on vo c b q add s = (case vo of
       None \<Rightarrow> Inl NullDeref
     | Some v \<Rightarrow>
         (case coroutine_self (Some v) s of
            None \<Rightarrow> Inl NullDeref
          | Some self \<Rightarrow>
              (let s = upd_quantum q (\<lambda>_. quantum_init c self b False) s; s = upd_chan c add s in
               andthen (vpu_suspend [c] v s) (\<lambda>s. Inr (Suspended s)))))"

definition chan_send_locked :: "nat option \<Rightarrow> addr \<Rightarrow> ptr \<Rightarrow> bool \<Rightarrow> addr \<Rightarrow> sys \<Rightarrow> c_err + chan_out" where
  "chan_send_locked vo c b block q s = (case fetch_quantum (recv_que (chans s c)) s of (qp, rest, s) \<Rightarrow>
     let s = upd_chan c (\<lambda>ch. ch\<lparr>recv_que := rest\<rparr>) s in
     case qp of
       Some r \<Rightarrow>
         (let s = s\<lparr>mem := chan_memcpy (qm_itembuf (quanta s r)) b (mem s)\<rparr> in
          andthen (vpu_ready vo (qm_co (quanta s r)) False s) (\<lambda>s. Inr (Ret CHAN_SUCCESS s)))
     | None \<Rightarrow>
         if ch_close (chans s c) then Inr (Ret CHAN_CLOSED s)
         else andthen (copy_to (chans s c) b (mem s))
           (\<lambda>(ok, ch).
              let s = upd_chan c (\<lambda>_. ch) s in
              if ok then Inr (Ret CHAN_SUCCESS s)
              else if block then block_on vo c b q (\<lambda>ch. ch\<lparr>send_que := send_que ch @ [q]\<rparr>) s
              else Inr (Ret CHAN_BUSY s)))"

definition chan_recv_locked :: "nat option \<Rightarrow> addr \<Rightarrow> ptr \<Rightarrow> bool \<Rightarrow> addr \<Rightarrow> sys \<Rightarrow> c_err + chan_out" where
  "chan_recv_locked vo c b block q s = (case copy_from (chans s c) b (mem s) of (ok, ch, m) \<Rightarrow>
     let s = (upd_chan c (\<lambda>_. ch) s)\<lparr>mem := m\<rparr> in
     if ok then Inr (Ret CHAN_SUCCESS s)
     else (case fetch_quantum (send_que (chans s c)) s of (qp, rest, s) \<Rightarrow>
       let s = upd_chan c (\<lambda>ch. ch\<lparr>send_que := rest\<rparr>) s in
       case qp of
         Some r \<Rightarrow>
           (let s = s\<lparr>mem := chan_memcpy b (qm_itembuf (quanta s r)) (mem s)\<rparr> in
            andthen (vpu_ready vo (qm_co (quanta s r)) False s) (\<lambda>s. Inr (Ret CHAN_SUCCESS s)))
       | None \<Rightarrow>
           if ch_close (chans s c) then Inr (Ret CHAN_CLOSED s)
           else if block then block_on vo c b q (\<lambda>ch. ch\<lparr>recv_que := recv_que ch @ [q]\<rparr>) s
           else Inr (Ret CHAN_BUSY s)))"

text \<open>The public functions take the lock around the work; a suspended call has its lock released by the scheduler.\<close>

definition with_chan_lock :: "addr \<Rightarrow> (sys \<Rightarrow> c_err + chan_out) \<Rightarrow> sys \<Rightarrow> c_err + chan_out" where
  "with_chan_lock c f s = andthen (lock_acquire_at c s)
     (\<lambda>s. andthen (f s)
        (\<lambda>out. case out of Ret r s \<Rightarrow> Inr (Ret r (lock_release_at c s)) | Suspended s \<Rightarrow> Inr (Suspended s)))"

definition chan_send :: "nat option \<Rightarrow> addr \<Rightarrow> ptr \<Rightarrow> bool \<Rightarrow> addr \<Rightarrow> sys \<Rightarrow> c_err + chan_out" where
  "chan_send vo c b block q s = with_chan_lock c (chan_send_locked vo c b block q) s"

text \<open>Without a channel the message queue of the calling coroutine is meant.\<close>

definition chan_recv :: "nat option \<Rightarrow> ptr \<Rightarrow> ptr \<Rightarrow> bool \<Rightarrow> addr \<Rightarrow> sys \<Rightarrow> c_err + chan_out" where
  "chan_recv vo co b block q s =
     (case (case co of None \<Rightarrow> coroutine_self vo s | Some c \<Rightarrow> Some c) of
        None \<Rightarrow> Inl NullDeref
      | Some c \<Rightarrow> with_chan_lock c (chan_recv_locked vo c b block q) s)"

text \<open>What a suspended sender or receiver does when it runs again.\<close>

definition chan_awaken :: "addr \<Rightarrow> addr \<Rightarrow> sys \<Rightarrow> c_err + (chan_code \<times> sys)" where
  "chan_awaken c q s = andthen (lock_acquire_at c s)
     (\<lambda>s. Inr (if qm_close (quanta s q) then CHAN_CLOSED else CHAN_AWAKEN, lock_release_at c s))"

section \<open>Closing\<close>

lemma fetch_quantum_shorter: "fetch_quantum qs s = (Some q, rest, s') \<Longrightarrow> length rest < length qs"
  by (induction qs s rule: fetch_quantum.induct) (auto split: if_splits)

function close_waiters :: "nat option \<Rightarrow> addr list \<Rightarrow> sys \<Rightarrow> c_err + sys" where
  "close_waiters vo qs s = (case fetch_quantum qs s of
       (None, rest, s') \<Rightarrow> Inr s'
     | (Some q, rest, s') \<Rightarrow>
         andthen (vpu_ready vo (qm_co (quanta s' q)) False (upd_quantum q (\<lambda>r. r\<lparr>qm_close := True\<rparr>) s'))
           (close_waiters vo rest))"
  by pat_completeness auto
termination
  by (relation "measure (\<lambda>(vo, qs, s). length qs)") (auto dest: fetch_quantum_shorter [OF sym])

declare close_waiters.simps [simp del]

definition chan_close :: "nat option \<Rightarrow> addr \<Rightarrow> sys \<Rightarrow> c_err + (chan_code \<times> sys)" where
  "chan_close vo c s = andthen (lock_acquire_at c s)
     (\<lambda>s. if ch_close (chans s c) then Inr (CHAN_CLOSED, lock_release_at c s)
        else
          (let s = upd_chan c (\<lambda>ch. ch\<lparr>ch_close := True\<rparr>) s in
           andthen (close_waiters vo (send_que (chans s c)) s)
             (\<lambda>s. let s = upd_chan c (\<lambda>ch. ch\<lparr>send_que := []\<rparr>) s in
                andthen (close_waiters vo (recv_que (chans s c)) s)
                  (\<lambda>s. let s = upd_chan c (\<lambda>ch. ch\<lparr>recv_que := []\<rparr>) s in
                     if ch_isref (chans s c)
                     then andthen (clean_buff (chans s c) (rmem s))
                       (\<lambda>(ch, m). Inr (CHAN_SUCCESS, lock_release_at c ((upd_chan c (\<lambda>_. ch) s)\<lparr>rmem := m\<rparr>)))
                     else Inr (CHAN_SUCCESS, lock_release_at c s)))))"

text \<open>The memory of the channel itself is given back by the allocator.\<close>

definition chan_dealloc :: "nat option \<Rightarrow> addr \<Rightarrow> sys \<Rightarrow> c_err + sys" where
  "chan_dealloc vo c s = andthen (chan_close vo c s) (\<lambda>(r, s). if locks s c then Inl AssertFail else Inr s)"

section \<open>Selecting\<close>

datatype scase = SendCase addr ptr | RecvCase addr ptr

primrec sc_chan :: "scase \<Rightarrow> addr" where
  "sc_chan (SendCase c b) = c"
| "sc_chan (RecvCase c b) = c"

record chan_set =
  set_sorted :: bool
  set_volume :: nat
  set_locks :: "addr list"
  set_cases :: "scase list"

definition chan_set_allocate :: "nat \<Rightarrow> chan_set" where
  "chan_set_allocate n = \<lparr>set_sorted = False, set_volume = n, set_locks = [], set_cases = []\<rparr>"

definition chan_set_send :: "addr \<Rightarrow> ptr \<Rightarrow> chan_set \<Rightarrow> sys \<Rightarrow> c_err + (chan_set \<times> sys)" where
  "chan_set_send c b cset s =
     (if \<not> length (set_cases cset) < set_volume cset then Inl AssertFail
      else Inr (cset\<lparr>set_cases := set_cases cset @ [SendCase c b], set_locks := set_locks cset @ [c]\<rparr>,
             upd_chan c (\<lambda>ch. ch\<lparr>ch_select := True\<rparr>) s))"

definition chan_set_recv :: "nat option \<Rightarrow> ptr \<Rightarrow> ptr \<Rightarrow> chan_set \<Rightarrow> sys \<Rightarrow> c_err + (chan_set \<times> sys)" where
  "chan_set_recv vo co b cset s =
     (if \<not> length (set_cases cset) < set_volume cset then Inl AssertFail
      else (case (case co of None \<Rightarrow> coroutine_self vo s | Some c \<Rightarrow> Some c) of
          None \<Rightarrow> Inl NullDeref
        | Some c \<Rightarrow>
            Inr (cset\<lparr>set_cases := set_cases cset @ [RecvCase c b], set_locks := set_locks cset @ [c]\<rparr>,
              upd_chan c (\<lambda>ch. ch\<lparr>ch_select := True\<rparr>) s)))"

fun acquire_all :: "addr list \<Rightarrow> sys \<Rightarrow> c_err + sys" where
  "acquire_all [] s = Inr s"
| "acquire_all (l # ls) s = andthen (lock_acquire_at l s) (acquire_all ls)"

text \<open>\<open>qsort\<close> orders the locks by address.\<close>

definition lock_chain_acquire :: "chan_set \<Rightarrow> sys \<Rightarrow> c_err + (chan_set \<times> sys)" where
  "lock_chain_acquire cset s =
     (let cset = (if set_sorted cset then cset else cset\<lparr>set_locks := sort (set_locks cset), set_sorted := True\<rparr>) in
      andthen (acquire_all (set_locks cset) s) (\<lambda>s. Inr (cset, s)))"

definition lock_chain_release :: "chan_set \<Rightarrow> sys \<Rightarrow> sys" where
  "lock_chain_release cset s = release_locks (set_locks cset) s"

text \<open>The first pass tries every case without blocking; it stops at the first success and remembers the last answer.\<close>

fun select_try :: "nat option \<Rightarrow> scase list \<Rightarrow> chan_code option \<Rightarrow> sys \<Rightarrow> c_err + (chan_code option \<times> ptr \<times> sys)" where
  "select_try vo [] ret s = Inr (ret, None, s)"
| "select_try vo (e # es) ret s =
     andthen (case e of SendCase c b \<Rightarrow> chan_send_locked vo c b False 0 s
                      | RecvCase c b \<Rightarrow> chan_recv_locked vo c b False 0 s)
       (\<lambda>out. case out of
          Ret r s \<Rightarrow> if r = CHAN_SUCCESS then Inr (Some r, Some (sc_chan e), s) else select_try vo es (Some r) s
        | Suspended s \<Rightarrow> Inl AssertFail)"

fun select_enqueue :: "addr \<Rightarrow> scase list \<Rightarrow> addr list \<Rightarrow> sys \<Rightarrow> sys" where
  "select_enqueue self (SendCase c b # es) (q # qs) s = select_enqueue self es qs
     (upd_chan c (\<lambda>ch. ch\<lparr>send_que := send_que ch @ [q]\<rparr>) (upd_quantum q (\<lambda>_. quantum_init c self b True) s))"
| "select_enqueue self (RecvCase c b # es) (q # qs) s = select_enqueue self es qs
     (upd_chan c (\<lambda>ch. ch\<lparr>recv_que := recv_que ch @ [q]\<rparr>) (upd_quantum q (\<lambda>_. quantum_init c self b True) s))"
| "select_enqueue self es qs s = s"

datatype select_out = SelRet "chan_code option" ptr chan_set sys | SelEmpty | SelSuspended chan_set sys

text \<open>\<open>qs\<close> are the addresses of the array of quanta. A set without cases is answered with \<open>-1\<close>.\<close>

definition chan_set_select :: "nat option \<Rightarrow> chan_set \<Rightarrow> bool \<Rightarrow> addr list \<Rightarrow> sys \<Rightarrow> c_err + select_out" where
  "chan_set_select vo cset block qs s =
     (if set_cases cset = [] then Inr SelEmpty
      else andthen (lock_chain_acquire cset s)
        (\<lambda>(cset, s). andthen (select_try vo (set_cases cset) None s)
           (\<lambda>(ret, active, s).
              if active \<noteq> None then Inr (SelRet ret active cset (lock_chain_release cset s))
              else if \<not> block then Inr (SelRet ret None cset (lock_chain_release cset s))
              else (case vo of
                  None \<Rightarrow> Inl NullDeref
                | Some v \<Rightarrow>
                    (case coroutine_self (Some v) s of
                       None \<Rightarrow> Inl NullDeref
                     | Some self \<Rightarrow>
                         (let s = upd_co self (\<lambda>c. c\<lparr>co_qtag := None\<rparr>) s;
                              s = select_enqueue self (set_cases cset) qs s in
                          andthen (vpu_suspend (set_locks cset) v s) (\<lambda>s. Inr (SelSuspended cset s))))))))"

fun select_dequeue :: "ptr \<Rightarrow> scase list \<Rightarrow> addr list \<Rightarrow> chan_code \<Rightarrow> sys \<Rightarrow> chan_code \<times> sys" where
  "select_dequeue active (e # es) (q # qs) ret s =
     (let ret = (if active = Some (qm_chan (quanta s q)) \<and> qm_close (quanta s q) then CHAN_CLOSED else ret);
          s = (case e of
                 SendCase c b \<Rightarrow> upd_chan c (\<lambda>ch. ch\<lparr>send_que := removeAll q (send_que ch)\<rparr>) s
               | RecvCase c b \<Rightarrow> upd_chan c (\<lambda>ch. ch\<lparr>recv_que := removeAll q (recv_que ch)\<rparr>) s)
      in select_dequeue active es qs ret s)"
| "select_dequeue active es qs ret s = (ret, s)"

definition select_awaken :: "addr \<Rightarrow> chan_set \<Rightarrow> addr list \<Rightarrow> sys \<Rightarrow> c_err + (chan_code \<times> ptr \<times> sys)" where
  "select_awaken self cset qs s = andthen (lock_chain_acquire cset s)
     (\<lambda>(cset, s).
        let active = co_qtag (cos s self) in
        case select_dequeue active (set_cases cset) qs CHAN_SUCCESS s of (ret, s) \<Rightarrow>
          let active = co_qtag (cos s self);
              s = upd_co self (\<lambda>c. c\<lparr>co_qtag := None\<rparr>) s in
          Inr (ret, active, lock_chain_release cset s))"

section \<open>Waiting coroutines\<close>

text \<open>A quantum can still be fetched unless it belongs to a select call that another channel has answered already.\<close>

definition live :: "sys \<Rightarrow> addr \<Rightarrow> bool" where
  "live s q \<longleftrightarrow> \<not> qm_select (quanta s q) \<or> co_qtag (cos s (qm_co (quanta s q))) = None"

definition claim :: "addr \<Rightarrow> sys \<Rightarrow> sys" where
  "claim q s = (if qm_select (quanta s q)
     then upd_co (qm_co (quanta s q)) (\<lambda>c. c\<lparr>co_qtag := Some (qm_chan (quanta s q))\<rparr>) s else s)"

lemma fetch_quantum_eq:
  "fetch_quantum qs s = (case dropWhile (\<lambda>q. \<not> live s q) qs of
      [] \<Rightarrow> (None, [], s) | q # rest \<Rightarrow> (Some q, rest, claim q s))"
  by (induction qs s rule: fetch_quantum.induct) (auto simp: live_def claim_def)

lemma claim_sel [simp]:
  "chans (claim q s) = chans s" "quanta (claim q s) = quanta s" "mem (claim q s) = mem s" "locks (claim q s) = locks s"
  "vpus (claim q s) = vpus s" "xt_index (claim q s) = xt_index s" "rmem (claim q s) = rmem s" "descs (claim q s) = descs s"
  "co_status (cos (claim q s) t) = co_status (cos s t)" "co_type (cos (claim q s) t) = co_type (cos s t)"
  "co_prio (cos (claim q s) t) = co_prio (cos s t)" "running (claim q s) = running s"
  by (simp_all add: claim_def upd_co_def)

lemma sched_inv_claim [simp]: "sched_inv (claim q s) = sched_inv s"
proof -
  have "\<And>s s'. sched_inv s \<Longrightarrow> s' = claim q s \<or> s = claim q s' \<Longrightarrow> sched_inv s'"
    by (erule sched_inv_cong) (auto simp: claim_def upd_co_def split: if_splits)
  then show ?thesis by blast
qed

definition que_ok :: "sys \<Rightarrow> addr \<Rightarrow> addr list \<Rightarrow> bool" where
  "que_ok s c qs \<longleftrightarrow> distinct (map (\<lambda>q. qm_co (quanta s q)) qs) \<and>
     (\<forall>q\<in>set qs. qm_chan (quanta s q) = c \<and> qm_itembuf (quanta s q) \<noteq> None \<and>
        (live s q \<longrightarrow> co_status (cos s (qm_co (quanta s q))) = WAIT \<and> co_type (cos s (qm_co (quanta s q))) \<noteq> IDLE))"

definition chan_ok :: "sys \<Rightarrow> addr \<Rightarrow> bool" where
  "chan_ok s c \<longleftrightarrow> store_inv (chans s c) \<and> que_ok s c (recv_que (chans s c)) \<and> que_ok s c (send_que (chans s c)) \<and>
     (\<forall>q\<in>set (recv_que (chans s c)). \<forall>r\<in>set (send_que (chans s c)).
        live s q \<and> live s r \<longrightarrow> qm_co (quanta s q) \<noteq> qm_co (quanta s r))"

text \<open>Waking a coroutine changes its status only; claiming it makes its other quanta dead.\<close>

lemma live_claim:
  "live (claim q s) r \<longleftrightarrow> live s r \<and> (qm_select (quanta s q) \<and> qm_select (quanta s r) \<longrightarrow> qm_co (quanta s r) \<noteq> qm_co (quanta s q))"
  by (auto simp: live_def claim_def upd_co_def)

lemma live_cong: "quanta s' = quanta s \<Longrightarrow> (\<And>t. co_qtag (cos s' t) = co_qtag (cos s t)) \<Longrightarrow> live s' q = live s q"
  by (simp add: live_def)

lemma que_ok_wake:
  assumes qs: "que_ok s c qs" and s': "quanta s' = quanta s"
    "cos s' = (cos (claim q s))(qm_co (quanta s q) := (cos (claim q s) (qm_co (quanta s q)))\<lparr>co_status := READY\<rparr>)"
    and other: "\<And>r. r \<in> set qs \<Longrightarrow> live s r \<Longrightarrow> qm_co (quanta s r) \<noteq> qm_co (quanta s q)"
  shows "que_ok s' c qs" "\<And>r. r \<in> set qs \<Longrightarrow> live s' r = live s r"
proof -
  show l: "live s' r = live s r" if "r \<in> set qs" for r
  proof -
    have "live s' r = live (claim q s) r" by (rule live_cong) (simp_all add: s')
    then show ?thesis using other [OF that] by (auto simp: live_claim)
  qed
  show "que_ok s' c qs" using qs other l unfolding que_ok_def by (simp add: s')
qed

lemma que_ok_sublist: "que_ok s c qs \<Longrightarrow> set rs \<subseteq> set qs \<Longrightarrow> distinct (map (\<lambda>q. qm_co (quanta s q)) rs) \<Longrightarrow> que_ok s c rs"
  by (auto simp: que_ok_def)

lemma dropWhile_parts:
  assumes "dropWhile P qs = q # rest"
  shows "\<exists>ds. qs = ds @ q # rest \<and> (\<forall>x\<in>set ds. P x) \<and> \<not> P q"
  using assms takeWhile_dropWhile_id [of P qs] by (metis hd_dropWhile list.discI list.sel(1) set_takeWhileD)

lemma wake_first:
  assumes X: "sched_inv X" "quanta X = quanta s" "cos X = cos (claim q s)" "xt_index X = xt_index s"
    and qs: "que_ok s c qs" "q \<in> set qs" "live s q"
    and vo: "\<forall>v. vo = Some v \<longrightarrow> v < xt_index s"
  obtains s' where "vpu_ready vo (qm_co (quanta s q)) False X = Inr s'" "sched_inv s'"
    "cos s' = (cos (claim q s))(qm_co (quanta s q) := (cos (claim q s) (qm_co (quanta s q)))\<lparr>co_status := READY\<rparr>)"
    "quanta s' = quanta s" "chans s' = chans X" "mem s' = mem X" "locks s' = locks X" "rmem s' = rmem X"
    "xt_index s' = xt_index s" "running s' = running X"
proof -
  let ?t = "qm_co (quanta s q)"
  have t: "co_status (cos X ?t) = WAIT" "co_type (cos X ?t) \<noteq> IDLE"
    using qs by (auto simp: que_ok_def X(3))
  obtain s' where s': "vpu_ready vo ?t False X = Inr s'" "sched_inv s'"
    by (rule sched_inv_ready [OF X(1) t, of vo False]) (use vo X(4) in auto)
  note f = vpu_ready_frame [OF s'(1)]
  have "running s' = running X" using f by (simp add: running_def fun_eq_iff)
  with that [OF s'] f X show ?thesis by simp
qed

definition pending_senders :: "sys \<Rightarrow> addr \<Rightarrow> addr list" where
  "pending_senders s c = filter (live s) (send_que (chans s c))"

definition waiting_receivers :: "sys \<Rightarrow> addr \<Rightarrow> addr list" where
  "waiting_receivers s c = filter (live s) (recv_que (chans s c))"

definition sent_value :: "sys \<Rightarrow> addr \<Rightarrow> elem" where
  "sent_value s q = mem s (the (qm_itembuf (quanta s q)))"

text \<open>The values in a channel, in the order in which receivers get them: the stored ones, then those of the waiting senders.\<close>

definition pipe :: "sys \<Rightarrow> addr \<Rightarrow> elem list" where
  "pipe s c = contents (chans s c) @ map (sent_value s) (pending_senders s c)"

lemma dropWhile_filter_Nil: "dropWhile (\<lambda>q. \<not> P q) qs = [] \<longleftrightarrow> filter P qs = []"
  by (induction qs) auto

lemma dropWhile_filter_Cons:
  "filter P qs = q # qs' \<Longrightarrow> \<exists>rest. dropWhile (\<lambda>q. \<not> P q) qs = q # rest \<and> filter P rest = qs' \<and> set rest \<subseteq> set qs \<and> P q \<and> q \<in> set qs"
  by (induction qs) (auto split: if_splits)

lemma dropWhile_distinct_map: "dropWhile P qs = q # rest \<Longrightarrow> distinct (map f qs) \<Longrightarrow> distinct (map f rest) \<and> f q \<notin> f ` set rest"
  by (induction qs) (auto split: if_splits)

lemma filter_cong_set: "(\<And>x. x \<in> set xs \<Longrightarrow> P x = Q x) \<Longrightarrow> filter P xs = filter Q xs"
  by (rule filter_cong) auto

section \<open>Receiving\<close>

lemma que_ok_cong:
  "quanta s' = quanta s \<Longrightarrow> cos s' = cos s \<Longrightarrow> que_ok s' c qs = que_ok s c qs"
  by (simp add: que_ok_def live_def)

lemma recv_stored:
  assumes inv: "sched_inv s" "chan_ok s c" "\<not> locks s c" and x: "contents (chans s c) = x # xs"
  obtains s' where "chan_recv vo (Some c) (Some d) block q s = Inr (Ret CHAN_SUCCESS s')" "mem s' = (mem s)(d := x)"
    "contents (chans s' c) = xs" "same_waiters (chans s c) (chans s' c)" "quanta s' = quanta s" "cos s' = cos s" "sched_inv s'"
    "locks s' = locks s" "chan_ok s' c" "\<And>c'. c' \<noteq> c \<Longrightarrow> chans s' c' = chans s c'" "running s' = running s" "rmem s' = rmem s"
proof -
  from store.take_cons [OF _ x, of "Some d" "mem s"] inv(2) obtain ch where
    ch: "copy_from (chans s c) (Some d) (mem s) = (True, ch, (mem s)(d := x))" "store_inv ch" "contents ch = xs"
      "same_waiters (chans s c) ch"
    by (auto simp: chan_ok_def)
  let ?s = "lock_release_at c ((upd_chan c (\<lambda>_. ch) (s\<lparr>locks := (locks s)(c := True)\<rparr>))\<lparr>mem := (mem s)(d := x)\<rparr>)"
  have "chan_recv vo (Some c) (Some d) block q s = Inr (Ret CHAN_SUCCESS ?s)"
    using inv(3) ch(1) by (simp add: chan_recv_def with_chan_lock_def lock_acquire_at_def chan_recv_locked_def upd_chan_def)
  moreover have "sched_inv ?s" using inv(1) by (simp add: lock_release_at_def upd_chan_def)
  moreover have "chan_ok ?s c"
    using inv(2) ch que_ok_cong [of ?s s c] by (simp add: chan_ok_def same_waiters_def live_def) (simp add: lock_release_at_def upd_chan_def)
  ultimately show ?thesis using that [of ?s] ch inv(3)
    by (simp add: lock_release_at_def upd_chan_def fun_eq_iff running_def)
qed

text \<open>What a step of a channel leaves alone.\<close>

definition chan_frame :: "addr \<Rightarrow> sys \<Rightarrow> sys \<Rightarrow> bool" where
  "chan_frame c s s' \<longleftrightarrow> (\<forall>c'. c' \<noteq> c \<longrightarrow> chans s' c' = chans s c') \<and> rmem s' = rmem s \<and> xt_index s' = xt_index s \<and>
     running s' = running s"

lemma recv_from_sender:
  assumes inv: "sched_inv s" "chan_ok s c" "\<not> locks s c" "\<forall>v. vo = Some v \<longrightarrow> v < xt_index s"
    and e: "contents (chans s c) = []" and p: "pending_senders s c = r # rs"
  obtains s' where "chan_recv vo (Some c) (Some d) block q s = Inr (Ret CHAN_SUCCESS s')"
    "mem s' = (mem s)(d := sent_value s r)" "contents (chans s' c) = []" "pending_senders s' c = rs" "quanta s' = quanta s"
    "recv_que (chans s' c) = recv_que (chans s c)" "ch_close (chans s' c) = ch_close (chans s c)"
    "co_status (cos s' (qm_co (quanta s r))) = READY" "sched_inv s'" "locks s' = locks s" "chan_ok s' c" "chan_frame c s s'"
    "waiting_receivers s' c = waiting_receivers s c"
proof -
  let ?l = "s\<lparr>locks := (locks s)(c := True)\<rparr>"
  have ok: "store_inv (chans s c)" "que_ok s c (recv_que (chans s c))" "que_ok s c (send_que (chans s c))"
    "\<forall>q\<in>set (recv_que (chans s c)). \<forall>r\<in>set (send_que (chans s c)). live s q \<and> live s r \<longrightarrow> qm_co (quanta s q) \<noteq> qm_co (quanta s r)"
    using inv(2) by (simp_all add: chan_ok_def)
  have nt: "copy_from (chans s c) (Some d) (mem s) = (False, chans s c, mem s)"
    by (rule store.take_nil [OF ok(1) e])
  from dropWhile_filter_Cons [OF p [unfolded pending_senders_def]] obtain rest where
    rest: "dropWhile (\<lambda>q. \<not> live s q) (send_que (chans s c)) = r # rest" "filter (live s) rest = rs"
      "set rest \<subseteq> set (send_que (chans s c))" "live s r" "r \<in> set (send_que (chans s c))" by blast
  from dropWhile_distinct_map [OF rest(1), of "\<lambda>q. qm_co (quanta s q)"] ok(3)
  have dis: "distinct (map (\<lambda>q. qm_co (quanta s q)) rest)" "\<And>x. x \<in> set rest \<Longrightarrow> qm_co (quanta s x) \<noteq> qm_co (quanta s r)"
    by (simp_all add: que_ok_def) (metis image_eqI)
  obtain b where b: "qm_itembuf (quanta s r) = Some b" using ok(3) rest(5) by (auto simp: que_ok_def)
  define X where "X = (upd_chan c (\<lambda>ch. ch\<lparr>send_que := rest\<rparr>) (claim r ?l))\<lparr>mem := (mem s)(d := mem s b)\<rparr>"
  have X: "sched_inv X" "quanta X = quanta s" "cos X = cos (claim r s)" "xt_index X = xt_index s"
  proof -
    show "sched_inv X" using inv(1) by (simp add: X_def upd_chan_def)
  qed (simp_all add: X_def upd_chan_def claim_def upd_co_def)
  obtain s1 where s1: "vpu_ready vo (qm_co (quanta s r)) False X = Inr s1" "sched_inv s1"
    "cos s1 = (cos (claim r s))(qm_co (quanta s r) := (cos (claim r s) (qm_co (quanta s r)))\<lparr>co_status := READY\<rparr>)"
    "quanta s1 = quanta s" "chans s1 = chans X" "mem s1 = mem X" "locks s1 = locks X" "rmem s1 = rmem X"
    "xt_index s1 = xt_index s" "running s1 = running X"
    by (rule wake_first [OF X ok(3) rest(5,4) inv(4)])
  let ?s = "lock_release_at c s1"
  have same: "upd_chan c (\<lambda>_. chans s c) ?l\<lparr>mem := mem s\<rparr> = ?l" by (simp add: upd_chan_def)
  have fq: "fetch_quantum (send_que (chans s c)) ?l = (Some r, rest, claim r ?l)"
    using rest(1) by (simp add: fetch_quantum_eq live_def)
  have eq: "chan_recv vo (Some c) (Some d) block q s = Inr (Ret CHAN_SUCCESS ?s)"
    using inv(3) nt fq s1(1) b
    by (simp add: chan_recv_def with_chan_lock_def lock_acquire_at_def chan_recv_locked_def same chan_memcpy_def
        X_def upd_chan_def)
  have w1: "que_ok s1 c rest" "\<And>x. x \<in> set rest \<Longrightarrow> live s1 x = live s x"
    using que_ok_wake [OF que_ok_sublist [OF ok(3) rest(3) dis(1)] s1(4,3)] dis(2) by blast+
  have w2: "que_ok s1 c (recv_que (chans s c))" "\<And>x. x \<in> set (recv_que (chans s c)) \<Longrightarrow> live s1 x = live s x"
    using que_ok_wake [OF ok(2) s1(4,3)] ok(4) rest(4,5) by blast+
  have sel: "chans ?s c = (chans s c)\<lparr>send_que := rest\<rparr>" "\<And>x. live ?s x = live s1 x" "\<And>qs. que_ok ?s c qs = que_ok s1 c qs"
    using s1(5) by (simp_all add: X_def upd_chan_def lock_release_at_def live_def que_ok_def)
  have "live ?s = live s1" using sel(2) by blast
  moreover have "filter (live s1) rest = rs" using rest(2) filter_cong_set [of rest "live s1" "live s"] w1(2) by simp
  moreover have "chan_ok ?s c"
    using ok w1 w2 rest(3) sel s1(4) by (auto simp: chan_ok_def store_inv_def buf_inv_def lock_release_at_def)
  moreover have "contents (chans ?s c) = []" using e sel(1) by (simp add: contents_def buf_list_def split: chan_handlers.splits)
  moreover have "chan_frame c s ?s"
    using s1 by (simp add: chan_frame_def lock_release_at_def X_def upd_chan_def)
  moreover have "locks ?s = locks s" using s1(7) inv(3) by (auto simp: lock_release_at_def X_def upd_chan_def fun_eq_iff)
  moreover have "mem ?s = (mem s)(d := sent_value s r)" using s1(6) b by (simp add: lock_release_at_def X_def sent_value_def)
  moreover have "sched_inv ?s" "quanta ?s = quanta s" using s1(2,4) by (simp_all add: lock_release_at_def)
  moreover have "co_status (cos ?s (qm_co (quanta s r))) = READY" using s1(3) by (simp add: lock_release_at_def)
  moreover have "filter (live s1) (recv_que (chans s c)) = waiting_receivers s c"
    unfolding waiting_receivers_def using w2(2) by (rule filter_cong_set)
  ultimately show ?thesis using that [OF eq] sel by (simp add: pending_senders_def waiting_receivers_def)
qed

section \<open>Blocking\<close>

lemma vpu_suspend_frame:
  assumes "vpu_suspend ls v s = Inr s'"
  shows "chans s' = chans s \<and> quanta s' = quanta s \<and> mem s' = mem s \<and> rmem s' = rmem s \<and> descs s' = descs s \<and> num_op s' = num_op s \<and>
     locks s' = (\<lambda>l. locks s l \<and> l \<notin> set ls) \<and>
     (\<forall>t. co_qtag (cos s' t) = co_qtag (cos s t) \<and> co_type (cos s' t) = co_type (cos s t))"
proof -
  let ?s = "upd_vpu v (\<lambda>r. r\<lparr>hold := Some ls\<rparr>) s"
  from assms obtain self sch where c: "current (vpus s v) = Some self" "scheduler (vpus s v) = Some sch"
    by (auto simp: vpu_suspend_def vpu_syscall_def split: option.splits)
  then have "core_wait v self (entered v self sch ?s) = Inr s'"
    using assms by (simp add: vpu_suspend_def vpu_syscall_def entered_def)
  moreover have "hold (vpus (entered v self sch ?s) v) = Some ls" by (simp add: entered_def)
  ultimately have "s' = upd_vpu v (\<lambda>r. r\<lparr>hold := None\<rparr>) (release_locks ls
      (upd_co self (\<lambda>c. c\<lparr>co_status := WAIT\<rparr>) (entered v self sch ?s)
         \<lparr>total_iowait := total_iowait s + (if co_async_wait (cos (entered v self sch ?s) self) then 1 else 0)\<rparr>))"
    by (auto simp: core_wait_def Let_def entered_def upd_co_def upd_vpu_def)
  then show ?thesis by (simp add: release_locks_eq entered_def upd_vpu_def upd_co_def)
qed

lemma block_on_ok:
  assumes inv: "sched_inv s" "v < xt_index s" "running s v = Some self"
  obtains s' where "block_on (Some v) c b q add s = Inr (Suspended s')" "sched_inv s'" "chans s' = (chans s)(c := add (chans s c))"
    "quanta s' = (quanta s)(q := quantum_init c self b False)" "mem s' = mem s" "rmem s' = rmem s"
    "locks s' = (\<lambda>l. locks s l \<and> l \<noteq> c)" "\<And>t. co_qtag (cos s' t) = co_qtag (cos s t)" "\<And>t. co_type (cos s' t) = co_type (cos s t)"
    "\<And>t. co_status (cos s' t) = (if t = self then WAIT else co_status (cos s t))" "xt_index s' = xt_index s" "running s' v = None"
proof -
  let ?s = "upd_chan c add (upd_quantum q (\<lambda>_. quantum_init c self b False) s)"
  have "sched_inv ?s" "v < xt_index ?s" "running ?s v = Some self" using inv by (simp_all add: chan_simps)
  from sched_inv_suspend [OF this, of "[c]"] obtain s' where s': "vpu_suspend [c] v ?s = Inr s'" "sched_inv s'"
    "running s' v = None" "\<And>u. co_status (cos s' u) = (if u = self then WAIT else co_status (cos ?s u))"
    "xt_index s' = xt_index ?s" by metis
  have "block_on (Some v) c b q add s = Inr (Suspended s')"
    using runningD(4) [OF inv] s'(1) by (simp add: block_on_def coroutine_self_def)
  with that [of s'] s' vpu_suspend_frame [OF s'(1)] show ?thesis by (simp add: chan_simps)
qed

lemma que_ok_append:
  assumes "que_ok s c qs" "q \<notin> set qs" "self \<notin> (\<lambda>x. qm_co (quanta s x)) ` set qs" "co_type (cos s self) \<noteq> IDLE"
    and s': "quanta s' = (quanta s)(q := quantum_init c self (Some b) False)" "\<And>t. co_qtag (cos s' t) = co_qtag (cos s t)"
    "\<And>t. co_type (cos s' t) = co_type (cos s t)" "\<And>t. co_status (cos s' t) = (if t = self then WAIT else co_status (cos s t))"
  shows "que_ok s' c (qs @ [q])" "\<And>x. x \<in> set qs \<Longrightarrow> live s' x = live s x" "live s' q"
proof -
  have n: "x \<noteq> q" if "x \<in> set qs" for x using assms(2) that by blast
  show l: "live s' x = live s x" if "x \<in> set qs" for x using n [OF that] by (simp add: live_def s')
  show "live s' q" by (simp add: live_def s' quantum_init_def)
  have m: "map (\<lambda>x. qm_co (quanta s' x)) qs = map (\<lambda>x. qm_co (quanta s x)) qs" using n by (simp add: s')
  show "que_ok s' c (qs @ [q])"
  proof -
    have "distinct (map (\<lambda>x. qm_co (quanta s' x)) (qs @ [q]))"
      unfolding map_append m using assms(1,3) by (auto simp: que_ok_def s'(1) quantum_init_def)
    moreover have "\<forall>x\<in>set qs. quanta s' x = quanta s x" using n by (simp add: s'(1))
    ultimately show ?thesis using assms(1,4) l unfolding que_ok_def by (auto simp: s' quantum_init_def)
  qed
qed

section \<open>Nothing to receive, nobody to send to\<close>

lemma live_locks [simp]: "live (s\<lparr>locks := x\<rparr>) = live s"
  by (simp add: fun_eq_iff live_def)

lemma fetch_quantum_none: "filter (live s) qs = [] \<Longrightarrow> fetch_quantum qs s = (None, [], s)"
  by (induction qs) (auto simp: live_def split: if_splits)

lemma unlock_upd_chan:
  "\<not> locks s c \<Longrightarrow> lock_release_at c (upd_chan c' f (s\<lparr>locks := (locks s)(c := True)\<rparr>)) = upd_chan c' f s"
proof -
  assume "\<not> locks s c"
  then have "(locks s)(c := False) = locks s" by (simp add: fun_eq_iff)
  then show ?thesis by (simp add: lock_release_at_def upd_chan_def)
qed

lemma recv_nothing_eq:
  assumes "store_inv (chans s c)" "\<not> locks s c" "contents (chans s c) = []" "pending_senders s c = []"
  shows "chan_recv vo (Some c) b block q s =
     (let f = (\<lambda>ch. ch\<lparr>send_que := []\<rparr>) in
      if ch_close (chans s c) then Inr (Ret CHAN_CLOSED (upd_chan c f s))
      else if \<not> block then Inr (Ret CHAN_BUSY (upd_chan c f s))
      else block_on vo c b q (\<lambda>ch. ch\<lparr>recv_que := recv_que ch @ [q]\<rparr>) (upd_chan c f (s\<lparr>locks := (locks s)(c := True)\<rparr>)))"
proof -
  let ?l = "s\<lparr>locks := (locks s)(c := True)\<rparr>"
  have nt: "copy_from (chans s c) b (mem s) = (False, chans s c, mem s)"
    by (rule store.take_nil [OF assms(1,3)])
  have same: "upd_chan c (\<lambda>_. chans s c) ?l\<lparr>mem := mem s\<rparr> = ?l" by (simp add: upd_chan_def)
  have fq: "fetch_quantum (send_que (chans s c)) ?l = (None, [], ?l)"
    using assms(4) by (intro fetch_quantum_none) (simp add: pending_senders_def)
  have bl: "andthen (block_on vo c b q f x) (\<lambda>out. case out of Ret r s \<Rightarrow> Inr (Ret r (lock_release_at c s))
      | Suspended s \<Rightarrow> Inr (Suspended s)) = block_on vo c b q f x" for f x
    by (cases "block_on vo c b q f x") (auto simp: block_on_def andthen_Inr_iff Let_def split: option.splits)
  show ?thesis using assms(2) nt fq unlock_upd_chan [OF assms(2), of c "\<lambda>ch. ch\<lparr>send_que := []\<rparr>"]
    by (simp add: chan_recv_def with_chan_lock_def lock_acquire_at_def chan_recv_locked_def same bl upd_chan_def Let_def)
qed

lemma send_nobody_eq:
  assumes "store_inv (chans s c)" "\<not> locks s c" "waiting_receivers s c = []"
  shows "chan_send vo c (Some b) block q s =
     (let f = (\<lambda>ch. ch\<lparr>recv_que := []\<rparr>) in
      if ch_close (chans s c) then Inr (Ret CHAN_CLOSED (upd_chan c f s))
      else if has_room (chans s c)
      then Inr (Ret CHAN_SUCCESS (upd_chan c (\<lambda>ch. snd (projr (copy_to (f ch) (Some b) (mem s)))) s))
      else if block then block_on vo c (Some b) q (\<lambda>ch. ch\<lparr>send_que := send_que ch @ [q]\<rparr>)
          (upd_chan c f (s\<lparr>locks := (locks s)(c := True)\<rparr>))
      else Inr (Ret CHAN_BUSY (upd_chan c f s)))"
proof -
  let ?l = "s\<lparr>locks := (locks s)(c := True)\<rparr>"
  let ?ch = "(chans s c)\<lparr>recv_que := []\<rparr>"
  have fq: "fetch_quantum (recv_que (chans s c)) ?l = (None, [], ?l)"
    using assms(3) by (intro fetch_quantum_none) (simp add: waiting_receivers_def)
  have st: "store_inv ?ch" using assms(1) by (simp add: store_inv_def buf_inv_def)
  have room: "has_room ?ch = has_room (chans s c)" by (simp add: has_room_def split: chan_handlers.split)
  have bl: "andthen (block_on vo c (Some b) q f x) (\<lambda>out. case out of Ret r s \<Rightarrow> Inr (Ret r (lock_release_at c s))
      | Suspended s \<Rightarrow> Inr (Suspended s)) = block_on vo c (Some b) q f x" for f x
    by (cases "block_on vo c (Some b) q f x") (auto simp: block_on_def andthen_Inr_iff Let_def split: option.splits)
  show ?thesis
  proof (cases "has_room (chans s c)")
    case True
    with store.put_room [OF st, of b "mem s"] room obtain ch where ch: "copy_to ?ch (Some b) (mem s) = Inr (True, ch)" by auto
    then show ?thesis
      using assms(2) fq True unlock_upd_chan [OF assms(2), of c "\<lambda>_. ch"]
        unlock_upd_chan [OF assms(2), of c "\<lambda>ch. ch\<lparr>recv_que := []\<rparr>"]
      by (simp add: chan_send_def with_chan_lock_def lock_acquire_at_def chan_send_locked_def upd_chan_def Let_def)
  next
    case False
    with store.put_full [OF st] room have "copy_to ?ch (Some b) (mem s) = Inr (False, ?ch)" by auto
    moreover have "upd_chan c (\<lambda>_. ?ch) ?l = upd_chan c (\<lambda>ch. ch\<lparr>recv_que := []\<rparr>) ?l" by (simp add: upd_chan_def)
    ultimately show ?thesis
      using assms(2) fq False unlock_upd_chan [OF assms(2), of c "\<lambda>ch. ch\<lparr>recv_que := []\<rparr>"]
      by (simp add: chan_send_def with_chan_lock_def lock_acquire_at_def chan_send_locked_def bl upd_chan_def Let_def)
  qed
qed

section \<open>Sending\<close>

lemma send_to_receiver:
  assumes inv: "sched_inv s" "chan_ok s c" "\<not> locks s c" "\<forall>v. vo = Some v \<longrightarrow> v < xt_index s"
    and p: "waiting_receivers s c = r # rs" and d: "qm_itembuf (quanta s r) = Some d"
  obtains s' where "chan_send vo c (Some b) block q s = Inr (Ret CHAN_SUCCESS s')"
    "mem s' = (mem s)(d := mem s b)" "chans s' c = (chans s c)\<lparr>recv_que := recv_que (chans s' c)\<rparr>"
    "waiting_receivers s' c = rs" "pending_senders s' c = pending_senders s c" "quanta s' = quanta s"
    "co_status (cos s' (qm_co (quanta s r))) = READY" "sched_inv s'" "locks s' = locks s" "chan_ok s' c" "chan_frame c s s'"
    "cos s' = (cos (claim r s))(qm_co (quanta s r) := (cos (claim r s) (qm_co (quanta s r)))\<lparr>co_status := READY\<rparr>)"
proof -
  let ?l = "s\<lparr>locks := (locks s)(c := True)\<rparr>"
  have ok: "store_inv (chans s c)" "que_ok s c (recv_que (chans s c))" "que_ok s c (send_que (chans s c))"
    "\<forall>q\<in>set (recv_que (chans s c)). \<forall>r\<in>set (send_que (chans s c)). live s q \<and> live s r \<longrightarrow> qm_co (quanta s q) \<noteq> qm_co (quanta s r)"
    using inv(2) by (simp_all add: chan_ok_def)
  from dropWhile_filter_Cons [OF p [unfolded waiting_receivers_def]] obtain rest where
    rest: "dropWhile (\<lambda>q. \<not> live s q) (recv_que (chans s c)) = r # rest" "filter (live s) rest = rs"
      "set rest \<subseteq> set (recv_que (chans s c))" "live s r" "r \<in> set (recv_que (chans s c))" by blast
  from dropWhile_distinct_map [OF rest(1), of "\<lambda>q. qm_co (quanta s q)"] ok(2)
  have dis: "distinct (map (\<lambda>q. qm_co (quanta s q)) rest)" "\<And>x. x \<in> set rest \<Longrightarrow> qm_co (quanta s x) \<noteq> qm_co (quanta s r)"
    by (simp_all add: que_ok_def) (metis image_eqI)
  define X where "X = (upd_chan c (\<lambda>ch. ch\<lparr>recv_que := rest\<rparr>) (claim r ?l))\<lparr>mem := (mem s)(d := mem s b)\<rparr>"
  have X: "sched_inv X" "quanta X = quanta s" "cos X = cos (claim r s)" "xt_index X = xt_index s"
  proof -
    show "sched_inv X" using inv(1) by (simp add: X_def upd_chan_def)
  qed (simp_all add: X_def upd_chan_def claim_def upd_co_def)
  obtain s1 where s1: "vpu_ready vo (qm_co (quanta s r)) False X = Inr s1" "sched_inv s1"
    "cos s1 = (cos (claim r s))(qm_co (quanta s r) := (cos (claim r s) (qm_co (quanta s r)))\<lparr>co_status := READY\<rparr>)"
    "quanta s1 = quanta s" "chans s1 = chans X" "mem s1 = mem X" "locks s1 = locks X" "rmem s1 = rmem X"
    "xt_index s1 = xt_index s" "running s1 = running X"
    by (rule wake_first [OF X ok(2) rest(5,4) inv(4)])
  let ?s = "lock_release_at c s1"
  have fq: "fetch_quantum (recv_que (chans s c)) ?l = (Some r, rest, claim r ?l)"
    using rest(1) by (simp add: fetch_quantum_eq)
  have eq: "chan_send vo c (Some b) block q s = Inr (Ret CHAN_SUCCESS ?s)"
    using inv(3) fq s1(1) d
    by (simp add: chan_send_def with_chan_lock_def lock_acquire_at_def chan_send_locked_def chan_memcpy_def X_def upd_chan_def)
  have w1: "que_ok s1 c rest" "\<And>x. x \<in> set rest \<Longrightarrow> live s1 x = live s x"
    using que_ok_wake [OF que_ok_sublist [OF ok(2) rest(3) dis(1)] s1(4,3)] dis(2) by blast+
  have w2: "que_ok s1 c (send_que (chans s c))" "\<And>x. x \<in> set (send_que (chans s c)) \<Longrightarrow> live s1 x = live s x"
    using que_ok_wake [OF ok(3) s1(4,3)] ok(4) rest(4,5) by metis+
  have sel: "chans ?s c = (chans s c)\<lparr>recv_que := rest\<rparr>" "\<And>x. live ?s x = live s1 x" "\<And>qs. que_ok ?s c qs = que_ok s1 c qs"
    using s1(5) by (simp_all add: X_def upd_chan_def lock_release_at_def live_def que_ok_def)
  have "live ?s = live s1" using sel(2) by blast
  moreover have "filter (live s1) rest = rs" using rest(2) filter_cong_set [of rest "live s1" "live s"] w1(2) by simp
  moreover have "filter (live s1) (send_que (chans s c)) = pending_senders s c"
    using filter_cong_set [of "send_que (chans s c)" "live s1" "live s"] w2(2) by (simp add: pending_senders_def)
  moreover have "chan_ok ?s c"
    using ok w1 w2 rest(3) sel s1(4) by (auto simp: chan_ok_def store_inv_def buf_inv_def lock_release_at_def)
  moreover have "chan_frame c s ?s"
    using s1 by (simp add: chan_frame_def lock_release_at_def X_def upd_chan_def)
  moreover have "locks ?s = locks s" using s1(7) inv(3) by (auto simp: lock_release_at_def X_def upd_chan_def fun_eq_iff)
  moreover have "mem ?s = (mem s)(d := mem s b)" using s1(6) by (simp add: lock_release_at_def X_def)
  moreover have "sched_inv ?s" "quanta ?s = quanta s" using s1(2,4) by (simp_all add: lock_release_at_def)
  moreover have "co_status (cos ?s (qm_co (quanta s r))) = READY" using s1(3) by (simp add: lock_release_at_def)
  moreover have "cos ?s = (cos (claim r s))(qm_co (quanta s r) := (cos (claim r s) (qm_co (quanta s r)))\<lparr>co_status := READY\<rparr>)"
    using s1(3) by (simp add: lock_release_at_def)
  ultimately show ?thesis using that [OF eq] sel by (simp add: pending_senders_def waiting_receivers_def)
qed

lemma chan_ok_drop_dead:
  assumes "chan_ok s c"
  shows "chan_ok (upd_chan c (\<lambda>ch. ch\<lparr>recv_que := []\<rparr>) s) c" "chan_ok (upd_chan c (\<lambda>ch. ch\<lparr>send_que := []\<rparr>) s) c"
  using assms by (auto simp: chan_ok_def que_ok_def upd_chan_def live_def store_inv_def buf_inv_def)

lemma send_stored:
  assumes inv: "sched_inv s" "chan_ok s c" "\<not> locks s c" and n: "waiting_receivers s c = []" "\<not> ch_close (chans s c)"
    and room: "has_room (chans s c)"
  obtains s' where "chan_send vo c (Some b) block q s = Inr (Ret CHAN_SUCCESS s')" "mem s' = mem s" "quanta s' = quanta s"
    "contents (chans s' c) = contents (chans s c) @ [mem s b]" "send_que (chans s' c) = send_que (chans s c)"
    "recv_que (chans s' c) = []" "cos s' = cos s" "sched_inv s'" "locks s' = locks s" "chan_ok s' c" "chan_frame c s s'"
    "ch_handlers (chans s' c) = ch_handlers (chans s c)" "bufsize (chans s' c) = bufsize (chans s c)"
    "ch_close (chans s' c) = ch_close (chans s c)"
proof -
  let ?ch = "(chans s c)\<lparr>recv_que := []\<rparr>"
  have st: "store_inv (chans s c)" "store_inv ?ch" "has_room ?ch" "contents ?ch = contents (chans s c)"
    using inv(2) room by (auto simp: chan_ok_def store_inv_def buf_inv_def has_room_def contents_def buf_list_def split: chan_handlers.splits)
  from store.put_room [OF st(2,3), of b "mem s"] obtain ch where ch: "copy_to ?ch (Some b) (mem s) = Inr (True, ch)"
    "store_inv ch" "contents ch = contents ?ch @ [mem s b]" "same_waiters ?ch ch" by blast
  let ?s = "upd_chan c (\<lambda>_. ch) s"
  have "chan_send vo c (Some b) block q s = Inr (Ret CHAN_SUCCESS ?s)"
    unfolding send_nobody_eq [OF st(1) inv(3) n(1)] using n(2) room ch(1) by (simp add: Let_def upd_chan_def)
  moreover have "chan_ok ?s c"
    using inv(2) ch que_ok_cong [of ?s s c] by (auto simp: chan_ok_def upd_chan_def same_waiters_def live_def que_ok_def)
  ultimately show ?thesis using that [of ?s] ch st(4) inv(1)
    by (simp add: upd_chan_def same_waiters_def chan_frame_def)
qed

section \<open>A call that blocks\<close>

lemma recv_blocks:
  assumes inv: "sched_inv s" "chan_ok s c" "\<not> locks s c" and v: "v < xt_index s" "running s v = Some self"
    and e: "contents (chans s c) = []" "pending_senders s c = []" "\<not> ch_close (chans s c)"
    and q: "q \<notin> set (recv_que (chans s c))" "self \<notin> (\<lambda>x. qm_co (quanta s x)) ` set (recv_que (chans s c))"
  obtains s' where "chan_recv (Some v) (Some c) (Some d) True q s = Inr (Suspended s')" "sched_inv s'" "chan_ok s' c"
    "\<not> locks s' c" "running s' v = None" "co_status (cos s' self) = WAIT" "mem s' = mem s" "xt_index s' = xt_index s"
    "quanta s' = (quanta s)(q := quantum_init c self (Some d) False)"
    "waiting_receivers s' c = waiting_receivers s c @ [q]" "pending_senders s' c = []" "contents (chans s' c) = []"
    "\<not> ch_close (chans s' c)" "ch_isref (chans s' c) = ch_isref (chans s c)"
proof -
  let ?qs = "recv_que (chans s c)"
  define s1 where "s1 = upd_chan c (\<lambda>ch. ch\<lparr>send_que := []\<rparr>) (s\<lparr>locks := (locks s)(c := True)\<rparr>)"
  have ok: "store_inv (chans s c)" "que_ok s c ?qs" using inv(2) by (simp_all add: chan_ok_def)
  have s1: "sched_inv s1" "v < xt_index s1" "running s1 v = Some self" using inv(1) v by (simp_all add: s1_def upd_chan_def)
  obtain s' where s': "block_on (Some v) c (Some d) q (\<lambda>ch. ch\<lparr>recv_que := recv_que ch @ [q]\<rparr>) s1 = Inr (Suspended s')"
    "sched_inv s'" "chans s' = (chans s1)(c := (chans s1 c)\<lparr>recv_que := recv_que (chans s1 c) @ [q]\<rparr>)"
    "quanta s' = (quanta s1)(q := quantum_init c self (Some d) False)" "mem s' = mem s1" "rmem s' = rmem s1"
    "locks s' = (\<lambda>l. locks s1 l \<and> l \<noteq> c)" "\<And>t. co_qtag (cos s' t) = co_qtag (cos s1 t)" "\<And>t. co_type (cos s' t) = co_type (cos s1 t)"
    "\<And>t. co_status (cos s' t) = (if t = self then WAIT else co_status (cos s1 t))" "xt_index s' = xt_index s1" "running s' v = None"
    by (rule block_on_ok [OF s1, of c "Some d" q "\<lambda>ch. ch\<lparr>recv_que := recv_que ch @ [q]\<rparr>"]) (rule that)
  have sel: "quanta s1 = quanta s" "cos s1 = cos s" "mem s1 = mem s" "chans s1 c = (chans s c)\<lparr>send_que := []\<rparr>" "xt_index s1 = xt_index s"
    by (simp_all add: s1_def upd_chan_def)
  have a: "que_ok s' c (?qs @ [q])" "\<And>x. x \<in> set ?qs \<Longrightarrow> live s' x = live s x" "live s' q"
    using que_ok_append [OF ok(2) q runningD(2) [OF inv(1) v], of s' d] s'(4,8,9,10) sel(1,2) by simp_all
  have ch: "chans s' c = (chans s c)\<lparr>send_que := [], recv_que := ?qs @ [q]\<rparr>" using s'(3) sel(4) by simp
  have "chan_recv (Some v) (Some c) (Some d) True q s = Inr (Suspended s')"
    unfolding recv_nothing_eq [OF ok(1) inv(3) e(1,2)] using e(3) s'(1) by (simp add: Let_def s1_def)
  moreover have "chan_ok s' c"
    using a(1) ok(1) ch by (simp add: chan_ok_def que_ok_def store_inv_def buf_inv_def)
  moreover have "waiting_receivers s' c = waiting_receivers s c @ [q]" "pending_senders s' c = []"
    using a(2,3) ch filter_cong_set [of ?qs "live s'" "live s"] by (simp_all add: waiting_receivers_def pending_senders_def)
  moreover have "contents (chans s' c) = []"
    using e(1) ch by (simp add: contents_def buf_list_def split: chan_handlers.splits)
  ultimately show ?thesis using that s' sel e(3) ch by simp
qed

lemma send_blocks:
  assumes inv: "sched_inv s" "chan_ok s c" "\<not> locks s c" and v: "v < xt_index s" "running s v = Some self"
    and e: "\<not> has_room (chans s c)" "waiting_receivers s c = []" "\<not> ch_close (chans s c)"
    and q: "q \<notin> set (send_que (chans s c))" "self \<notin> (\<lambda>x. qm_co (quanta s x)) ` set (send_que (chans s c))"
  obtains s' where "chan_send (Some v) c (Some b) True q s = Inr (Suspended s')" "sched_inv s'" "chan_ok s' c"
    "\<not> locks s' c" "running s' v = None" "co_status (cos s' self) = WAIT" "mem s' = mem s" "xt_index s' = xt_index s"
    "quanta s' = (quanta s)(q := quantum_init c self (Some b) False)"
    "pending_senders s' c = pending_senders s c @ [q]" "waiting_receivers s' c = []"
    "contents (chans s' c) = contents (chans s c)" "\<not> ch_close (chans s' c)"
    "ch_handlers (chans s' c) = ch_handlers (chans s c)" "bufsize (chans s' c) = bufsize (chans s c)"
    "\<forall>l. l \<noteq> c \<longrightarrow> locks s' l = locks s l"
proof -
  let ?qs = "send_que (chans s c)"
  define s1 where "s1 = upd_chan c (\<lambda>ch. ch\<lparr>recv_que := []\<rparr>) (s\<lparr>locks := (locks s)(c := True)\<rparr>)"
  have ok: "store_inv (chans s c)" "que_ok s c ?qs" using inv(2) by (simp_all add: chan_ok_def)
  have s1: "sched_inv s1" "v < xt_index s1" "running s1 v = Some self" using inv(1) v by (simp_all add: s1_def upd_chan_def)
  obtain s' where s': "block_on (Some v) c (Some b) q (\<lambda>ch. ch\<lparr>send_que := send_que ch @ [q]\<rparr>) s1 = Inr (Suspended s')"
    "sched_inv s'" "chans s' = (chans s1)(c := (chans s1 c)\<lparr>send_que := send_que (chans s1 c) @ [q]\<rparr>)"
    "quanta s' = (quanta s1)(q := quantum_init c self (Some b) False)" "mem s' = mem s1" "rmem s' = rmem s1"
    "locks s' = (\<lambda>l. locks s1 l \<and> l \<noteq> c)" "\<And>t. co_qtag (cos s' t) = co_qtag (cos s1 t)" "\<And>t. co_type (cos s' t) = co_type (cos s1 t)"
    "\<And>t. co_status (cos s' t) = (if t = self then WAIT else co_status (cos s1 t))" "xt_index s' = xt_index s1" "running s' v = None"
    by (rule block_on_ok [OF s1, of c "Some b" q "\<lambda>ch. ch\<lparr>send_que := send_que ch @ [q]\<rparr>"]) (rule that)
  have sel: "quanta s1 = quanta s" "cos s1 = cos s" "mem s1 = mem s" "chans s1 c = (chans s c)\<lparr>recv_que := []\<rparr>" "xt_index s1 = xt_index s"
    by (simp_all add: s1_def upd_chan_def)
  have a: "que_ok s' c (?qs @ [q])" "\<And>x. x \<in> set ?qs \<Longrightarrow> live s' x = live s x" "live s' q"
    using que_ok_append [OF ok(2) q runningD(2) [OF inv(1) v], of s' b] s'(4,8,9,10) sel(1,2) by simp_all
  have ch: "chans s' c = (chans s c)\<lparr>recv_que := [], send_que := ?qs @ [q]\<rparr>" using s'(3) sel(4) by simp
  have "chan_send (Some v) c (Some b) True q s = Inr (Suspended s')"
    unfolding send_nobody_eq [OF ok(1) inv(3) e(2)] using e(1,3) s'(1) by (simp add: Let_def s1_def)
  moreover have "chan_ok s' c"
    using a(1) ok(1) ch by (simp add: chan_ok_def que_ok_def store_inv_def buf_inv_def)
  moreover have "pending_senders s' c = pending_senders s c @ [q]" "waiting_receivers s' c = []"
    using a(2,3) ch filter_cong_set [of ?qs "live s'" "live s"] by (simp_all add: waiting_receivers_def pending_senders_def)
  moreover have "contents (chans s' c) = contents (chans s c)"
    using ch by (simp add: contents_def buf_list_def split: chan_handlers.splits)
  moreover have "locks s' l = locks s l" if "l \<noteq> c" for l using s'(7) that by (simp add: s1_def upd_chan_def)
  ultimately show ?thesis using that s' sel e(3) ch by simp
qed

section \<open>Closing wakes every waiter\<close>

abbreviation mark_closed :: "addr \<Rightarrow> sys \<Rightarrow> sys" where
  "mark_closed q s \<equiv> upd_quantum q (\<lambda>r. r\<lparr>qm_close := True\<rparr>) s"

lemma mark_closed_sel [simp]:
  "qm_co (quanta (mark_closed q s) r) = qm_co (quanta s r)" "qm_chan (quanta (mark_closed q s) r) = qm_chan (quanta s r)"
  "qm_select (quanta (mark_closed q s) r) = qm_select (quanta s r)" "qm_itembuf (quanta (mark_closed q s) r) = qm_itembuf (quanta s r)"
  "qm_close (quanta (mark_closed q s) r) = (r = q \<or> qm_close (quanta s r))" "cos (mark_closed q s) = cos s"
  "live (mark_closed q s) r = live s r"
  "claim q' (mark_closed q s) = mark_closed q (claim q' s)" "xt_index (mark_closed q s) = xt_index s"
  "chans (mark_closed q s) = chans s" "mem (mark_closed q s) = mem s" "locks (mark_closed q s) = locks s" "rmem (mark_closed q s) = rmem s"
  "running (mark_closed q s) = running s" "sched_inv (mark_closed q s) = sched_inv s"
  by (simp_all add: upd_quantum_def live_def claim_def upd_co_def)

lemma que_ok_mark_closed [simp]: "que_ok (mark_closed q s) c qs = que_ok s c qs"
  unfolding que_ok_def mark_closed_sel by (rule refl)

text \<open>Two queues whose waiters are different coroutines.\<close>

definition apart :: "sys \<Rightarrow> addr list \<Rightarrow> addr list \<Rightarrow> bool" where
  "apart s qs rs \<longleftrightarrow> (\<forall>q\<in>set qs. \<forall>r\<in>set rs. live s q \<and> live s r \<longrightarrow> qm_co (quanta s q) \<noteq> qm_co (quanta s r))"

lemma close_waiters_ok:
  assumes "sched_inv s" "que_ok s c qs" "\<forall>v. vo = Some v \<longrightarrow> v < xt_index s" "que_ok s c rs" "apart s qs rs"
  shows "\<exists>s'. close_waiters vo qs s = Inr s' \<and> sched_inv s' \<and> chans s' = chans s \<and> mem s' = mem s \<and> locks s' = locks s \<and>
     rmem s' = rmem s \<and> xt_index s' = xt_index s \<and> running s' = running s \<and> que_ok s' c rs \<and> (\<forall>r\<in>set rs. live s' r = live s r) \<and>
     (\<forall>q. qm_co (quanta s' q) = qm_co (quanta s q) \<and> (qm_close (quanta s q) \<longrightarrow> qm_close (quanta s' q))) \<and>
     (\<forall>t. co_status (cos s t) = READY \<longrightarrow> co_status (cos s' t) = READY) \<and>
     (\<forall>q\<in>set qs. live s q \<longrightarrow> qm_close (quanta s' q) \<and> co_status (cos s' (qm_co (quanta s q))) = READY)"
  using assms
proof (induction "length qs" arbitrary: qs s rule: less_induct)
  case less
  show ?case
  proof (cases "filter (live s) qs")
    case Nil
    then have "\<forall>q\<in>set qs. \<not> live s q" by (simp add: filter_empty_conv)
    with Nil less.prems show ?thesis by (simp add: close_waiters.simps [of vo qs] fetch_quantum_none)
  next
    case (Cons q qs')
    from dropWhile_filter_Cons [OF this] obtain rest where
      rest: "dropWhile (\<lambda>q. \<not> live s q) qs = q # rest" "filter (live s) rest = qs'" "set rest \<subseteq> set qs" "live s q" "q \<in> set qs" by blast
    from dropWhile_distinct_map [OF rest(1), of "\<lambda>q. qm_co (quanta s q)"] less.prems(2)
    have dis: "distinct (map (\<lambda>q. qm_co (quanta s q)) rest)" "\<And>x. x \<in> set rest \<Longrightarrow> qm_co (quanta s x) \<noteq> qm_co (quanta s q)"
      by (simp_all add: que_ok_def) (metis image_eqI)
    let ?s = "mark_closed q s"
    let ?X = "mark_closed q (claim q s)"
    have X: "sched_inv ?X" "quanta ?X = quanta ?s" "cos ?X = cos (claim q ?s)" "xt_index ?X = xt_index ?s"
      using less.prems(1) by (simp_all, simp_all add: upd_quantum_def)
    have qo: "que_ok ?s c qs" "live ?s q" "\<forall>v. vo = Some v \<longrightarrow> v < xt_index ?s" using less.prems rest by simp_all
    obtain s1 where s1: "vpu_ready vo (qm_co (quanta ?s q)) False ?X = Inr s1" "sched_inv s1"
      "cos s1 = (cos (claim q ?s))(qm_co (quanta ?s q) := (cos (claim q ?s) (qm_co (quanta ?s q)))\<lparr>co_status := READY\<rparr>)"
      "quanta s1 = quanta ?s" "chans s1 = chans ?X" "mem s1 = mem ?X" "locks s1 = locks ?X" "rmem s1 = rmem ?X"
      "xt_index s1 = xt_index ?s" "running s1 = running ?X"
      by (rule wake_first [OF X qo(1) rest(5) qo(2,3)])
    have len: "length rest < length qs" using fetch_quantum_shorter [of qs s q rest] rest(1) by (simp add: fetch_quantum_eq)
    have w1: "que_ok s1 c rest" "\<And>x. x \<in> set rest \<Longrightarrow> live s1 x = live s x"
      using que_ok_wake [of ?s c rest s1 q] que_ok_sublist [OF less.prems(2) rest(3) dis(1)] s1(3,4) dis(2) by simp_all
    have w2: "que_ok s1 c rs" "\<And>x. x \<in> set rs \<Longrightarrow> live s1 x = live s x"
      using que_ok_wake [of ?s c rs s1 q] less.prems(4,5) s1(3,4) rest(4,5) by (simp_all add: apart_def) metis+
    have ap: "apart s1 rest rs" using less.prems(5) rest(3) w1(2) w2(2) s1(4) unfolding apart_def by auto
    have v1: "\<forall>v. vo = Some v \<longrightarrow> v < xt_index s1" using less.prems(3) s1(9) by simp
    from less.hyps [OF len s1(2) w1(1) v1 w2(1) ap] obtain s' where s':
      "close_waiters vo rest s1 = Inr s'" "sched_inv s'" "chans s' = chans s1" "mem s' = mem s1" "locks s' = locks s1"
      "rmem s' = rmem s1" "xt_index s' = xt_index s1" "running s' = running s1" "que_ok s' c rs" "\<forall>r\<in>set rs. live s' r = live s1 r"
      "\<forall>q. qm_co (quanta s' q) = qm_co (quanta s1 q) \<and> (qm_close (quanta s1 q) \<longrightarrow> qm_close (quanta s' q))"
      "\<forall>t. co_status (cos s1 t) = READY \<longrightarrow> co_status (cos s' t) = READY"
      "\<forall>q\<in>set rest. live s1 q \<longrightarrow> qm_close (quanta s' q) \<and> co_status (cos s' (qm_co (quanta s1 q))) = READY" by blast
    have eq: "close_waiters vo qs s = Inr s'"
      using rest(1) s1(1) s'(1) by (simp add: close_waiters.simps [of vo qs] fetch_quantum_eq)
    have co: "\<And>x. qm_co (quanta s1 x) = qm_co (quanta s x)" using s1(4) by simp
    have each: "qm_close (quanta s' x) \<and> co_status (cos s' (qm_co (quanta s x))) = READY" if "x \<in> set qs" "live s x" for x
    proof (cases "x = q")
      case True
      then show ?thesis using s'(11,12) s1(3,4) by simp
    next
      case False
      with that Cons have "x \<in> set rest" using rest(2)
        by (metis (mono_tags, lifting) filter_set mem_Collect_eq set_ConsD set_filter)
      then show ?thesis using s'(13) w1(2) that(2) co by metis
    qed
    have "\<forall>t. co_status (cos s t) = READY \<longrightarrow> co_status (cos s' t) = READY" using s'(12) s1(3) by simp
    with eq each s' s1 w2(2) co show ?thesis by simp
  qed
qed

lemma upd_chan_idle: "recv_que (chans s c) = [] \<Longrightarrow> upd_chan c (\<lambda>ch. ch\<lparr>recv_que := []\<rparr>) s = s"
  "send_que (chans s c) = [] \<Longrightarrow> upd_chan c (\<lambda>ch. ch\<lparr>send_que := []\<rparr>) s = s"
proof -
  show "upd_chan c (\<lambda>ch. ch\<lparr>recv_que := []\<rparr>) s = s" if "recv_que (chans s c) = []"
  proof -
    have "(chans s c)\<lparr>recv_que := []\<rparr> = chans s c" using that by (cases "chans s c") simp
    then show ?thesis by (simp only: upd_chan_def fun_upd_triv) simp
  qed
  show "upd_chan c (\<lambda>ch. ch\<lparr>send_que := []\<rparr>) s = s" if "send_que (chans s c) = []"
  proof -
    have "(chans s c)\<lparr>send_que := []\<rparr> = chans s c" using that by (cases "chans s c") simp
    then show ?thesis by (simp only: upd_chan_def fun_upd_triv) simp
  qed
qed

lemma lock_twice: "\<not> locks s c \<Longrightarrow> s\<lparr>locks := (locks s)(c := False)\<rparr> = s"
proof -
  assume "\<not> locks s c"
  then have "(locks s)(c := False) = locks s" by (simp add: fun_eq_iff)
  then show ?thesis by simp
qed

lemma chan_close_ok:
  assumes inv: "sched_inv s" "chan_ok s c" "\<not> locks s c" "\<forall>v. vo = Some v \<longrightarrow> v < xt_index s" and open': "\<not> ch_close (chans s c)"
    and ref: "ch_isref (chans s c) \<Longrightarrow> ch_handlers (chans s c) = BuffHandlers \<and> (\<forall>x\<in>set (contents (chans s c)). \<exists>r. x = RefE r)"
  shows "\<exists>s'. chan_close vo c s = Inr (CHAN_SUCCESS, s') \<and> sched_inv s' \<and> chan_ok s' c \<and> ch_close (chans s' c) \<and>
     send_que (chans s' c) = [] \<and> recv_que (chans s' c) = [] \<and> locks s' = locks s \<and>
     (\<forall>q\<in>set (waiting_receivers s c) \<union> set (pending_senders s c).
        qm_close (quanta s' q) \<and> co_status (cos s' (qm_co (quanta s q))) = READY) \<and>
     (if ch_isref (chans s c)
      then contents (chans s' c) = [] \<and> rmem s' = refcnt_put_array (map elem_ref (contents (chans s c))) (rmem s)
      else contents (chans s' c) = contents (chans s c) \<and> rmem s' = rmem s)"
proof -
  let ?l = "s\<lparr>locks := (locks s)(c := True)\<rparr>"
  define s0 where "s0 = upd_chan c (\<lambda>ch. ch\<lparr>ch_close := True\<rparr>) ?l"
  let ?sq = "send_que (chans s c)"
  let ?rq = "recv_que (chans s c)"
  have ok: "store_inv (chans s c)" "que_ok s c ?rq" "que_ok s c ?sq" using inv(2) by (simp_all add: chan_ok_def)
  have lv: "live s0 = live s" by (simp add: fun_eq_iff live_def s0_def upd_chan_def)
  have s0: "sched_inv s0" "que_ok s0 c ?sq" "\<forall>v. vo = Some v \<longrightarrow> v < xt_index s0" "que_ok s0 c ?rq" "apart s0 ?sq ?rq"
    "quanta s0 = quanta s" "cos s0 = cos s" "chans s0 c = (chans s c)\<lparr>ch_close := True\<rparr>" "rmem s0 = rmem s" "locks s0 = (locks s)(c := True)"
  proof -
    show f: "quanta s0 = quanta s" "cos s0 = cos s" "chans s0 c = (chans s c)\<lparr>ch_close := True\<rparr>" "rmem s0 = rmem s"
      "locks s0 = (locks s)(c := True)" by (simp_all add: s0_def upd_chan_def)
    show "sched_inv s0" "\<forall>v. vo = Some v \<longrightarrow> v < xt_index s0" using inv(1,4) by (simp_all add: s0_def upd_chan_def)
    show "que_ok s0 c ?sq" "que_ok s0 c ?rq" using ok que_ok_cong [OF f(1,2)] by simp_all
    show "apart s0 ?sq ?rq" using inv(2) f(1) lv unfolding apart_def chan_ok_def by metis
  qed
  from close_waiters_ok [OF s0(1-5)] obtain s1 where s1: "close_waiters vo ?sq s0 = Inr s1" "sched_inv s1" "chans s1 = chans s0"
    "locks s1 = locks s0" "rmem s1 = rmem s0" "xt_index s1 = xt_index s0" "que_ok s1 c ?rq" "\<forall>r\<in>set ?rq. live s1 r = live s0 r"
    "\<forall>q. qm_co (quanta s1 q) = qm_co (quanta s0 q)"
    "\<forall>q\<in>set ?sq. live s0 q \<longrightarrow> qm_close (quanta s1 q) \<and> co_status (cos s1 (qm_co (quanta s0 q))) = READY" by blast
  define s2 where "s2 = upd_chan c (\<lambda>ch. ch\<lparr>send_que := []\<rparr>) s1"
  have s2: "sched_inv s2" "que_ok s2 c ?rq" "\<forall>v. vo = Some v \<longrightarrow> v < xt_index s2" "que_ok s2 c []" "apart s2 ?rq []"
    "live s2 = live s1" "quanta s2 = quanta s1" "cos s2 = cos s1" "recv_que (chans s2 c) = ?rq"
  proof -
    show f: "quanta s2 = quanta s1" "cos s2 = cos s1" by (simp_all add: s2_def upd_chan_def)
    show "que_ok s2 c ?rq" using que_ok_cong [OF f] s1(7) by simp
    show "live s2 = live s1" by (simp add: fun_eq_iff live_def f)
    show "recv_que (chans s2 c) = ?rq" using s0(8) s1(3) by (simp add: s2_def upd_chan_def)
    show "\<forall>v. vo = Some v \<longrightarrow> v < xt_index s2" using s0(3) s1(6) by (simp add: s2_def upd_chan_def)
  qed (use s1(2) in \<open>simp_all add: s2_def upd_chan_def que_ok_def apart_def\<close>)
  from close_waiters_ok [OF s2(1-5)] obtain s3 where s3: "close_waiters vo ?rq s2 = Inr s3" "sched_inv s3" "chans s3 = chans s2"
    "locks s3 = locks s2" "rmem s3 = rmem s2"
    "\<forall>q. qm_co (quanta s3 q) = qm_co (quanta s2 q) \<and> (qm_close (quanta s2 q) \<longrightarrow> qm_close (quanta s3 q))"
    "\<forall>t. co_status (cos s2 t) = READY \<longrightarrow> co_status (cos s3 t) = READY"
    "\<forall>q\<in>set ?rq. live s2 q \<longrightarrow> qm_close (quanta s3 q) \<and> co_status (cos s3 (qm_co (quanta s2 q))) = READY" by blast
  define s4 where "s4 = upd_chan c (\<lambda>ch. ch\<lparr>recv_que := []\<rparr>) s3"
  define ch where "ch = (chans s c)\<lparr>ch_close := True, send_que := [], recv_que := []\<rparr>"
  have s4: "chans s4 c = ch" "rmem s4 = rmem s" "locks s4 = (locks s)(c := True)" "sched_inv s4" "quanta s4 = quanta s3" "cos s4 = cos s3"
    using s3 s1 s0 by (simp_all add: s4_def s2_def upd_chan_def ch_def)
  have woken: "\<forall>q\<in>set (waiting_receivers s c) \<union> set (pending_senders s c).
      qm_close (quanta s4 q) \<and> co_status (cos s4 (qm_co (quanta s q))) = READY"
    using s3(6,7,8) s1(8-10) s2(6,7,8) s0(6) s4(5,6) lv by (auto simp: waiting_receivers_def pending_senders_def)
  have chp: "store_inv ch" "contents ch = contents (chans s c)" "ch_isref ch = ch_isref (chans s c)" "ch_close ch" "send_que ch = []"
    "recv_que ch = []" "ch_handlers ch = ch_handlers (chans s c)"
    using ok(1) by (auto simp: ch_def store_inv_def buf_inv_def contents_def buf_list_def split: chan_handlers.splits)
  have body: "chan_close vo c s = (if ch_isref (chans s4 c)
      then andthen (clean_buff (chans s4 c) (rmem s4))
        (\<lambda>(ch, m). Inr (CHAN_SUCCESS, lock_release_at c ((upd_chan c (\<lambda>_. ch) s4)\<lparr>rmem := m\<rparr>)))
      else Inr (CHAN_SUCCESS, lock_release_at c s4))"
  proof -
    have "lock_acquire_at c s = Inr ?l" "send_que (chans s0 c) = ?sq" "\<not> ch_close (chans ?l c)"
      using inv(3) open' s0(8) by (simp_all add: lock_acquire_at_def)
    then show ?thesis unfolding chan_close_def using s1(1) s2(9) s3(1)
      by (simp only: andthen.simps Let_def s0_def [symmetric] s2_def [symmetric] s4_def [symmetric] if_False)
  qed
  show ?thesis
  proof (cases "ch_isref (chans s c)")
    case False
    let ?s = "lock_release_at c s4"
    have "chan_ok ?s c" using chp(1,5,6) s4(1) by (simp add: chan_ok_def que_ok_def lock_release_at_def)
    moreover have "locks ?s = locks s" using s4(3) inv(3) by (simp add: lock_release_at_def fun_eq_iff)
    ultimately show ?thesis using body False s4 chp woken by (simp add: lock_release_at_def)
  next
    case True
    from clean_buff_drops [of ch "rmem s"] ref [OF True] chp True obtain ch' where
      c': "clean_buff ch (rmem s) = Inr (ch', refcnt_put_array (map elem_ref (contents (chans s c))) (rmem s))"
        "buf_inv ch'" "buf_list ch' = []" "recv_que ch' = []" "send_que ch' = []" "ch_close ch'" "ch_handlers ch' = BuffHandlers"
      by (auto simp: store_inv_def contents_def)
    let ?s = "lock_release_at c ((upd_chan c (\<lambda>_. ch') s4)\<lparr>rmem := refcnt_put_array (map elem_ref (contents (chans s c))) (rmem s)\<rparr>)"
    have "chan_ok ?s c" using c' by (simp add: chan_ok_def que_ok_def store_inv_def lock_release_at_def upd_chan_def)
    moreover have "locks ?s = locks s" using s4(3) inv(3) by (simp add: lock_release_at_def upd_chan_def fun_eq_iff)
    moreover have "chan_close vo c s = Inr (CHAN_SUCCESS, ?s)" using body True s4(1,2) chp(3) c'(1) by simp
    ultimately show ?thesis using True s4 c' woken by (simp add: lock_release_at_def upd_chan_def contents_def)
  qed
qed

end
