(* ===== verification/Channel_Laws.thy ===== *)
theory Channel_Laws
  imports Channel
begin

text \<open>
  What channels promise to their users: the order in which values arrive, what each outcome of a send or a receive
  means, closing, and selecting among several channels.
\<close>

section \<open>Properties\<close>

text \<open>For the witnesses: channel 7 has a buffer of one element, all others have none; cell \<open>a\<close> holds the number \<open>a\<close>.\<close>

definition chan_sys :: sys where
  "chan_sys = example_sys\<lparr>chans := (\<lambda>c. if c = 7 then chan_allocate 8 1 False [Raw []] else blank_chan),
     mem := (\<lambda>a. Raw [of_nat a])\<rparr>"

lemma chan_sys_ok: "sched_inv chan_sys" "chan_ok chan_sys c" "\<not> locks chan_sys c" "xt_index chan_sys = 2"
  "running chan_sys 0 = Some 1" "contents (chans chan_sys c) = []" "waiting_receivers chan_sys c = []" "pending_senders chan_sys c = []"
  "\<not> ch_close (chans chan_sys c)" "has_room (chans chan_sys 7)" "recv_que (chans chan_sys c) = []" "send_que (chans chan_sys c) = []"
  "mem chan_sys a = Raw [of_nat a]" "\<not> ch_isref (chans chan_sys c)"
proof -
  have f: "store_inv (chan_allocate 8 1 False [Raw []])" "contents (chan_allocate 8 1 False [Raw []]) = []"
    "has_room (chan_allocate 8 1 False [Raw []])" "recv_que (chan_allocate 8 1 False [Raw []]) = []"
    "send_que (chan_allocate 8 1 False [Raw []]) = []" "\<not> ch_close (chan_allocate 8 1 False [Raw []])"
    "\<not> ch_isref (chan_allocate 8 1 False [Raw []])"
    using chan_allocate_fresh [of 1 "[Raw []]" 8 False] by simp_all
  have b: "store_inv blank_chan" "contents blank_chan = []" "recv_que blank_chan = []" "send_que blank_chan = []" "\<not> ch_close blank_chan"
    "\<not> ch_isref blank_chan"
    by (simp_all add: blank_chan_def store_inv_def contents_def)
  show "sched_inv chan_sys" "running chan_sys 0 = Some 1"
    using example_sched_inv example_running by (simp_all add: chan_sys_def)
  show "contents (chans chan_sys c) = []" "\<not> ch_close (chans chan_sys c)" "has_room (chans chan_sys 7)"
    "\<not> ch_isref (chans chan_sys c)"
    using f b by (simp_all add: chan_sys_def)
  show q: "recv_que (chans chan_sys c) = []" "send_que (chans chan_sys c) = []" using f b by (simp_all add: chan_sys_def)
  show "chan_ok chan_sys c" using f b q by (simp add: chan_ok_def que_ok_def chan_sys_def)
  show "waiting_receivers chan_sys c = []" "pending_senders chan_sys c = []"
    using q by (simp_all add: waiting_receivers_def pending_senders_def)
qed (simp_all add: chan_sys_def example_sys_def)

lemma chan_sys_cap: "bufsize (chans chan_sys 7) = 1" "ch_handlers (chans chan_sys 7) = BuffHandlers"
  by (simp_all add: chan_sys_def chan_allocate_def buffered_chan_init_def chan_init_def)

lemma has_room_iff:
  "store_inv ch \<Longrightarrow> ch_handlers ch = BuffHandlers \<Longrightarrow> has_room ch \<longleftrightarrow> length (contents ch) < bufsize ch"
  by (simp add: has_room_def contents_def)

lemma contents_queues:
  "contents (ch\<lparr>recv_que := qs\<rparr>) = contents ch" "contents (ch\<lparr>send_que := qs\<rparr>) = contents ch"
  by (simp_all add: contents_def buf_list_def split: chan_handlers.split)

lemma pipe_upd:
  assumes "\<forall>q\<in>set qs. qm_itembuf (quanta s q) \<noteq> None \<and> qm_itembuf (quanta s q) \<noteq> Some d"
    and "quanta s' = quanta s" "mem s' = (mem s)(d := x)"
  shows "map (sent_value s') qs = map (sent_value s) qs"
  using assms by (auto simp: sent_value_def)

text \<open>Receiving takes the first value of the pipe; what else it keeps.\<close>

lemma recv_oldest:
  assumes inv: "sched_inv s" "chan_ok s c" "\<not> locks s c" "\<forall>v. vo = Some v \<longrightarrow> v < xt_index s"
    and p: "pipe s c = x # xs" and d: "\<And>q. q \<in> set (pending_senders s c) \<Longrightarrow> qm_itembuf (quanta s q) \<noteq> Some d"
  obtains s' where "chan_recv vo (Some c) (Some d) block q s = Inr (Ret CHAN_SUCCESS s')" "mem s' = (mem s)(d := x)" "pipe s' c = xs"
    "contents (chans s c) = [] \<longrightarrow> co_status (cos s' (qm_co (quanta s (hd (pending_senders s c))))) = READY"
    "sched_inv s'" "chan_ok s' c" "locks s' = locks s" "quanta s' = quanta s" "waiting_receivers s' c = waiting_receivers s c"
    "set (pending_senders s' c) \<subseteq> set (pending_senders s c)" "rmem s' = rmem s"
proof -
  have items: "\<forall>q\<in>set (pending_senders s c). qm_itembuf (quanta s q) \<noteq> None \<and> qm_itembuf (quanta s q) \<noteq> Some d"
    using inv(2) d by (auto simp: chan_ok_def que_ok_def pending_senders_def)
  show ?thesis
  proof (cases "contents (chans s c)")
    case (Cons y ys)
    from recv_stored [OF inv(1-3) this, of vo d block q] obtain s' where
      s': "chan_recv vo (Some c) (Some d) block q s = Inr (Ret CHAN_SUCCESS s')" "mem s' = (mem s)(d := y)" "contents (chans s' c) = ys"
        "same_waiters (chans s c) (chans s' c)" "quanta s' = quanta s" "cos s' = cos s" "sched_inv s'" "locks s' = locks s" "chan_ok s' c"
        "rmem s' = rmem s"
      by metis
    have w: "pending_senders s' c = pending_senders s c" "waiting_receivers s' c = waiting_receivers s c"
      using s'(4-6) by (simp_all add: pending_senders_def waiting_receivers_def same_waiters_def live_def [abs_def])
    then have "pipe s' c = ys @ map (sent_value s) (pending_senders s c)"
      using s'(3) pipe_upd [OF items s'(5,2)] by (simp only: pipe_def)
    with that [OF s'(1)] s' w p Cons show ?thesis by (simp add: pipe_def)
  next
    case Nil
    with p obtain r rs where r: "pending_senders s c = r # rs" "sent_value s r = x" "map (sent_value s) rs = xs"
      by (auto simp: pipe_def)
    from recv_from_sender [OF inv Nil r(1), of d block q] obtain s' where
      s': "chan_recv vo (Some c) (Some d) block q s = Inr (Ret CHAN_SUCCESS s')" "mem s' = (mem s)(d := sent_value s r)"
        "contents (chans s' c) = []" "pending_senders s' c = rs" "quanta s' = quanta s"
        "co_status (cos s' (qm_co (quanta s r))) = READY" "sched_inv s'" "locks s' = locks s" "chan_ok s' c" "chan_frame c s s'"
        "waiting_receivers s' c = waiting_receivers s c" by blast
    have "map (sent_value s') rs = map (sent_value s) rs"
      using pipe_upd [of rs s d s'] items r(1) s'(2,5) by simp
    then have "pipe s' c = xs" using s'(3,4) r(3) by (simp only: pipe_def append_Nil)
    moreover have "rmem s' = rmem s" using s'(10) by (simp add: chan_frame_def)
    ultimately show ?thesis using that [OF s'(1)] s' r Nil by auto
  qed
qed

text \<open>
  Claim C8. A receiver gets the oldest value in the channel. If anything is stored or any sender waits, \<open>coroc_chan_recv\<close>
  succeeds at once, delivers the first value of the pipe (stored values, then those of the waiting senders) and
  leaves the rest in order; a sender whose value was taken from its own buffer becomes ready. The invariants
  of the channel and of the scheduler are kept and the channel's lock is free again.
\<close>

theorem chan_recv_takes_oldest:
  assumes inv: "sched_inv s" "chan_ok s c" "\<not> locks s c" "\<forall>v. vo = Some v \<longrightarrow> v < xt_index s"
    and p: "pipe s c = x # xs" and d: "\<And>q. q \<in> set (pending_senders s c) \<Longrightarrow> qm_itembuf (quanta s q) \<noteq> Some d"
  shows "\<exists>s'. chan_recv vo (Some c) (Some d) block q s = Inr (Ret CHAN_SUCCESS s') \<and> mem s' d = x \<and> pipe s' c = xs \<and>
     (contents (chans s c) = [] \<longrightarrow> co_status (cos s' (qm_co (quanta s (hd (pending_senders s c))))) = READY) \<and>
     sched_inv s' \<and> chan_ok s' c \<and> locks s' = locks s"
  using recv_oldest [OF assms, of block q] by (metis fun_upd_same)

text \<open>A value sent to the buffered channel 7 is received.\<close>

theorem chan_recv_takes_oldest_witness:
  "\<exists>s s'. chan_send None 7 (Some 5) False 0 chan_sys = Inr (Ret CHAN_SUCCESS s) \<and>
     chan_recv None (Some 7) (Some 6) True 0 s = Inr (Ret CHAN_SUCCESS s') \<and> mem s' 6 = Raw [5] \<and> pipe s' 7 = []"
proof -
  obtain s where s: "chan_send None 7 (Some 5) False 0 chan_sys = Inr (Ret CHAN_SUCCESS s)" "sched_inv s" "chan_ok s 7"
    "contents (chans s 7) = [Raw [5]]" "send_que (chans s 7) = []" "locks s = locks chan_sys"
    using send_stored [of chan_sys 7 None 5 False 0] by (auto simp: chan_sys_ok)
  then have "pipe s 7 = [Raw [5]]" "pending_senders s 7 = []" by (simp_all add: pipe_def pending_senders_def)
  with chan_recv_takes_oldest [of s 7 None "Raw [5]" "[]" 6 True 0] s show ?thesis by (auto simp: chan_sys_ok)
qed

text \<open>
  Claim C9. What \<open>coroc_chan_send\<close> does, case by case: a waiting receiver gets the value directly and becomes ready; a
  closed channel is reported; a free slot takes the value behind the stored ones; otherwise a nonblocking call
  reports \<open>CHAN_BUSY\<close> without storing anything, and a blocking call suspends the coroutine, releases the lock and
  leaves its value as the last of the pipe.
\<close>

theorem chan_send_cases:
  assumes inv: "sched_inv s" "chan_ok s c" "\<not> locks s c" and v: "v < xt_index s" "running s v = Some self"
    and q: "q \<notin> set (send_que (chans s c))" "self \<notin> (\<lambda>x. qm_co (quanta s x)) ` set (send_que (chans s c))"
  shows "case waiting_receivers s c of
      r # rs \<Rightarrow> \<exists>s'. chan_send (Some v) c (Some b) block q s = Inr (Ret CHAN_SUCCESS s') \<and> sched_inv s' \<and> chan_ok s' c \<and>
        mem s' (the (qm_itembuf (quanta s r))) = mem s b \<and> co_status (cos s' (qm_co (quanta s r))) = READY \<and>
        waiting_receivers s' c = rs \<and> contents (chans s' c) = contents (chans s c)
    | [] \<Rightarrow>
        if ch_close (chans s c) then
          (\<exists>s'. chan_send (Some v) c (Some b) block q s = Inr (Ret CHAN_CLOSED s') \<and> pipe s' c = pipe s c)
        else if has_room (chans s c) then
          (\<exists>s'. chan_send (Some v) c (Some b) block q s = Inr (Ret CHAN_SUCCESS s') \<and> sched_inv s' \<and> chan_ok s' c \<and>
             contents (chans s' c) = contents (chans s c) @ [mem s b])
        else if \<not> block then
          (\<exists>s'. chan_send (Some v) c (Some b) block q s = Inr (Ret CHAN_BUSY s') \<and> pipe s' c = pipe s c)
        else
          (\<exists>s'. chan_send (Some v) c (Some b) block q s = Inr (Suspended s') \<and> sched_inv s' \<and> chan_ok s' c \<and> \<not> locks s' c \<and>
             co_status (cos s' self) = WAIT \<and> pending_senders s' c = pending_senders s c @ [q] \<and>
             pipe s' c = pipe s c @ [mem s b])"
proof (cases "waiting_receivers s c")
  case (Cons r rs)
  then have "r \<in> set (recv_que (chans s c))" by (metis filter_set list.set_intros(1) mem_Collect_eq set_filter waiting_receivers_def)
  then obtain d where d: "qm_itembuf (quanta s r) = Some d" using inv(2) by (auto simp: chan_ok_def que_ok_def)
  have vo: "\<forall>w. Some v = Some w \<longrightarrow> w < xt_index s" using v by simp
  obtain s' where "chan_send (Some v) c (Some b) block q s = Inr (Ret CHAN_SUCCESS s')" "mem s' = (mem s)(d := mem s b)"
    "chans s' c = (chans s c)\<lparr>recv_que := recv_que (chans s' c)\<rparr>" "waiting_receivers s' c = rs"
    "co_status (cos s' (qm_co (quanta s r))) = READY" "sched_inv s'" "chan_ok s' c"
    using send_to_receiver [OF inv vo Cons d, of b block q] by blast
  moreover from this(3) have "contents (chans s' c) = contents (chans s c)"
    by (metis contents_queues(1))
  ultimately show ?thesis using Cons d by simp
next
  case Nil
  have st: "store_inv (chans s c)" using inv(2) by (simp add: chan_ok_def)
  have pi: "pipe (upd_chan c (\<lambda>ch. ch\<lparr>recv_que := []\<rparr>) s) c = pipe s c"
    by (simp add: pipe_def pending_senders_def upd_chan_def sent_value_def [abs_def] live_def [abs_def] contents_def buf_list_def
        split: chan_handlers.split)
  note eq = send_nobody_eq [OF st inv(3) Nil, of "Some v" b block q]
  show ?thesis
  proof (cases "ch_close (chans s c) \<or> \<not> has_room (chans s c) \<and> \<not> block")
    case True
    with Nil eq pi show ?thesis by (auto simp: Let_def)
  next
    case False
    show ?thesis
    proof (cases "has_room (chans s c)")
      case True
      with False send_stored [OF inv Nil _ True, of "Some v" b block q] Nil show ?thesis by (auto; metis)
    next
      case full: False
      with False obtain s' where "chan_send (Some v) c (Some b) True q s = Inr (Suspended s')" "sched_inv s'" "chan_ok s' c" "\<not> locks s' c"
        "co_status (cos s' self) = WAIT" "mem s' = mem s" "quanta s' = (quanta s)(q := quantum_init c self (Some b) False)"
        "pending_senders s' c = pending_senders s c @ [q]" "contents (chans s' c) = contents (chans s c)"
        using send_blocks [OF inv v full Nil _ q, of b] by metis
      moreover from this have "map (sent_value s') (pending_senders s c) = map (sent_value s) (pending_senders s c)"
        using q(1) by (auto simp: sent_value_def pending_senders_def)
      ultimately show ?thesis using Nil False full by (auto simp: pipe_def sent_value_def quantum_init_def)
    qed
  qed
qed

text \<open>Channel 8 is unbuffered: a nonblocking send finds nobody.\<close>

theorem chan_send_cases_witness:
  "\<exists>s'. chan_send (Some 0) 8 (Some 5) True 0 chan_sys = Inr (Suspended s') \<and> pipe s' 8 = [Raw [5]] \<and> co_status (cos s' 1) = WAIT"
proof -
  have "\<not> has_room (chans chan_sys 8)" by (simp add: chan_sys_def blank_chan_def has_room_def)
  with chan_send_cases [of chan_sys 8 0 1 0 5 True] show ?thesis by (auto simp: chan_sys_ok pipe_def)
qed

text \<open>
  A sender that finds a free slot is served before senders that have waited longer: receiving from the buffer does not
  admit the first waiting sender, so the slot it frees is taken by whoever sends next, and the values already
  promised to the channel come out after the newer one.
\<close>

theorem chan_send_overtakes:
  assumes "sched_inv s" "chan_ok s c" "\<not> locks s c" "waiting_receivers s c = []" "\<not> ch_close (chans s c)" "has_room (chans s c)"
  shows "\<exists>s'. chan_send vo c (Some b) block q s = Inr (Ret CHAN_SUCCESS s') \<and> pending_senders s' c = pending_senders s c \<and>
     pipe s c = contents (chans s c) @ map (sent_value s) (pending_senders s c) \<and>
     pipe s' c = contents (chans s c) @ mem s b # map (sent_value s) (pending_senders s c)"
proof -
  obtain s' where s': "chan_send vo c (Some b) block q s = Inr (Ret CHAN_SUCCESS s')" "mem s' = mem s" "quanta s' = quanta s"
    "contents (chans s' c) = contents (chans s c) @ [mem s b]" "send_que (chans s' c) = send_que (chans s c)" "cos s' = cos s"
    by (rule send_stored [OF assms, of vo b block q])
  have "live s' = live s" "sent_value s' = sent_value s" using s'(2,3,6) by (simp_all add: fun_eq_iff live_def sent_value_def)
  then show ?thesis using s' by (simp add: pipe_def pending_senders_def)
qed

text \<open>
  The situation arises: the only slot holds 5, coroutine 1 blocks with 6, a receiver takes 5, and a nonblocking send of 7
  overtakes the waiting 6.
\<close>

theorem chan_send_overtakes_witness:
  "\<exists>s1 s2 s3 s4. chan_send None 7 (Some 5) False 0 chan_sys = Inr (Ret CHAN_SUCCESS s1) \<and>
     chan_send (Some 0) 7 (Some 6) True 20 s1 = Inr (Suspended s2) \<and>
     chan_recv None (Some 7) (Some 9) True 0 s2 = Inr (Ret CHAN_SUCCESS s3) \<and> pipe s3 7 = [Raw [6]] \<and>
     chan_send None 7 (Some 8) False 0 s3 = Inr (Ret CHAN_SUCCESS s4) \<and> pipe s4 7 = [Raw [8], Raw [6]]"
proof -
  obtain s1 where s1: "chan_send None 7 (Some 5) False 0 chan_sys = Inr (Ret CHAN_SUCCESS s1)" "sched_inv s1" "chan_ok s1 7"
    "contents (chans s1 7) = [Raw [5]]" "send_que (chans s1 7) = []" "recv_que (chans s1 7) = []" "locks s1 = locks chan_sys"
    "mem s1 = mem chan_sys" "chan_frame 7 chan_sys s1" "bufsize (chans s1 7) = 1" "ch_handlers (chans s1 7) = BuffHandlers"
    "\<not> ch_close (chans s1 7)"
    using send_stored [of chan_sys 7 None 5 False 0] by (auto simp: chan_sys_ok chan_sys_cap)
  have nb: "\<not> has_room (chans s1 7)" using s1(3,4,10,11) has_room_iff [of "chans s1 7"] by (simp add: chan_ok_def)

  have p: "\<not> locks s1 7" "0 < xt_index s1" "running s1 0 = Some 1" "waiting_receivers s1 7 = []" "pending_senders s1 7 = []"
    "20 \<notin> set (send_que (chans s1 7))" "1 \<notin> (\<lambda>x. qm_co (quanta s1 x)) ` set (send_que (chans s1 7))"
    using s1 by (simp_all add: chan_sys_ok pending_senders_def waiting_receivers_def chan_frame_def)
  obtain s2 where s2: "chan_send (Some 0) 7 (Some 6) True 20 s1 = Inr (Suspended s2)" "sched_inv s2" "chan_ok s2 7" "\<not> locks s2 7"
    "mem s2 = mem s1" "quanta s2 = (quanta s1)(20 := quantum_init 7 1 (Some 6) False)" "pending_senders s2 7 = [20]" "waiting_receivers s2 7 = []"
    "contents (chans s2 7) = [Raw [5]]" "\<not> ch_close (chans s2 7)" "ch_handlers (chans s2 7) = BuffHandlers" "bufsize (chans s2 7) = 1"
    by (rule send_blocks [OF s1(2,3) p(1-3) nb p(4) s1(12) p(6,7), of 6]) (use s1(4,10,11) p(5) that in simp)
  obtain s3 where s3: "chan_recv None (Some 7) (Some 9) True 0 s2 = Inr (Ret CHAN_SUCCESS s3)" "mem s3 = (mem s2)(9 := Raw [5])"
    "contents (chans s3 7) = []" "same_waiters (chans s2 7) (chans s3 7)" "quanta s3 = quanta s2" "cos s3 = cos s2" "sched_inv s3"
    "locks s3 = locks s2" "chan_ok s3 7"
    using recv_stored [OF s2(2-4,9), of None 9 True 0] by metis
  have "live s3 = live s2" using s3(5,6) by (simp add: fun_eq_iff live_def)
  with s2 s3(4) have w: "waiting_receivers s3 7 = []" "pending_senders s3 7 = [20]" "\<not> ch_close (chans s3 7)" "ch_handlers (chans s3 7) = BuffHandlers"
    "bufsize (chans s3 7) = 1"
    by (simp_all add: waiting_receivers_def pending_senders_def same_waiters_def)
  have room: "has_room (chans s3 7)" using s3(3,9) w(4,5) has_room_iff [of "chans s3 7"] by (simp add: chan_ok_def)
  have m: "sent_value s3 20 = Raw [6]" "mem s3 8 = Raw [8]"
    using s3(2,5) s2(5,6) s1(8) by (simp_all add: sent_value_def quantum_init_def chan_sys_ok)
  from chan_send_overtakes [OF s3(7,9) _ w(1,3) room, of None 8 False 0] s3(3,8) s2(4) m w(2) obtain s4 where
    "chan_send None 7 (Some 8) False 0 s3 = Inr (Ret CHAN_SUCCESS s4)" "pipe s4 7 = [Raw [8], Raw [6]]" by auto
  moreover have "pipe s3 7 = [Raw [6]]" using s3(3) m w(2) by (simp add: pipe_def)
  ultimately show ?thesis using s1(1) s2(1) s3(1) by blast
qed

section \<open>Closing\<close>

lemma send_closed_eq:
  assumes "\<not> locks s c" "ch_close (chans s c)" "recv_que (chans s c) = []" "store_inv (chans s c)"
  shows "chan_send vo c (Some b) block q s = Inr (Ret CHAN_CLOSED s)"
  using assms send_nobody_eq [OF assms(4,1), of vo b block q] upd_chan_idle(1) [OF assms(3)]
  by (simp add: Let_def waiting_receivers_def)

lemma chan_awaken_eq:
  assumes "\<not> locks s c"
  shows "chan_awaken c q s = Inr (if qm_close (quanta s q) then CHAN_CLOSED else CHAN_AWAKEN, s)"
  using assms lock_twice [OF assms] by (simp add: chan_awaken_def lock_acquire_at_def lock_release_at_def)

text \<open>
  Claim C11. Closing a channel wakes everybody who waits on it, and each of them returns \<open>CHAN_CLOSED\<close>; afterwards every send and
  every further close reports \<open>CHAN_CLOSED\<close> and changes nothing. Values already stored stay available to receivers,
  unless the channel carries references, which are dropped once each.
\<close>

theorem chan_close_wakes_all:
  assumes "sched_inv s" "chan_ok s c" "\<not> locks s c" "\<forall>v. vo = Some v \<longrightarrow> v < xt_index s" "\<not> ch_close (chans s c)"
    and "ch_isref (chans s c) \<longrightarrow> ch_handlers (chans s c) = BuffHandlers \<and> (\<forall>x\<in>set (contents (chans s c)). \<exists>r. x = RefE r)"
  shows "\<exists>s'. chan_close vo c s = Inr (CHAN_SUCCESS, s') \<and> sched_inv s' \<and> chan_ok s' c \<and>
     (\<forall>q\<in>set (waiting_receivers s c) \<union> set (pending_senders s c).
        co_status (cos s' (qm_co (quanta s q))) = READY \<and> chan_awaken c q s' = Inr (CHAN_CLOSED, s')) \<and>
     (\<forall>wo b block q. chan_send wo c (Some b) block q s' = Inr (Ret CHAN_CLOSED s')) \<and>
     (\<forall>wo. chan_close wo c s' = Inr (CHAN_CLOSED, s')) \<and>
     pipe s' c = (if ch_isref (chans s c) then [] else contents (chans s c)) \<and>
     rmem s' = (if ch_isref (chans s c) then refcnt_put_array (map elem_ref (contents (chans s c))) (rmem s) else rmem s)"
proof -
  from chan_close_ok [OF assms(1-5)] assms(6) obtain s' where s':
    "chan_close vo c s = Inr (CHAN_SUCCESS, s')" "sched_inv s'" "chan_ok s' c" "ch_close (chans s' c)"
    "send_que (chans s' c) = []" "recv_que (chans s' c) = []" "locks s' = locks s"
    "\<forall>q\<in>set (waiting_receivers s c) \<union> set (pending_senders s c).
        qm_close (quanta s' q) \<and> co_status (cos s' (qm_co (quanta s q))) = READY"
    "contents (chans s' c) = (if ch_isref (chans s c) then [] else contents (chans s c))"
    "rmem s' = (if ch_isref (chans s c) then refcnt_put_array (map elem_ref (contents (chans s c))) (rmem s) else rmem s)"
    by (auto split: if_splits)
  have free: "\<not> locks s' c" using s'(7) assms(3) by simp
  have "chan_close wo c s' = Inr (CHAN_CLOSED, s')" for wo
    using free s'(4) lock_twice [OF free] by (simp add: chan_close_def lock_acquire_at_def lock_release_at_def)
  moreover have "store_inv (chans s' c)" using s'(3) by (simp add: chan_ok_def)
  moreover have "pipe s' c = contents (chans s' c)" using s'(5) by (simp add: pipe_def pending_senders_def)
  ultimately show ?thesis using s' send_closed_eq [OF free s'(4,6)] chan_awaken_eq [OF free] by simp
qed

text \<open>Coroutine 1 waits on the unbuffered channel 8 when it is closed.\<close>

theorem chan_close_wakes_all_witness:
  "\<exists>s s'. chan_recv (Some 0) (Some 8) (Some 5) True 20 chan_sys = Inr (Suspended s) \<and>
     chan_close None 8 s = Inr (CHAN_SUCCESS, s') \<and> co_status (cos s' 1) = READY \<and> chan_awaken 8 20 s' = Inr (CHAN_CLOSED, s')"
proof -
  obtain s where s: "chan_recv (Some 0) (Some 8) (Some 5) True 20 chan_sys = Inr (Suspended s)" "sched_inv s" "chan_ok s 8" "\<not> locks s 8"
    "quanta s = (quanta chan_sys)(20 := quantum_init 8 1 (Some 5) False)" "waiting_receivers s 8 = [20]" "\<not> ch_close (chans s 8)"
    "\<not> ch_isref (chans s 8)"
    using recv_blocks [of chan_sys 8 0 1 20 5] by (auto simp: chan_sys_ok)
  have "qm_co (quanta s 20) = 1" using s(5) by (simp add: quantum_init_def)
  with chan_close_wakes_all [of s 8 None] s show ?thesis by auto
qed

section \<open>Meeting at a channel\<close>

text \<open>
  Claim C10. A rendezvous on an unbuffered channel: a receiver that finds nobody goes to sleep; the next sender copies its value
  straight into the place the receiver named, makes it ready again and returns at once; when the receiver runs
  it returns \<open>CHAN_AWAKEN\<close> with the value in place.
\<close>

theorem chan_rendezvous:
  assumes "sched_inv s" "chan_ok s c" "\<not> locks s c" "v < xt_index s" "running s v = Some self"
    and "contents (chans s c) = []" "pending_senders s c = []" "waiting_receivers s c = []" "\<not> ch_close (chans s c)"
    and "q \<notin> set (recv_que (chans s c))" "self \<notin> (\<lambda>x. qm_co (quanta s x)) ` set (recv_que (chans s c))" "w < xt_index s"
  shows "\<exists>s1 s2. chan_recv (Some v) (Some c) (Some d) True q s = Inr (Suspended s1) \<and> co_status (cos s1 self) = WAIT \<and>
     chan_send (Some w) c (Some b) block q' s1 = Inr (Ret CHAN_SUCCESS s2) \<and> co_status (cos s2 self) = READY \<and>
     mem s2 d = mem s b \<and> sched_inv s2 \<and> chan_ok s2 c \<and> waiting_receivers s2 c = [] \<and>
     chan_awaken c q s2 = Inr (CHAN_AWAKEN, s2)"
proof -
  obtain s1 where s1: "chan_recv (Some v) (Some c) (Some d) True q s = Inr (Suspended s1)" "sched_inv s1" "chan_ok s1 c"
    "\<not> locks s1 c" "running s1 v = None" "co_status (cos s1 self) = WAIT" "mem s1 = mem s" "xt_index s1 = xt_index s"
    "quanta s1 = (quanta s)(q := quantum_init c self (Some d) False)" "waiting_receivers s1 c = [q]"
    by (rule recv_blocks [OF assms(1-7,9-11), of d]) (use assms(8) in auto)
  have q: "qm_itembuf (quanta s1 q) = Some d" "qm_co (quanta s1 q) = self" "\<not> qm_close (quanta s1 q)"
    using s1(9) by (simp_all add: quantum_init_def)
  have w: "\<forall>v. Some w = Some v \<longrightarrow> v < xt_index s1" using assms(12) s1(8) by simp
  from send_to_receiver [OF s1(2-4) w s1(10) q(1), of b block q'] obtain s2 where
    "chan_send (Some w) c (Some b) block q' s1 = Inr (Ret CHAN_SUCCESS s2)" "mem s2 = (mem s1)(d := mem s1 b)" "quanta s2 = quanta s1"
    "co_status (cos s2 self) = READY" "sched_inv s2" "locks s2 = locks s1" "chan_ok s2 c" "waiting_receivers s2 c = []"
    unfolding q(2) by metis
  with s1 q chan_awaken_eq [of s2 c q] show ?thesis by auto
qed

theorem chan_rendezvous_witness:
  "\<exists>s1 s2. chan_recv (Some 0) (Some 8) (Some 5) True 20 chan_sys = Inr (Suspended s1) \<and>
     chan_send (Some 1) 8 (Some 6) True 21 s1 = Inr (Ret CHAN_SUCCESS s2) \<and> mem s2 5 = Raw [6] \<and>
     chan_awaken 8 20 s2 = Inr (CHAN_AWAKEN, s2)"
  using chan_rendezvous [of chan_sys 8 0 1 20 1 5 6 True 21] by (auto simp: chan_sys_ok)

section \<open>Selecting\<close>

lemma acquire_all_eq:
  "acquire_all ls s = (if distinct ls \<and> (\<forall>l\<in>set ls. \<not> locks s l) then Inr (s\<lparr>locks := \<lambda>l. locks s l \<or> l \<in> set ls\<rparr>)
     else Inl SelfDeadlock)"
proof (induction ls arbitrary: s)
  case (Cons l ls)
  have "(\<lambda>x. ((locks s)(l := True)) x \<or> x \<in> set ls) = (\<lambda>x. locks s x \<or> x \<in> set (l # ls))" by auto
  with Cons show ?case by (auto simp: lock_acquire_at_def)
qed simp

lemma lock_chain_release_eq: "lock_chain_release cset s = s\<lparr>locks := \<lambda>l. locks s l \<and> l \<notin> set (set_locks cset)\<rparr>"
  by (simp add: lock_chain_release_def release_locks_eq)

lemma release_acquired:
  assumes "\<forall>l\<in>set ls. \<not> locks s l"
  shows "(\<lambda>l. (locks s l \<or> l \<in> set ls) \<and> l \<notin> set ls) = locks s"
  using assms by auto

definition chain_sorted :: "chan_set \<Rightarrow> chan_set" where
  "chain_sorted cset = (if set_sorted cset then cset else cset\<lparr>set_locks := sort (set_locks cset), set_sorted := True\<rparr>)"

lemma chain_sorted_sel [simp]: "set_cases (chain_sorted cset) = set_cases cset" "set (set_locks (chain_sorted cset)) = set (set_locks cset)"
  "distinct (set_locks (chain_sorted cset)) = distinct (set_locks cset)" "set_sorted (chain_sorted cset)"
  by (simp_all add: chain_sorted_def)

lemma chain_sorted_twice [simp]: "chain_sorted (chain_sorted cset) = chain_sorted cset"
  by (simp add: chain_sorted_def)

lemma lock_chain_acquire_eq:
  "lock_chain_acquire cset s = (if distinct (set_locks cset) \<and> (\<forall>l\<in>set (set_locks cset). \<not> locks s l)
     then Inr (chain_sorted cset, s\<lparr>locks := \<lambda>l. locks s l \<or> l \<in> set (set_locks cset)\<rparr>) else Inl SelfDeadlock)"
proof -
  have "lock_chain_acquire cset s = andthen (acquire_all (set_locks (chain_sorted cset)) s) (\<lambda>s. Inr (chain_sorted cset, s))"
    by (simp add: lock_chain_acquire_def chain_sorted_def Let_def)
  then show ?thesis unfolding acquire_all_eq by simp
qed

text \<open>
  A set that names the same channel twice, once to send and once to receive or twice the same way, is accepted by the
  functions that build it, but every select on it waits for a lock it holds already.
\<close>

theorem select_same_channel_twice:
  assumes "chan_set_send c b cset s = Inr (cset1, s1)" "chan_set_recv vo (Some c) b' cset1 s1 = Inr (cset2, s2)"
  shows "chan_set_select vo cset2 block qs s2 = Inl SelfDeadlock"
proof -
  have "\<not> distinct (set_locks cset2)" "set_cases cset2 \<noteq> []"
    using assms by (auto simp: chan_set_send_def chan_set_recv_def split: if_splits)
  then show ?thesis by (simp add: chan_set_select_def lock_chain_acquire_eq)
qed

theorem select_same_channel_twice_witness:
  "case chan_set_send 7 (Some 5) (chan_set_allocate 2) chan_sys of
     Inl e \<Rightarrow> False
   | Inr (cset1, s1) \<Rightarrow>
       (case chan_set_recv None (Some 7) (Some 6) cset1 s1 of
          Inl e \<Rightarrow> False
        | Inr (cset2, s2) \<Rightarrow> chan_set_select None cset2 True [20, 21] s2 = Inl SelfDeadlock)"
proof -
  let ?c1 = "(chan_set_allocate 2)\<lparr>set_cases := [SendCase 7 (Some 5)], set_locks := [7]\<rparr>"
  let ?s1 = "upd_chan 7 (\<lambda>ch. ch\<lparr>ch_select := True\<rparr>) chan_sys"
  let ?c2 = "?c1\<lparr>set_cases := [SendCase 7 (Some 5), RecvCase 7 (Some 6)], set_locks := [7, 7]\<rparr>"
  have 1: "chan_set_send 7 (Some 5) (chan_set_allocate 2) chan_sys = Inr (?c1, ?s1)"
    by (simp add: chan_set_send_def chan_set_allocate_def)
  have 2: "chan_set_recv None (Some 7) (Some 6) ?c1 ?s1 = Inr (?c2, upd_chan 7 (\<lambda>ch. ch\<lparr>ch_select := True\<rparr>) ?s1)"
    by (simp add: chan_set_recv_def chan_set_allocate_def)
  show ?thesis unfolding 1 sum.case prod.case 2 using select_same_channel_twice [OF 1 2] by simp
qed

lemma select_dequeue_ok:
  assumes "length es = length qs" "\<forall>q\<in>set qs. active = Some (qm_chan (quanta s q)) \<longrightarrow> \<not> qm_close (quanta s q)"
  shows "\<exists>s'. select_dequeue active es qs ret s = (ret, s') \<and> cos s' = cos s \<and> quanta s' = quanta s \<and> locks s' = locks s \<and> mem s' = mem s \<and>
     (\<forall>c. set (send_que (chans s' c)) \<subseteq> set (send_que (chans s c)) \<and> set (recv_que (chans s' c)) \<subseteq> set (recv_que (chans s c))) \<and>
     (\<forall>c b q. (SendCase c b, q) \<in> set (zip es qs) \<longrightarrow> q \<notin> set (send_que (chans s' c))) \<and>
     (\<forall>c b q. (RecvCase c b, q) \<in> set (zip es qs) \<longrightarrow> q \<notin> set (recv_que (chans s' c)))"
  using assms
proof (induction es qs arbitrary: s rule: list_induct2)
  case (Cons e es q qs)
  define s1 where "s1 = (case e of SendCase c b \<Rightarrow> upd_chan c (\<lambda>ch. ch\<lparr>send_que := removeAll q (send_que ch)\<rparr>) s
      | RecvCase c b \<Rightarrow> upd_chan c (\<lambda>ch. ch\<lparr>recv_que := removeAll q (recv_que ch)\<rparr>) s)"
  have s1: "cos s1 = cos s" "quanta s1 = quanta s" "locks s1 = locks s" "mem s1 = mem s"
    by (simp_all add: s1_def upd_chan_def split: scase.split)
  have sub: "set (send_que (chans s1 c)) \<subseteq> set (send_que (chans s c))" "set (recv_que (chans s1 c)) \<subseteq> set (recv_que (chans s c))" for c
    by (auto simp: s1_def upd_chan_def split: scase.splits if_splits)
  have out: "e = SendCase c b \<Longrightarrow> q \<notin> set (send_que (chans s1 c))" "e = RecvCase c b \<Longrightarrow> q \<notin> set (recv_que (chans s1 c))" for c b
    by (auto simp: s1_def upd_chan_def)
  from Cons.IH [of s1] Cons.prems s1(2) obtain s' where s': "select_dequeue active es qs ret s1 = (ret, s')" "cos s' = cos s1"
    "quanta s' = quanta s1" "locks s' = locks s1" "mem s' = mem s1"
    "\<And>c. set (send_que (chans s' c)) \<subseteq> set (send_que (chans s1 c))" "\<And>c. set (recv_que (chans s' c)) \<subseteq> set (recv_que (chans s1 c))"
    "\<forall>c b q. (SendCase c b, q) \<in> set (zip es qs) \<longrightarrow> q \<notin> set (send_que (chans s' c))"
    "\<forall>c b q. (RecvCase c b, q) \<in> set (zip es qs) \<longrightarrow> q \<notin> set (recv_que (chans s' c))" by auto
  have "select_dequeue active (e # es) (q # qs) ret s = select_dequeue active es qs ret s1"
    using Cons.prems by (auto simp: Let_def s1_def)
  moreover have "set (send_que (chans s' c)) \<subseteq> set (send_que (chans s c))" "set (recv_que (chans s' c)) \<subseteq> set (recv_que (chans s c))" for c
    using sub [of c] s'(6,7) [of c] by blast+
  moreover have "q \<notin> set (send_que (chans s' c))" if "e = SendCase c b" for c b using s'(6) [of c] out(1) [OF that] by blast
  moreover have "q \<notin> set (recv_que (chans s' c))" if "e = RecvCase c b" for c b using s'(7) [of c] out(2) [OF that] by blast
  ultimately show ?case using s' s1 by auto
qed simp

lemma upd_qtag_sel [simp]:
  "chans (upd_co t f s) = chans s" "quanta (upd_co t f s) = quanta s" "locks (upd_co t f s) = locks s" "mem (upd_co t f s) = mem s"
  by (simp_all add: upd_co_def)

text \<open>
  Claim C12. Exactly one channel answers a blocked select. The sender that finds the selecting coroutine waiting on channel \<open>c\<close> hands its
  value over there and tags the coroutine with \<open>c\<close>; from then on none of the coroutine's other entries can be
  fetched from any channel, so nobody wakes it a second time; and the coroutine, once it runs, reports exactly \<open>c\<close>,
  takes its entries out of every queue and gives the locks back.
\<close>

theorem select_single_winner:
  assumes inv: "sched_inv s" "chan_ok s c" "\<not> locks s c" "\<forall>v. vo = Some v \<longrightarrow> v < xt_index s"
    and r: "waiting_receivers s c = r # rs" "qm_select (quanta s r)" "qm_itembuf (quanta s r) = Some d" "qm_co (quanta s r) = self"
    and set: "length (set_cases cset) = length qs" "distinct (set_locks cset)" "\<forall>l\<in>set (set_locks cset). \<not> locks s l"
    and open': "\<forall>q\<in>set qs. \<not> qm_close (quanta s q)"
  shows "\<exists>s1 s2. chan_send vo c (Some b) block q' s = Inr (Ret CHAN_SUCCESS s1) \<and> mem s1 d = mem s b \<and> co_status (cos s1 self) = READY \<and>
     (\<forall>x. qm_select (quanta s x) \<and> qm_co (quanta s x) = self \<longrightarrow> (\<forall>qs rest s'. fetch_quantum qs s1 \<noteq> (Some x, rest, s'))) \<and>
     select_awaken self cset qs s1 = Inr (CHAN_SUCCESS, Some c, s2) \<and> co_qtag (cos s2 self) = None \<and> locks s2 = locks s \<and>
     (\<forall>c b q. (SendCase c b, q) \<in> set (zip (set_cases cset) qs) \<longrightarrow> q \<notin> set (send_que (chans s2 c))) \<and>
     (\<forall>c b q. (RecvCase c b, q) \<in> set (zip (set_cases cset) qs) \<longrightarrow> q \<notin> set (recv_que (chans s2 c)))"
proof -
  from send_to_receiver [OF inv r(1,3), of b block q'] obtain s1 where s1:
    "chan_send vo c (Some b) block q' s = Inr (Ret CHAN_SUCCESS s1)" "mem s1 = (mem s)(d := mem s b)" "quanta s1 = quanta s"
    "co_status (cos s1 self) = READY" "locks s1 = locks s"
    "cos s1 = (cos (claim r s))(self := (cos (claim r s) self)\<lparr>co_status := READY\<rparr>)"
    unfolding r(4) by metis
  have "r \<in> set (waiting_receivers s c)" by (simp add: r(1))
  then have "r \<in> set (recv_que (chans s c))" by (simp add: waiting_receivers_def)
  then have "qm_chan (quanta s r) = c" using inv(2) by (simp add: chan_ok_def que_ok_def)
  then have tag: "co_qtag (cos s1 self) = Some c" using s1(6) r(2,4) by (simp add: claim_def upd_co_def)
  have dead: "\<not> live s1 x" if "qm_select (quanta s x)" "qm_co (quanta s x) = self" for x
    using that s1(3) tag by (simp add: live_def)
  have nofetch: "fetch_quantum qs s1 \<noteq> (Some x, rest, s')" if "\<not> live s1 x" for qs x rest s'
    using that dropWhile_parts [of "\<lambda>q. \<not> live s1 q" qs x] by (auto simp: fetch_quantum_eq split: list.splits)
  let ?l = "s1\<lparr>locks := \<lambda>l. locks s1 l \<or> l \<in> set (set_locks cset)\<rparr>"
  have lk: "lock_chain_acquire cset s1 = Inr (chain_sorted cset, ?l)" using set(2,3) s1(5) by (simp add: lock_chain_acquire_eq)
  have nc: "\<forall>q\<in>set qs. Some c = Some (qm_chan (quanta ?l q)) \<longrightarrow> \<not> qm_close (quanta ?l q)" using open' s1(3) by simp
  obtain s2 where s2: "select_dequeue (Some c) (set_cases cset) qs CHAN_SUCCESS ?l = (CHAN_SUCCESS, s2)" "cos s2 = cos ?l" "locks s2 = locks ?l"
    "\<forall>c b q. (SendCase c b, q) \<in> set (zip (set_cases cset) qs) \<longrightarrow> q \<notin> set (send_que (chans s2 c))"
    "\<forall>c b q. (RecvCase c b, q) \<in> set (zip (set_cases cset) qs) \<longrightarrow> q \<notin> set (recv_que (chans s2 c))"
    using select_dequeue_ok [OF set(1) nc, of CHAN_SUCCESS] by blast
  let ?s2 = "lock_chain_release (chain_sorted cset) (upd_co self (\<lambda>c. c\<lparr>co_qtag := None\<rparr>) s2)"
  have "select_awaken self cset qs s1 = Inr (CHAN_SUCCESS, Some c, ?s2)"
    unfolding select_awaken_def lk using s2(1,2) tag by (simp add: Let_def)
  moreover have "locks ?s2 = locks s" using s2(3) s1(5) release_acquired [OF set(3)] by (simp add: lock_chain_release_eq)
  moreover have "co_qtag (cos ?s2 self) = None" "chans ?s2 = chans s2" by (simp_all add: lock_chain_release_eq upd_co_def)
  ultimately show ?thesis using s1 s2(4,5) dead nofetch by auto
qed

text \<open>Coroutine 2 selects among receiving from channel 8 and channel 9; a value is sent to channel 9.\<close>

theorem select_single_winner_witness:
  "let cset = \<lparr>set_sorted = True, set_volume = 2, set_locks = [8, 9], set_cases = [RecvCase 8 (Some 30), RecvCase 9 (Some 31)]\<rparr>;
       s = select_enqueue 2 (set_cases cset) [20, 21] chan_sys in
   \<exists>s1 s2. chan_send None 9 (Some 5) True 0 s = Inr (Ret CHAN_SUCCESS s1) \<and> mem s1 31 = Raw [5] \<and>
     (\<forall>qs rest s'. fetch_quantum qs s1 \<noteq> (Some 20, rest, s')) \<and>
     select_awaken 2 cset [20, 21] s1 = Inr (CHAN_SUCCESS, Some 9, s2) \<and> 20 \<notin> set (recv_que (chans s2 8))"
proof -
  let ?cset = "\<lparr>set_sorted = True, set_volume = 2, set_locks = [8, 9], set_cases = [RecvCase 8 (Some 30), RecvCase 9 (Some 31)]\<rparr>"
  define s where "s = select_enqueue 2 (set_cases ?cset) [20, 21] chan_sys"
  have q: "quanta s 20 = quantum_init 8 2 (Some 30) True" "quanta s 21 = quantum_init 9 2 (Some 31) True"
    "chans s 9 = (chans chan_sys 9)\<lparr>recv_que := [21]\<rparr>" "locks s = locks chan_sys" "cos s = cos chan_sys" "mem s = mem chan_sys"
    using chan_sys_ok(11) [of 9] by (simp_all add: s_def upd_chan_def upd_quantum_def)
  have inv: "sched_inv s" using chan_sys_ok(1) by (simp add: s_def upd_chan_def upd_quantum_def)
  have w: "waiting_receivers s 9 = [21]" "co_status (cos s 2) = WAIT" "co_type (cos s 2) = NORMAL"
    using q by (simp_all add: waiting_receivers_def live_def quantum_init_def chan_sys_def example_sys_def example_co_def)
  have "chan_ok s 9"
    using q w chan_sys_ok(2) [of 9] chan_sys_ok(12) [of 9]
    by (simp add: chan_ok_def que_ok_def quantum_init_def store_inv_def buf_inv_def)
  moreover have "length (set_cases ?cset) = length [20 :: addr, 21]" "distinct (set_locks ?cset)" "\<forall>l\<in>set (set_locks ?cset). \<not> locks s l"
    "\<forall>q\<in>set [20 :: addr, 21]. \<not> qm_close (quanta s q)" "\<not> locks s 9"
    using q by (simp_all add: quantum_init_def chan_sys_ok)
  ultimately have "\<exists>s1 s2. chan_send None 9 (Some 5) True 0 s = Inr (Ret CHAN_SUCCESS s1) \<and> mem s1 31 = mem s 5 \<and>
     co_status (cos s1 2) = READY \<and>
     (\<forall>x. qm_select (quanta s x) \<and> qm_co (quanta s x) = 2 \<longrightarrow> (\<forall>qs rest s'. fetch_quantum qs s1 \<noteq> (Some x, rest, s'))) \<and>
     select_awaken 2 ?cset [20, 21] s1 = Inr (CHAN_SUCCESS, Some 9, s2) \<and> co_qtag (cos s2 2) = None \<and> locks s2 = locks s \<and>
     (\<forall>c b q. (SendCase c b, q) \<in> set (zip (set_cases ?cset) [20, 21]) \<longrightarrow> q \<notin> set (send_que (chans s2 c))) \<and>
     (\<forall>c b q. (RecvCase c b, q) \<in> set (zip (set_cases ?cset) [20, 21]) \<longrightarrow> q \<notin> set (recv_que (chans s2 c)))"
    using select_single_winner [OF inv, of 9 None 21 "[]" 31 2 ?cset "[20, 21]" 5 True 0] q w by (simp add: quantum_init_def)
  then have "\<exists>s1 s2. chan_send None 9 (Some 5) True 0 s = Inr (Ret CHAN_SUCCESS s1) \<and> mem s1 31 = Raw [5] \<and>
     (\<forall>qs rest s'. fetch_quantum qs s1 \<noteq> (Some 20, rest, s')) \<and>
     select_awaken 2 ?cset [20, 21] s1 = Inr (CHAN_SUCCESS, Some 9, s2) \<and> 20 \<notin> set (recv_que (chans s2 8))"
    using q by (force simp: quantum_init_def chan_sys_ok)
  then show ?thesis unfolding Let_def s_def [symmetric] .
qed

text \<open>
  Selecting on a channel that has been closed: the attempt answers \<open>CHAN_CLOSED\<close>, which the loop treats like \<open>CHAN_BUSY\<close>, so a
  blocking select on a closed, drained channel goes to sleep in its queue instead of reporting the closed channel,
  and closing the channel again does not wake it.
\<close>

theorem select_closed_blocks:
  assumes "sched_inv s" "store_inv (chans s c)" "\<not> locks s c" "v < xt_index s" "running s v = Some self"
    and "ch_close (chans s c)" "contents (chans s c) = []" "send_que (chans s c) = []"
    and "set_cases cset = [RecvCase c b]" "set_locks cset = [c]"
  shows "\<exists>s'. chan_set_select (Some v) cset True [q] s = Inr (SelSuspended (chain_sorted cset) s') \<and> sched_inv s' \<and>
     co_status (cos s' self) = WAIT \<and> q \<in> set (recv_que (chans s' c)) \<and> (\<forall>vo. chan_close vo c s' = Inr (CHAN_CLOSED, s'))"
proof -
  let ?l = "s\<lparr>locks := \<lambda>l. locks s l \<or> l = c\<rparr>"
  have lk: "lock_chain_acquire cset s = Inr (chain_sorted cset, ?l)"
    using assms(3,10) by (simp add: lock_chain_acquire_eq)
  have nt: "copy_from (chans s c) b (mem s) = (False, chans s c, mem s)" by (rule store.take_nil [OF assms(2,7)])
  have same: "(upd_chan c (\<lambda>_. chans s c) ?l)\<lparr>mem := mem s\<rparr> = ?l" by (simp add: upd_chan_def)
  have sq: "upd_chan c (\<lambda>ch. ch\<lparr>send_que := []\<rparr>) ?l = ?l" by (rule upd_chan_idle(2)) (simp add: assms(8))
  have uc: "chans (upd_chan c (\<lambda>_. chans s c) ?l) c = chans s c" by (simp add: upd_chan_def)
  have attempt: "select_try (Some v) (set_cases (chain_sorted cset)) None ?l = Inr (Some CHAN_CLOSED, None, ?l)"
    using nt same sq uc assms(6,8,9) by (simp add: chan_recv_locked_def Let_def)
  have self: "coroutine_self (Some v) ?l = Some self" using runningD(4) [OF assms(1,4,5)] by (simp add: coroutine_self_def)
  define X where "X = select_enqueue self (set_cases (chain_sorted cset)) [q] (upd_co self (\<lambda>c. c\<lparr>co_qtag := None\<rparr>) ?l)"
  have X: "sched_inv X" "v < xt_index X" "running X v = Some self" "chans X c = (chans s c)\<lparr>recv_que := recv_que (chans s c) @ [q]\<rparr>"
    "locks X = (\<lambda>l. locks s l \<or> l = c)"
  proof -
    have X_eq: "X = upd_chan c (\<lambda>ch. ch\<lparr>recv_que := recv_que ch @ [q]\<rparr>)
        (upd_quantum q (\<lambda>_. quantum_init c self b True) (upd_co self (\<lambda>c. c\<lparr>co_qtag := None\<rparr>) ?l))"
      using assms(9) by (simp add: X_def)
    show "chans X c = (chans s c)\<lparr>recv_que := recv_que (chans s c) @ [q]\<rparr>" "locks X = (\<lambda>l. locks s l \<or> l = c)" "v < xt_index X"
      using assms(4) by (simp_all add: X_eq chan_simps upd_co_def)
    show "running X v = Some self" using assms(5) by (simp add: X_eq chan_simps running_def upd_co_def split: if_splits option.splits)
    have "sched_inv (upd_co self (\<lambda>c. c\<lparr>co_qtag := None\<rparr>) ?l)"
      by (rule sched_inv_cong [of s]) (auto simp: upd_co_def assms(1) split: if_splits)
    then show "sched_inv X" by (simp add: X_eq chan_simps)
  qed
  from sched_inv_suspend [OF X(1-3), of "set_locks (chain_sorted cset)"] obtain s' where
    s': "vpu_suspend (set_locks (chain_sorted cset)) v X = Inr s'" "sched_inv s'"
      "\<And>u. co_status (cos s' u) = (if u = self then WAIT else co_status (cos X u))" by metis
  have f: "chans s' = chans X" "locks s' = (\<lambda>l. locks X l \<and> l \<notin> set (set_locks (chain_sorted cset)))"
    using vpu_suspend_frame [OF s'(1)] by blast+
  have free: "\<not> locks s' c" using f(2) assms(10) by simp
  have "chan_close vo c s' = Inr (CHAN_CLOSED, s')" for vo
    using free f(1) X(4) assms(6) lock_twice [OF free] by (simp add: chan_close_def lock_acquire_at_def lock_release_at_def)
  moreover have "chan_set_select (Some v) cset True [q] s = Inr (SelSuspended (chain_sorted cset) s')"
    using lk attempt self assms(9) s'(1) by (simp add: chan_set_select_def Let_def X_def)
  ultimately show ?thesis using s'(2,3) f(1) X(4) by simp
qed

text \<open>Channel 8 is closed, then coroutine 1 selects on it.\<close>

theorem select_closed_blocks_witness:
  "\<exists>s s'. chan_close None 8 chan_sys = Inr (CHAN_SUCCESS, s) \<and>
     chan_set_select (Some 0) \<lparr>set_sorted = True, set_volume = 1, set_locks = [8], set_cases = [RecvCase 8 (Some 5)]\<rparr> True [20] s =
       Inr (SelSuspended \<lparr>set_sorted = True, set_volume = 1, set_locks = [8], set_cases = [RecvCase 8 (Some 5)]\<rparr> s') \<and>
     co_status (cos s' 1) = WAIT \<and> (\<forall>vo. chan_close vo 8 s' = Inr (CHAN_CLOSED, s'))"
proof -
  let ?cset = "\<lparr>set_sorted = True, set_volume = 1, set_locks = [8], set_cases = [RecvCase 8 (Some 5)]\<rparr>"
  define s where "s = upd_chan 8 (\<lambda>ch. ch\<lparr>ch_close := True\<rparr>) chan_sys"
  have c8: "chans chan_sys 8 = blank_chan" by (simp add: chan_sys_def)
  have s: "sched_inv s" "store_inv (chans s 8)" "\<not> locks s 8" "0 < xt_index s" "running s 0 = Some 1" "ch_close (chans s 8)"
    "contents (chans s 8) = []" "send_que (chans s 8) = []"
    using c8 chan_sys_ok(1,3,4,5) by (simp_all add: s_def upd_chan_def store_inv_def contents_def blank_chan_def)
  have "chan_close None 8 chan_sys = Inr (CHAN_SUCCESS, s)"
  proof -
    have l: "(locks chan_sys)(8 := False) = locks chan_sys" using chan_sys_ok(3) by (simp add: fun_eq_iff)
    show ?thesis
      using chan_sys_ok(3) [of 8] c8 [unfolded blank_chan_def] l
      by (simp add: chan_close_def lock_acquire_at_def close_waiters.simps [of _ "[]"] s_def upd_chan_def lock_release_at_def Let_def)
  qed
  moreover have "chain_sorted ?cset = ?cset" by (simp add: chain_sorted_def)
  ultimately show ?thesis using select_closed_blocks [OF s, of ?cset "Some 5" 20] by auto
qed

end
