(* ===== verification/Message.thy ===== *)
theory Message
  imports Channel_Laws
begin

text \<open>
  Messages between coroutines (\<^verbatim>\<open>src/message.c\<close>). Every coroutine starts with a channel whose store is a queue of messages,
  so the address of a coroutine is the address of that channel. A message is a size and a pointer to the payload;
  a payload is a memory cell of bytes. \<open>m\<close> is the address of the local variable \<open>_msg\<close>, which holds no message
  until one is written to it, and \<open>tmp\<close> the pointer the allocator returns
  (\<open>NULL\<close> when it has no memory).
\<close>

section \<open>The functions\<close>

text \<open>\<open>memcpy\<close> of \<open>n\<close> bytes between cells, refused where it would leave one of them.\<close>

definition copy_bytes :: "ptr \<Rightarrow> ptr \<Rightarrow> int \<Rightarrow> memory \<Rightarrow> c_err + memory" where
  "copy_bytes dst src n m = (case dst of None \<Rightarrow> Inr m | Some d \<Rightarrow> (case src of None \<Rightarrow> Inr m | Some a \<Rightarrow>
     (case m d of
        Raw old \<Rightarrow>
          (case m a of
             Raw new \<Rightarrow>
               if 0 \<le> n \<and> nat n \<le> length old \<and> nat n \<le> length new
               then Inr (m(d := Raw (List.take (nat n) new @ drop (nat n) old))) else Inl BadPointer
           | _ \<Rightarrow> Inl BadPointer)
      | _ \<Rightarrow> Inl BadPointer)))"

text \<open>The answer of the channel operation is not looked at.\<close>

definition msg_send :: "nat option \<Rightarrow> addr \<Rightarrow> ptr \<Rightarrow> int \<Rightarrow> ptr \<Rightarrow> addr \<Rightarrow> addr \<Rightarrow> sys \<Rightarrow> c_err + chan_out" where
  "msg_send vo target b n tmp m q s =
     (let mm = (case tmp of None \<Rightarrow> mem s | Some a \<Rightarrow> (mem s)(a := Raw (replicate (nat n) 0))) in
      andthen (copy_bytes tmp b n mm)
        (\<lambda>mm. andthen (chan_send vo target (Some m) True q (s\<lparr>mem := mm(m := MsgE n tmp)\<rparr>))
           (\<lambda>out. case out of Ret r s \<Rightarrow> Inr (Ret CHAN_SUCCESS s) | Suspended s \<Rightarrow> Inr (Suspended s))))"

definition msg_sendp :: "nat option \<Rightarrow> addr \<Rightarrow> ptr \<Rightarrow> int \<Rightarrow> addr \<Rightarrow> addr \<Rightarrow> sys \<Rightarrow> c_err + chan_out" where
  "msg_sendp vo target p n m q s =
     andthen (chan_send vo target (Some m) True q (s\<lparr>mem := (mem s)(m := MsgE n p)\<rparr>))
       (\<lambda>out. case out of Ret r s \<Rightarrow> Inr (Ret CHAN_SUCCESS s) | Suspended s \<Rightarrow> Inr (Suspended s))"

text \<open>What follows the channel operation in \<open>coroc_recv\<close>: copy the payload out and free it (the freed pointer is returned).\<close>

definition msg_take :: "ptr \<Rightarrow> int \<Rightarrow> addr \<Rightarrow> sys \<Rightarrow> c_err + (ptr \<times> sys)" where
  "msg_take b n m s = (case mem s m of
       MsgE k p \<Rightarrow> andthen (copy_bytes b p (min n k) (mem s)) (\<lambda>mm. Inr (p, s\<lparr>mem := mm\<rparr>))
     | _ \<Rightarrow> Inl Uninit)"

datatype msg_out = Got chan_code ptr sys | Asleep sys

definition msg_recv :: "nat option \<Rightarrow> ptr \<Rightarrow> int \<Rightarrow> bool \<Rightarrow> addr \<Rightarrow> addr \<Rightarrow> sys \<Rightarrow> c_err + msg_out" where
  "msg_recv vo b n block m q s =
     andthen (chan_recv vo None (Some m) block q (s\<lparr>mem := (mem s)(m := Raw [])\<rparr>))
       (\<lambda>out. case out of
          Ret r s \<Rightarrow> andthen (msg_take b n m s) (\<lambda>(p, s). Inr (Got r p s))
        | Suspended s \<Rightarrow> Inr (Asleep s))"

definition msg_recv_awaken :: "addr \<Rightarrow> ptr \<Rightarrow> int \<Rightarrow> addr \<Rightarrow> addr \<Rightarrow> sys \<Rightarrow> c_err + msg_out" where
  "msg_recv_awaken self b n m q s =
     andthen (chan_awaken self q s) (\<lambda>(r, s). andthen (msg_take b n m s) (\<lambda>(p, s). Inr (Got r p s)))"

text \<open>\<open>coroc_recvp\<close> hands the pointer and the size to the caller.\<close>

datatype msgp_out = GotP chan_code ptr int sys | AsleepP sys

definition msg_takep :: "chan_code \<Rightarrow> addr \<Rightarrow> sys \<Rightarrow> c_err + msgp_out" where
  "msg_takep r m s = (case mem s m of MsgE k p \<Rightarrow> Inr (GotP r p k s) | _ \<Rightarrow> Inl Uninit)"

definition msg_recvp :: "nat option \<Rightarrow> bool \<Rightarrow> addr \<Rightarrow> addr \<Rightarrow> sys \<Rightarrow> c_err + msgp_out" where
  "msg_recvp vo block m q s =
     andthen (chan_recv vo None (Some m) block q (s\<lparr>mem := (mem s)(m := Raw [])\<rparr>))
       (\<lambda>out. case out of Ret r s \<Rightarrow> msg_takep r m s | Suspended s \<Rightarrow> Inr (AsleepP s))"

definition msg_recvp_awaken :: "addr \<Rightarrow> addr \<Rightarrow> addr \<Rightarrow> sys \<Rightarrow> c_err + msgp_out" where
  "msg_recvp_awaken self m q s = andthen (chan_awaken self q s) (\<lambda>(r, s). msg_takep r m s)"

section \<open>Sending stores, receiving takes the oldest\<close>

definition inbox :: "sys \<Rightarrow> addr \<Rightarrow> bool" where
  "inbox s t \<longleftrightarrow> ch_handlers (chans s t) = MqueHandlers \<and> \<not> ch_close (chans s t) \<and> \<not> locks s t \<and>
     recv_que (chans s t) = [] \<and> send_que (chans s t) = []"

lemma inbox_simps [simp]:
  assumes "inbox s t"
  shows "store_inv (chans s t)" "chan_ok s t" "has_room (chans s t)" "waiting_receivers s t = []" "pending_senders s t = []"
    "contents (chans s t) = mque (chans s t)" "pipe s t = mque (chans s t)"
  using assms
  by (simp_all add: inbox_def store_inv_def chan_ok_def que_ok_def has_room_def waiting_receivers_def pending_senders_def contents_def pipe_def)

lemma inbox_mem [simp]: "inbox (s\<lparr>mem := x\<rparr>) t = inbox s t"
  by (simp add: inbox_def)

lemma inbox_send:
  assumes "sched_inv s" "inbox s t"
  obtains s' where "chan_send vo t (Some m) True q s = Inr (Ret CHAN_SUCCESS s')" "sched_inv s'" "inbox s' t"
    "mque (chans s' t) = mque (chans s t) @ [mem s m]" "mem s' = mem s" "cos s' = cos s" "chan_frame t s s'"
proof -
  have i: "\<not> locks s t" "\<not> ch_close (chans s t)" "send_que (chans s t) = []" "ch_handlers (chans s t) = MqueHandlers"
    using assms(2) by (simp_all add: inbox_def)
  obtain s' where s': "chan_send vo t (Some m) True q s = Inr (Ret CHAN_SUCCESS s')" "mem s' = mem s" "quanta s' = quanta s"
    "contents (chans s' t) = contents (chans s t) @ [mem s m]" "send_que (chans s' t) = send_que (chans s t)"
    "recv_que (chans s' t) = []" "cos s' = cos s" "sched_inv s'" "locks s' = locks s" "chan_ok s' t" "chan_frame t s s'"
    "ch_handlers (chans s' t) = ch_handlers (chans s t)" "bufsize (chans s' t) = bufsize (chans s t)"
    "ch_close (chans s' t) = ch_close (chans s t)"
    by (rule send_stored [OF assms(1) inbox_simps(2) [OF assms(2)] i(1) inbox_simps(4) [OF assms(2)] i(2) inbox_simps(3) [OF assms(2)], of vo m True q])
       (rule that)
  have n: "inbox s' t" using s' i by (simp add: inbox_def)
  show ?thesis by (rule that [OF s'(1,8) n _ s'(2,7,11)]) (use s'(4) n assms(2) in simp)
qed

lemma inbox_recv:
  assumes "sched_inv s" "inbox s t" "mque (chans s t) = x # xs" "coroutine_self vo s = Some t"
  obtains s' where "chan_recv vo None (Some m) block q s = Inr (Ret CHAN_SUCCESS s')" "sched_inv s'" "inbox s' t"
    "mque (chans s' t) = xs" "mem s' = (mem s)(m := x)" "cos s' = cos s" "running s' = running s"
proof -
  have i: "\<not> locks s t" "contents (chans s t) = x # xs" using assms(2,3) by (simp_all add: inbox_def contents_def)
  have e: "chan_recv vo None (Some m) block q s = chan_recv vo (Some t) (Some m) block q s"
    using assms(4) by (simp add: chan_recv_def)
  obtain s' where s': "chan_recv vo (Some t) (Some m) block q s = Inr (Ret CHAN_SUCCESS s')" "mem s' = (mem s)(m := x)"
    "contents (chans s' t) = xs" "same_waiters (chans s t) (chans s' t)" "quanta s' = quanta s" "cos s' = cos s" "sched_inv s'"
    "locks s' = locks s" "chan_ok s' t" "\<And>c'. c' \<noteq> t \<Longrightarrow> chans s' c' = chans s c'" "running s' = running s" "rmem s' = rmem s"
    by (rule recv_stored [OF assms(1) inbox_simps(2) [OF assms(2)] i, of vo m block q]) (rule that)
  have n: "inbox s' t" using s'(4,8) assms(2) by (simp add: inbox_def same_waiters_def)
  show ?thesis by (rule that [OF s'(1) [folded e] s'(7) n _ s'(2,6,11)]) (use s'(3) n in simp)
qed

section \<open>Properties\<close>

lemma self_running:
  "sched_inv s \<Longrightarrow> v < xt_index s \<Longrightarrow> running s v = Some t \<Longrightarrow> coroutine_self (Some v) s = Some t"
  using runningD(4) [of s v t] by (simp add: coroutine_self_def)

text \<open>
  Claim C17. A message sent to a coroutine is what that coroutine receives: the receiver's buffer starts with the first bytes of the
  sender's buffer, as many as both asked for, the bytes behind them are untouched, and the copy made for the
  transport is freed exactly then.
\<close>

theorem message_roundtrip:
  assumes "sched_inv s" "inbox s t" "mque (chans s t) = []" "v < xt_index s" "running s v = Some t"
    and "mem s b = Raw bs" "mem s d = Raw old" "0 \<le> n" "nat n \<le> length bs" "0 \<le> k" "nat k \<le> length old" "distinct [a, b, d, m, m']"
  shows "\<exists>s1 s2. msg_send vo t (Some b) n (Some a) m q s = Inr (Ret CHAN_SUCCESS s1) \<and>
     msg_recv (Some v) (Some d) k block m' q' s1 = Inr (Got CHAN_SUCCESS (Some a) s2) \<and>
     mem s2 d = Raw (List.take (nat (min n k)) bs @ drop (nat (min n k)) old) \<and> mque (chans s2 t) = [] \<and> inbox s2 t \<and> sched_inv s2"
proof -
  let ?mm = "(mem s)(a := Raw (List.take (nat n) bs), m := MsgE n (Some a))"
  have cp: "copy_bytes (Some a) (Some b) n ((mem s)(a := Raw (replicate (nat n) 0))) = Inr ((mem s)(a := Raw (List.take (nat n) bs)))"
    using assms(6,8,9,12) by (auto simp: copy_bytes_def)
  have "sched_inv (s\<lparr>mem := ?mm\<rparr>)" "inbox (s\<lparr>mem := ?mm\<rparr>) t" using assms(1,2) by simp_all
  then obtain s1 where s1: "chan_send vo t (Some m) True q (s\<lparr>mem := ?mm\<rparr>) = Inr (Ret CHAN_SUCCESS s1)" "sched_inv s1" "inbox s1 t"
    "mque (chans s1 t) = [MsgE n (Some a)]" "mem s1 = ?mm" "xt_index s1 = xt_index s" "running s1 = running s"
    using inbox_send [of "s\<lparr>mem := ?mm\<rparr>" t vo m q] assms(3) by (auto simp: chan_frame_def)
  have send: "msg_send vo t (Some b) n (Some a) m q s = Inr (Ret CHAN_SUCCESS s1)"
    using cp s1(1) by (simp add: msg_send_def Let_def)
  let ?r = "s1\<lparr>mem := (mem s1)(m' := Raw [])\<rparr>"
  have "coroutine_self (Some v) ?r = Some t" by (rule self_running) (use s1 assms(4,5) in simp_all)
  then obtain s2 where s2: "chan_recv (Some v) None (Some m') block q' ?r = Inr (Ret CHAN_SUCCESS s2)" "sched_inv s2" "inbox s2 t"
    "mque (chans s2 t) = []" "mem s2 = (mem ?r)(m' := MsgE n (Some a))"
    using inbox_recv [of ?r t "MsgE n (Some a)" "[]" "Some v" m' block q'] s1(2-4) by auto
  have m2: "mem s2 m' = MsgE n (Some a)" "mem s2 a = Raw (List.take (nat n) bs)" "mem s2 d = Raw old"
    using s2(5) s1(5) assms(7,12) by auto
  let ?s = "s2\<lparr>mem := (mem s2)(d := Raw (List.take (nat (min k n)) (List.take (nat n) bs) @ drop (nat (min k n)) old))\<rparr>"
  have "nat (min k n) \<le> length old" "nat (min k n) \<le> nat n" using assms(8,10,11) by linarith+
  then have "msg_take (Some d) k m' s2 = Inr (Some a, ?s)"
    using m2 assms(8-11) by (simp add: msg_take_def copy_bytes_def)
  then have "msg_recv (Some v) (Some d) k block m' q' s1 = Inr (Got CHAN_SUCCESS (Some a) ?s)"
    using s2(1) by (simp add: msg_recv_def)
  moreover have "mem ?s d = Raw (List.take (nat (min n k)) bs @ drop (nat (min n k)) old)"
    by (auto simp: min_def)
  ultimately show ?thesis using send s2(2,3,4) by (intro exI [of _ s1] exI [of _ ?s]) simp
qed

text \<open>The main coroutine 1 sends itself the three bytes 7, 8, 9 and asks for two of them.\<close>

definition msg_sys :: sys where
  "msg_sys = example_sys\<lparr>chans := (\<lambda>c. async_chan_init blank_chan), mem := (\<lambda>a. if a = 30 then Raw [7, 8, 9] else Raw [0, 0, 0])\<rparr>"

lemma msg_sys_ok: "sched_inv msg_sys" "inbox msg_sys t" "mque (chans msg_sys t) = []" "xt_index msg_sys = 2" "running msg_sys 0 = Some 1"
  "mem msg_sys 30 = Raw [7, 8, 9]" "mem msg_sys 31 = Raw [0, 0, 0]"
  using example_sched_inv example_running [of 0]
  by (simp_all add: msg_sys_def inbox_def async_chan_init_def chan_init_def)
     (simp_all add: example_sys_def)

theorem message_roundtrip_witness:
  "\<exists>s1 s2. msg_send (Some 0) 1 (Some 30) 3 (Some 40) 41 20 msg_sys = Inr (Ret CHAN_SUCCESS s1) \<and>
     msg_recv (Some 0) (Some 31) 2 True 42 21 s1 = Inr (Got CHAN_SUCCESS (Some 40) s2) \<and> mem s2 31 = Raw [7, 8, 0]"
  using message_roundtrip [of msg_sys 1 0 30 "[7, 8, 9]" 31 "[0, 0, 0]" 3 2 40 41 42 "Some 0" 20 True 21]
  by (auto simp: msg_sys_ok)

text \<open>
  Asking for a message without blocking when there is none reads the local message that nobody has filled: \<open>coroc_recv\<close> copies
  through the uninitialised pointer and frees it, and \<open>coroc_recvp\<close> returns it, whatever the caller does with the
  answer \<open>CHAN_BUSY\<close>.
\<close>

theorem message_poll_uninitialised:
  assumes "sched_inv s" "inbox s t" "mque (chans s t) = []" "v < xt_index s" "running s v = Some t"
  shows "msg_recv (Some v) b n False m q s = Inl Uninit \<and> msg_recvp (Some v) False m q s = Inl Uninit"
proof -
  let ?r = "s\<lparr>mem := (mem s)(m := Raw [])\<rparr>"
  have i: "inbox ?r t" "\<not> locks ?r t" using assms(2) by (simp_all add: inbox_def)
  have self: "coroutine_self (Some v) ?r = Some t" by (rule self_running) (use assms in simp_all)
  have "chan_recv (Some v) (Some t) (Some m) False q ?r = Inr (Ret CHAN_BUSY (upd_chan t (\<lambda>ch. ch\<lparr>send_que := []\<rparr>) ?r))"
    using recv_nothing_eq [OF inbox_simps(1) [OF i(1)] i(2) _ inbox_simps(5) [OF i(1)], of "Some v" "Some m" False q]
      assms(2,3) i(1) by (simp add: Let_def inbox_def)
  then have "chan_recv (Some v) None (Some m) False q ?r = Inr (Ret CHAN_BUSY (upd_chan t (\<lambda>ch. ch\<lparr>send_que := []\<rparr>) ?r))"
    using self by (simp add: chan_recv_def)
  then show ?thesis by (simp add: msg_recv_def msg_take_def msg_recvp_def msg_takep_def upd_chan_def)
qed

theorem message_poll_uninitialised_witness:
  "msg_recv (Some 0) (Some 31) 2 False 42 21 msg_sys = Inl Uninit"
  using message_poll_uninitialised [of msg_sys 1 0 "Some 31" 2 42 21] by (simp add: msg_sys_ok)

text \<open>
  Sending to a coroutine that has finished: its message queue is closed, the message is stored nowhere, and \<open>coroc_send\<close> and
  \<open>coroc_sendp\<close> still answer \<open>CHAN_SUCCESS\<close>.
\<close>

theorem message_lost_reported_sent:
  assumes "store_inv (chans s t)" "recv_que (chans s t) = []" "\<not> locks s t"
  shows "\<exists>s'. msg_sendp vo t p n m q (s\<lparr>chans := (chans s)(t := async_chan_fini (chans s t))\<rparr>) = Inr (Ret CHAN_SUCCESS s') \<and>
     mque (chans s' t) = []"
proof -
  let ?ch = "async_chan_fini (chans s t)"
  let ?s = "s\<lparr>chans := (chans s)(t := ?ch), mem := (mem s)(m := MsgE n p)\<rparr>"
  have "store_inv (chans ?s t)" using assms(1) by (simp add: async_chan_fini_def store_inv_def buf_inv_def)
  then have "chan_send vo t (Some m) True q ?s = Inr (Ret CHAN_CLOSED ?s)"
    using assms(2,3) by (intro send_closed_eq) (simp_all add: async_chan_fini_def)
  then show ?thesis by (simp add: msg_sendp_def async_chan_fini_def)
qed

theorem message_lost_reported_sent_witness:
  "\<exists>s'. msg_sendp (Some 0) 3 (Some 30) 3 41 20 (msg_sys\<lparr>chans := (chans msg_sys)(3 := async_chan_fini (chans msg_sys 3))\<rparr>) =
     Inr (Ret CHAN_SUCCESS s') \<and> mque (chans s' 3) = []"
  by (rule message_lost_reported_sent) (use msg_sys_ok(2) [of 3] in \<open>simp_all add: inbox_def\<close>)

end
