(* ===== verification/Timer_Heap.thy ===== *)
theory Timer_Heap
  imports Prelude
begin

text \<open>
  The heap of timers (\<^verbatim>\<open>src/time.c\<close>, \<open>__exchange_heap\<close>, \<open>__down_adjust_heap\<close>, \<open>__up_adjust_heap\<close>). The array of the manager holds
  pointers to timers, ordered as a binary heap by the time \<open>when\<close> at which they are due, and each timer knows
  its position in the array. The positions are counted without bound: the number of timers is an \<open>int32_t\<close>,
  so \<open>2 * cur + 2\<close> stays below \<open>2 ^ 32\<close> for every position \<open>cur\<close> in use.
\<close>

section \<open>Timers and the array\<close>

text \<open>The two functions the library installs: sending on the channel of a user's timer, and the deadline of a network wait.\<close>

datatype timer_func = SendTimer | NetpollTimeout

record inter_timer =
  tm_when :: u64
  tm_period :: u32
  tm_index :: int
  tm_func :: timer_func
  tm_args :: ptr
  tm_owner :: ptr

record theap =
  timers :: "addr list"
  tst :: "addr \<Rightarrow> inter_timer"

definition upd_timer :: "addr \<Rightarrow> (inter_timer \<Rightarrow> inter_timer) \<Rightarrow> theap \<Rightarrow> theap" where
  "upd_timer t f h = h\<lparr>tst := (tst h)(t := f (tst h t))\<rparr>"

definition due :: "theap \<Rightarrow> nat \<Rightarrow> u64" where
  "due h i = tm_when (tst h (timers h ! i))"

definition exchange_heap :: "nat \<Rightarrow> nat \<Rightarrow> theap \<Rightarrow> theap" where
  "exchange_heap e0 e1 h =
     (let tmp = timers h ! e0; h = h\<lparr>timers := (timers h)[e0 := timers h ! e1]\<rparr>;
          h = h\<lparr>timers := (timers h)[e1 := tmp]\<rparr>;
          h = upd_timer (timers h ! e0) (\<lambda>t. t\<lparr>tm_index := int e0\<rparr>) h in
      upd_timer (timers h ! e1) (\<lambda>t. t\<lparr>tm_index := int e1\<rparr>) h)"

function down_adjust_heap :: "nat \<Rightarrow> nat \<Rightarrow> theap \<Rightarrow> theap" where
  "down_adjust_heap cur n h =
     (let left = 2 * cur + 1; right = left + 1 in
      if n \<le> left then h
      else
        (let tmp = (if n \<le> right then left else if due h left < due h right then left else right) in
         if due h tmp < due h cur then down_adjust_heap tmp n (exchange_heap cur tmp h) else h))"
  by pat_completeness auto
termination
  by (relation "measure (\<lambda>(cur, n, h). n - cur)") (auto split: if_splits)

fun up_adjust_heap :: "nat \<Rightarrow> theap \<Rightarrow> theap" where
  "up_adjust_heap cur h =
     (if cur = 0 then h
      else
        (let parent = (cur - 1) div 2 in
         if due h cur < due h parent then up_adjust_heap parent (exchange_heap cur parent h) else h))"

declare down_adjust_heap.simps [simp del] up_adjust_heap.simps [simp del]

section \<open>Well-formed arrays\<close>

abbreviation parent :: "nat \<Rightarrow> nat" where
  "parent i \<equiv> (i - 1) div 2"

text \<open>The first \<open>n\<close> entries are different timers that know where they are.\<close>

definition placed :: "theap \<Rightarrow> nat \<Rightarrow> bool" where
  "placed h n \<longleftrightarrow> n \<le> length (timers h) \<and> distinct (take n (timers h)) \<and> (\<forall>i<n. tm_index (tst h (timers h ! i)) = int i)"

definition heap_ok :: "theap \<Rightarrow> nat \<Rightarrow> bool" where
  "heap_ok h n \<longleftrightarrow> (\<forall>i<n. 0 < i \<longrightarrow> due h (parent i) \<le> due h i)"

text \<open>What adjusting leaves alone: the set of timers in use, the rest of the array, and everything of a timer but its position.\<close>

definition only_moved :: "nat \<Rightarrow> theap \<Rightarrow> theap \<Rightarrow> bool" where
  "only_moved n h h' \<longleftrightarrow> length (timers h') = length (timers h) \<and> mset (take n (timers h')) = mset (take n (timers h)) \<and>
     drop n (timers h') = drop n (timers h) \<and>
     (\<forall>t. \<exists>i. tst h' t = (tst h t)\<lparr>tm_index := i\<rparr>) \<and> (\<forall>t. t \<notin> set (take n (timers h)) \<longrightarrow> tst h' t = tst h t)"

lemma only_moved_refl: "only_moved n h h"
proof -
  have "\<exists>i. tst h t = (tst h t)\<lparr>tm_index := i\<rparr>" for t by (rule exI [of _ "tm_index (tst h t)"]) simp
  then show ?thesis by (simp add: only_moved_def)
qed

lemma only_moved_trans:
  assumes "only_moved n a b" "only_moved n b c"
  shows "only_moved n a c"
proof -
  have "\<exists>i. tst c t = (tst a t)\<lparr>tm_index := i\<rparr>" for t
  proof -
    obtain i j where "tst b t = (tst a t)\<lparr>tm_index := i\<rparr>" "tst c t = (tst b t)\<lparr>tm_index := j\<rparr>"
      using assms unfolding only_moved_def by blast
    then show ?thesis by auto
  qed
  moreover have "set (take n (timers b)) = set (take n (timers a))"
    using assms(1) unfolding only_moved_def by (metis mset_eq_setD)
  ultimately show ?thesis using assms unfolding only_moved_def by auto
qed

lemma only_moved_when: "only_moved n h h' \<Longrightarrow> tm_when (tst h' t) = tm_when (tst h t)"
  unfolding only_moved_def by (metis inter_timer.select_convs(1) inter_timer.surjective inter_timer.update_convs(3))

lemma exchange_timers:
  assumes "i < length (timers h)" "j < length (timers h)"
  shows "timers (exchange_heap i j h) = (timers h)[i := timers h ! j, j := timers h ! i]"
  using assms by (simp add: exchange_heap_def upd_timer_def Let_def)

lemma exchange_tst:
  "tst (exchange_heap i j h) t = (if t = timers (exchange_heap i j h) ! j then (tst h t)\<lparr>tm_index := int j\<rparr>
     else if t = timers (exchange_heap i j h) ! i then (tst h t)\<lparr>tm_index := int i\<rparr> else tst h t)"
  by (simp add: exchange_heap_def upd_timer_def Let_def)

lemma due_exchange:
  assumes "i < length (timers h)" "j < length (timers h)"
  shows "due (exchange_heap i j h) k = due h (if k = i then j else if k = j then i else k)"
proof -
  have "tm_when (tst (exchange_heap i j h) t) = tm_when (tst h t)" for t by (simp add: exchange_tst)
  then show ?thesis using assms by (auto simp: due_def exchange_timers nth_list_update)
qed

lemma mset_take_swap:
  assumes "i < n" "j < n" "n \<le> length xs"
  shows "mset (take n (xs[i := xs ! j, j := xs ! i])) = mset (take n xs)"
  using mset_swap [of j "take n xs" i] assms by (simp add: take_update_swap)

lemma exchange_ok:
  assumes "placed h n" "i < n" "j < n"
  shows "placed (exchange_heap i j h) n" "only_moved n h (exchange_heap i j h)"
proof -
  have l: "i < length (timers h)" "j < length (timers h)" "n \<le> length (timers h)" using assms by (auto simp: placed_def)
  let ?xs = "timers h"
  let ?h = "exchange_heap i j h"
  have xs: "timers ?h = ?xs[i := ?xs ! j, j := ?xs ! i]" by (rule exchange_timers [OF l(1,2)])
  have ms: "mset (take n (timers ?h)) = mset (take n ?xs)" unfolding xs by (rule mset_take_swap [OF assms(2,3) l(3)])
  then have dis: "distinct (take n (timers ?h))" using assms(1) unfolding placed_def by (metis mset_eq_imp_distinct_iff)
  have len: "length (timers ?h) = length ?xs" by (simp add: xs)
  have inj: "timers ?h ! k \<noteq> timers ?h ! m" if "k < n" "m < n" "k \<noteq> m" for k m
    using dis that l(3) len by (auto simp: distinct_conv_nth)
  have "tm_index (tst ?h (timers ?h ! k)) = int k" if k: "k < n" for k
  proof -
    consider "k = j" | "k = i" "k \<noteq> j" | "k \<noteq> i" "k \<noteq> j" by blast
    then show ?thesis
    proof cases
      case 3
      then have "timers ?h ! k \<noteq> timers ?h ! j" "timers ?h ! k \<noteq> timers ?h ! i" using inj k assms(2,3) by blast+
      then have "tst ?h (timers ?h ! k) = tst h (timers ?h ! k)" by (simp add: exchange_tst)
      moreover have "timers ?h ! k = ?xs ! k" using 3 by (simp add: xs)
      ultimately show ?thesis using assms(1) k by (simp add: placed_def)
    qed (use inj [of i j] k assms(2,3) exchange_tst [of i j h "timers ?h ! k"] in simp_all)
  qed
  then show "placed ?h n" using dis l(3) len by (simp add: placed_def)
  have sub: "timers ?h ! i \<in> set (take n ?xs)" "timers ?h ! j \<in> set (take n ?xs)"
    using assms(2,3) l by (auto simp: xs nth_list_update in_set_conv_nth)
  have "\<exists>k. tst ?h t = (tst h t)\<lparr>tm_index := k\<rparr>" for t
  proof -
    have "tst h t = (tst h t)\<lparr>tm_index := tm_index (tst h t)\<rparr>" by simp
    then show ?thesis unfolding exchange_tst by (metis (full_types))
  qed
  moreover have "tst ?h t = tst h t" if "t \<notin> set (take n ?xs)" for t using that sub by (auto simp: exchange_tst)
  moreover have "drop n (timers ?h) = drop n ?xs" using assms(2,3) by (simp add: xs)
  ultimately show "only_moved n h ?h" using ms len by (simp add: only_moved_def)
qed

section \<open>Restoring the order\<close>

lemma parent_iff: "0 < i \<Longrightarrow> parent i = p \<longleftrightarrow> i = 2 * p + 1 \<or> i = 2 * p + 2"
  by linarith

lemma parent_less: "0 < i \<Longrightarrow> parent i < i"
  by linarith

text \<open>The order holds except possibly between \<open>cur\<close> and its parent, and \<open>cur\<close> may be exchanged with its parent.\<close>

definition up_ok :: "theap \<Rightarrow> nat \<Rightarrow> nat \<Rightarrow> bool" where
  "up_ok h n cur \<longleftrightarrow> (\<forall>i<n. 0 < i \<and> i \<noteq> cur \<longrightarrow> due h (parent i) \<le> due h i) \<and>
     (0 < cur \<longrightarrow> (\<forall>i<n. 0 < i \<and> parent i = cur \<longrightarrow> due h (parent cur) \<le> due h i))"

lemma up_ok_exchange:
  assumes "up_ok h n cur" "n \<le> length (timers h)" "cur < n" "0 < cur" "due h cur < due h (parent cur)"
  shows "up_ok (exchange_heap cur (parent cur) h) n (parent cur)"
proof -
  let ?p = "parent cur"
  let ?h = "exchange_heap cur ?p h"
  have lt: "?p < cur" "cur < length (timers h)" "?p < length (timers h)" using parent_less [OF assms(4)] assms(2,3) by linarith+
  have d: "due ?h k = due h (if k = cur then ?p else if k = ?p then cur else k)" for k by (rule due_exchange [OF lt(2,3)])
  have up: "due h (parent i) \<le> due h i" if "i < n" "0 < i" "i \<noteq> cur" for i using assms(1) that by (simp add: up_ok_def)
  have gp: "due h ?p \<le> due h i" if "i < n" "0 < i" "parent i = cur" for i using assms(1,4) that by (simp add: up_ok_def)
  have "due ?h (parent i) \<le> due ?h i" if i: "i < n" "0 < i" "i \<noteq> ?p" for i
  proof (cases "i = cur")
    case True
    then show ?thesis using d [of ?p] d [of cur] lt(1) assms(5) by simp
  next
    case False
    then have di: "due ?h i = due h i" using d i(3) by simp
    consider "parent i = cur" | "parent i = ?p" "parent i \<noteq> cur" | "parent i \<noteq> cur" "parent i \<noteq> ?p" by blast
    then show ?thesis
    proof cases
      case 1
      then show ?thesis using gp [OF i(1,2)] d [of cur] di by simp
    next
      case 2
      then have "due ?h (parent i) = due h cur" using d [of ?p] lt(1) by simp
      then show ?thesis using up [OF i(1,2) False] 2 assms(5) di by simp
    next
      case 3
      then show ?thesis using up [OF i(1,2) False] d [of "parent i"] di by simp
    qed
  qed
  moreover have "due ?h (parent ?p) \<le> due ?h i" if i: "0 < ?p" "i < n" "0 < i" "parent i = ?p" for i
  proof -
    have pp: "parent ?p < ?p" using parent_less [OF i(1)] .
    then have "due ?h (parent ?p) = due h (parent ?p)" using d [of "parent ?p"] lt(1) by simp
    also have "\<dots> \<le> due h ?p" using up [of ?p] i(1) lt(1) assms(3) by linarith
    also have "\<dots> \<le> due ?h i"
    proof (cases "i = cur")
      case True
      then show ?thesis using d [of cur] by simp
    next
      case False
      then show ?thesis using up [OF i(2,3)] d [of i] i(3,4) parent_less [OF i(3)] by auto
    qed
    finally show ?thesis .
  qed
  ultimately show ?thesis by (simp add: up_ok_def)
qed

lemma up_adjust_ok:
  assumes "placed h n" "cur < n" "up_ok h n cur"
  shows "placed (up_adjust_heap cur h) n \<and> only_moved n h (up_adjust_heap cur h) \<and> heap_ok (up_adjust_heap cur h) n"
  using assms
proof (induction cur h rule: up_adjust_heap.induct)
  case (1 cur h)
  let ?p = "parent cur"
  show ?case
  proof (cases "0 < cur \<and> due h cur < due h ?p")
    case True
    let ?h = "exchange_heap cur ?p h"
    have p: "?p < n" using parent_less [of cur] True "1.prems"(2) by linarith
    have e: "up_adjust_heap cur h = up_adjust_heap ?p ?h" using True by (simp add: up_adjust_heap.simps [of cur] Let_def)
    have n: "n \<le> length (timers h)" using "1.prems"(1) by (simp add: placed_def)
    from "1.IH" [OF _ refl] True exchange_ok [OF "1.prems"(1,2) p] up_ok_exchange [OF "1.prems"(3) n "1.prems"(2)] p
    show ?thesis unfolding e by (auto intro: only_moved_trans)
  next
    case False
    then have "up_adjust_heap cur h = h" by (auto simp: up_adjust_heap.simps [of cur] Let_def)
    moreover have "heap_ok h n" using False "1.prems"(3) by (auto simp: heap_ok_def up_ok_def)
    ultimately show ?thesis using "1.prems"(1) only_moved_refl by simp
  qed
qed

text \<open>The order holds except possibly between \<open>cur\<close> and its children.\<close>

definition down_ok :: "theap \<Rightarrow> nat \<Rightarrow> nat \<Rightarrow> bool" where
  "down_ok h n cur \<longleftrightarrow> (\<forall>i<n. 0 < i \<and> parent i \<noteq> cur \<longrightarrow> due h (parent i) \<le> due h i) \<and>
     (0 < cur \<longrightarrow> (\<forall>i<n. 0 < i \<and> parent i = cur \<longrightarrow> due h (parent cur) \<le> due h i))"

lemma down_ok_exchange:
  assumes "down_ok h n cur" "n \<le> length (timers h)" "c < n" "0 < c" "parent c = cur" "due h c < due h cur"
    and least: "\<And>i. i < n \<Longrightarrow> 0 < i \<Longrightarrow> parent i = cur \<Longrightarrow> due h c \<le> due h i"
  shows "down_ok (exchange_heap cur c h) n c"
proof -
  let ?h = "exchange_heap cur c h"
  have lt: "cur < c" "cur < length (timers h)" "c < length (timers h)" using parent_less [OF assms(4)] assms(2,3,5) by linarith+
  have d: "due ?h k = due h (if k = cur then c else if k = c then cur else k)" for k by (rule due_exchange [OF lt(2,3)])
  have dn: "due h (parent i) \<le> due h i" if "i < n" "0 < i" "parent i \<noteq> cur" for i using assms(1) that by (simp add: down_ok_def)
  have gp: "due h (parent cur) \<le> due h i" if "i < n" "0 < i" "0 < cur" "parent i = cur" for i using assms(1) that by (simp add: down_ok_def)
  have "due ?h (parent i) \<le> due ?h i" if i: "i < n" "0 < i" "parent i \<noteq> c" for i
  proof (cases "parent i = cur")
    case True
    then have "due ?h (parent i) = due h c" "i \<noteq> cur" using d [of cur] parent_less [OF i(2)] by auto
    then show ?thesis using d [of i] least [OF i(1,2) True] assms(6) lt(1) by auto
  next
    case False
    have pd: "due ?h (parent i) = due h (parent i)" using d [of "parent i"] False i(3) by simp
    show ?thesis
    proof (cases "i = cur")
      case True
      then show ?thesis using gp [OF assms(3,4)] i(2) assms(5) pd d [of cur] by simp
    next
      case ne: False
      then have "i \<noteq> c" using False assms(5) by blast
      then show ?thesis using dn [OF i(1,2) False] pd d [of i] ne by simp
    qed
  qed
  moreover have "due ?h (parent c) \<le> due ?h i" if i: "i < n" "0 < i" "parent i = c" for i
  proof -
    have "i \<noteq> c" "i \<noteq> cur" using parent_less [OF i(2)] i(3) lt(1) by auto
    then have "due ?h i = due h i" "due ?h (parent c) = due h c" using d [of i] d [of cur] assms(5) by simp_all
    then show ?thesis using dn [OF i(1,2)] i(3) lt(1) by simp
  qed
  ultimately show ?thesis by (simp add: down_ok_def)
qed

lemma down_adjust_moves:
  assumes "placed h n"
  shows "placed (down_adjust_heap cur n h) n \<and> only_moved n h (down_adjust_heap cur n h)"
  using assms
proof (induction cur n h rule: down_adjust_heap.induct)
  case (1 cur n h)
  define c where "c = (if n \<le> 2 * cur + 1 + 1 then 2 * cur + 1 else if due h (2 * cur + 1) < due h (2 * cur + 1 + 1) then 2 * cur + 1
    else 2 * cur + 1 + 1)"
  show ?case
  proof (cases "2 * cur + 1 < n \<and> due h c < due h cur")
    case True
    have c: "c < n" "cur < n" using True by (auto simp: c_def)
    have e: "down_adjust_heap cur n h = down_adjust_heap c n (exchange_heap cur c h)"
      using True unfolding down_adjust_heap.simps [of cur] Let_def c_def [symmetric] by simp
    note x = exchange_ok [OF "1.prems" c(2,1)]
    then show ?thesis unfolding e using "1.IH" [OF refl refl _ c_def] True only_moved_trans by (metis not_le)
  next
    case False
    then have "down_adjust_heap cur n h = h" unfolding down_adjust_heap.simps [of cur] Let_def c_def [symmetric] by auto
    then show ?thesis using "1.prems" only_moved_refl by simp
  qed
qed

lemma down_adjust_ok:
  assumes "placed h n" "cur < n \<or> n = 0" "down_ok h n cur"
  shows "placed (down_adjust_heap cur n h) n \<and> only_moved n h (down_adjust_heap cur n h) \<and> heap_ok (down_adjust_heap cur n h) n"
  using assms
proof (induction cur n h rule: down_adjust_heap.induct)
  case (1 cur n h)
  define c where "c = (if n \<le> 2 * cur + 1 + 1 then 2 * cur + 1 else if due h (2 * cur + 1) < due h (2 * cur + 1 + 1) then 2 * cur + 1
    else 2 * cur + 1 + 1)"
  have kids: "i = 2 * cur + 1 \<or> i = 2 * cur + 1 + 1" if "0 < i" "parent i = cur" for i using parent_iff [OF that(1), of cur] that(2) by linarith
  show ?case
  proof (cases "2 * cur + 1 < n \<and> due h c < due h cur")
    case True
    let ?h = "exchange_heap cur c h"
    have c: "c < n" "0 < c" "parent c = cur" using True by (auto simp: c_def)
    have least: "due h c \<le> due h i" if "i < n" "0 < i" "parent i = cur" for i
      using kids [OF that(2,3)] that(1) by (auto simp: c_def)
    have e: "down_adjust_heap cur n h = down_adjust_heap c n ?h"
      using True unfolding down_adjust_heap.simps [of cur] Let_def c_def [symmetric] by simp
    have n: "n \<le> length (timers h)" "cur < n" using "1.prems"(1) True by (simp_all add: placed_def)
    have "placed (down_adjust_heap c n ?h) n \<and> only_moved n ?h (down_adjust_heap c n ?h) \<and> heap_ok (down_adjust_heap c n ?h) n"
      using "1.IH" [OF refl refl _ c_def] True exchange_ok [OF "1.prems"(1) n(2) c(1)] down_ok_exchange [OF "1.prems"(3) n(1) c] c(1) least
      by simp
    then show ?thesis unfolding e using exchange_ok(2) [OF "1.prems"(1) n(2) c(1)] only_moved_trans by blast
  next
    case False
    then have e: "down_adjust_heap cur n h = h"
      unfolding down_adjust_heap.simps [of cur] Let_def c_def [symmetric] by auto
    have "due h cur \<le> due h i" if "i < n" "0 < i" "parent i = cur" for i
      using kids [OF that(2,3)] that(1) False by (auto simp: c_def split: if_splits)
    then have "heap_ok h n" using "1.prems"(3) unfolding heap_ok_def down_ok_def by metis
    with e show ?thesis using "1.prems"(1) only_moved_refl by simp
  qed
qed

end
