(* ===== verification/Timer.thy ===== *)
theory Timer
  imports Timer_Heap Channel_Laws
begin

text \<open>
  Timers (\<^verbatim>\<open>src/time.c\<close>, \<^verbatim>\<open>include/inter/coroc_time.h\<close>): the manager of all timers, the daemon coroutine that fires them, and the
  timers users have. A user's timer is a channel with room for one time stamp and an internal timer; both are named
  by the address of the whole, and so is the memory cell of its field \<open>when\<close>. The time the clock shows is an argument
  of every function that reads it. The configuration is the default one, with kernel notification.
\<close>

section \<open>The manager\<close>

record tmgr =
  th :: theap
  tm_lock :: addr
  tm_note :: bool
  tm_suspend :: bool
  tm_cap :: nat
  tm_size :: nat
  tm_daemon :: ptr

definition TSC_DEFAULT_INTERTIMERS_CAP :: nat where
  "TSC_DEFAULT_INTERTIMERS_CAP = 32"

definition intertimer_initialize :: "tmgr \<Rightarrow> tmgr" where
  "intertimer_initialize m = m\<lparr>tm_size := 0, tm_cap := TSC_DEFAULT_INTERTIMERS_CAP, tm_note := False,
     th := (th m)\<lparr>timers := replicate TSC_DEFAULT_INTERTIMERS_CAP 0\<rparr>\<rparr>"

definition notify_wakeup :: "tmgr \<Rightarrow> tmgr" where
  "notify_wakeup m = m\<lparr>tm_note := True\<rparr>"

definition notify_clear :: "tmgr \<Rightarrow> tmgr" where
  "notify_clear m = m\<lparr>tm_note := False\<rparr>"

text \<open>\<open>t\<close> is the address of the new coroutine, \<open>entry\<close> that of \<open>coroc_intertimer_routine\<close>.\<close>

definition TSC_PRIO_HIGH :: nat where "TSC_PRIO_HIGH = 1"

definition intertimer_start :: "nat option \<Rightarrow> addr \<Rightarrow> addr \<Rightarrow> tmgr \<Rightarrow> sys \<Rightarrow> c_err + (tmgr \<times> sys)" where
  "intertimer_start vo t entry m s =
     (if tm_daemon m \<noteq> None then Inl AssertFail
      else andthen (coroutine_allocate t (Some entry) None NORMAL TSC_PRIO_HIGH None vo s) (\<lambda>s. Inr (m\<lparr>tm_daemon := Some t\<rparr>, s)))"

text \<open>The array grows to the double capacity; its new entries are never read before they are written.\<close>

definition grow :: "tmgr \<Rightarrow> tmgr" where
  "grow m = (if tm_cap m = tm_size m
     then m\<lparr>tm_cap := tm_cap m * 2, th := (th m)\<lparr>timers := timers (th m) @ replicate (tm_cap m) 0\<rparr>\<rparr> else m)"

definition heap_push :: "addr \<Rightarrow> nat \<Rightarrow> theap \<Rightarrow> theap" where
  "heap_push t n h = up_adjust_heap n (upd_timer t (\<lambda>r. r\<lparr>tm_index := int n\<rparr>) (h\<lparr>timers := (timers h)[n := t]\<rparr>))"

definition add_intertimer :: "nat option \<Rightarrow> addr \<Rightarrow> addr \<Rightarrow> addr \<Rightarrow> tmgr \<Rightarrow> sys \<Rightarrow> c_err + (tmgr \<times> sys)" where
  "add_intertimer vo dm entry t m s = andthen (lock_acquire_at (tm_lock m) s)
     (\<lambda>s. let m = grow m; n = tm_size m;
              m = m\<lparr>th := heap_push t n (th m)\<rparr>;
              m = m\<lparr>tm_size := n + 1\<rparr> in
        case tm_daemon m of
          None \<Rightarrow> andthen (intertimer_start vo dm entry m s) (\<lambda>(m, s). Inr (m, lock_release_at (tm_lock m) s))
        | Some d \<Rightarrow>
            if n = 0 then
              (if tm_suspend m
               then (let m = m\<lparr>tm_suspend := False\<rparr>; s = lock_release_at (tm_lock m) s in
                     andthen (vpu_ready vo d True s) (\<lambda>s. Inr (m, s)))
               else Inr (m, lock_release_at (tm_lock m) s))
            else Inr (notify_wakeup m, lock_release_at (tm_lock m) s))"

text \<open>The answer is \<open>0\<close> when the timer was in the heap and \<open>-1\<close> otherwise.\<close>

definition heap_remove :: "nat \<Rightarrow> nat \<Rightarrow> theap \<Rightarrow> theap" where
  "heap_remove i n h =
     (let h = h\<lparr>timers := (timers h)[i := timers h ! n]\<rparr>;
          h = upd_timer (timers h ! i) (\<lambda>r. r\<lparr>tm_index := int i\<rparr>) h in
      down_adjust_heap i n h)"

definition del_intertimer :: "addr \<Rightarrow> tmgr \<Rightarrow> sys \<Rightarrow> c_err + (int \<times> tmgr \<times> sys)" where
  "del_intertimer t m s = andthen (lock_acquire_at (tm_lock m) s)
     (\<lambda>s. let i = tm_index (tst (th m) t); n = tm_size m in
        if i < 0 \<or> int n \<le> i \<or> t \<noteq> timers (th m) ! nat i then Inr (-1, m, lock_release_at (tm_lock m) s)
        else Inr (0, m\<lparr>th := heap_remove (nat i) (n - 1) (th m), tm_size := n - 1\<rparr>, lock_release_at (tm_lock m) s))"

section \<open>Firing\<close>

definition when_bytes :: "u64 \<Rightarrow> u8 list" where
  "when_bytes w = map (\<lambda>i. ucast (drop_bit (8 * i) w)) [0..<8]"

text \<open>
  \<open>coroc_send_timer\<close>: the user's function, if there is one, then a blocking send of the due time. \<open>user\<close> is what the
  user's functions do, \<open>q\<close> the address of the quantum of a send that blocks.
\<close>

definition send_timer :: "(addr \<Rightarrow> sys \<Rightarrow> c_err + sys) \<Rightarrow> nat option \<Rightarrow> addr \<Rightarrow> addr \<Rightarrow> inter_timer \<Rightarrow> sys \<Rightarrow> c_err + chan_out" where
  "send_timer user vo q t r s = (case tm_owner r of
       None \<Rightarrow> Inl NullDeref
     | Some c \<Rightarrow>
         andthen (case tm_args r of None \<Rightarrow> Inr s | Some f \<Rightarrow> user f s)
           (\<lambda>s. chan_send vo c (Some t) True q (s\<lparr>mem := (mem s)(t := Raw (when_bytes (tm_when r)))\<rparr>)))"

definition fire :: "(addr \<Rightarrow> sys \<Rightarrow> c_err + sys) \<Rightarrow> nat option \<Rightarrow> addr \<Rightarrow> addr \<Rightarrow> inter_timer \<Rightarrow> sys \<Rightarrow> c_err + chan_out" where
  "fire user vo q t r s = (case tm_func r of
       SendTimer \<Rightarrow> send_timer user vo q t r s
     | NetpollTimeout \<Rightarrow>
         (case tm_args r of None \<Rightarrow> Inl NullDeref
          | Some d \<Rightarrow> andthen (netpoll_timeout vo d s) (\<lambda>s. Inr (Ret CHAN_SUCCESS s))))"

text \<open>
  The loop of the daemon that fires what is due, with the local copy \<open>n\<close> of the size. \<open>act\<close> runs the function of a
  timer. The result lists the timers that were fired, in order; the loop stops in the middle when a callback
  blocks. \<open>None\<close> means that \<open>k\<close> rounds were not enough.
\<close>

datatype loop_out = LoopDone "addr list" nat tmgr sys | LoopBlocked "addr list" tmgr sys

definition expire :: "u64 \<Rightarrow> addr \<Rightarrow> nat \<Rightarrow> theap \<Rightarrow> nat \<times> theap" where
  "expire now t n h =
     (if tm_period (tst h t) = 0 then
        (let h = upd_timer (timers h ! 0) (\<lambda>r. r\<lparr>tm_index := -1\<rparr>) h; n = n - 1 in
         if 0 < n then
           (let h = h\<lparr>timers := (timers h)[0 := timers h ! n]\<rparr> in
            (n, upd_timer (timers h ! 0) (\<lambda>r. r\<lparr>tm_index := 0\<rparr>) h))
         else (n, h))
      else (n, upd_timer t (\<lambda>r. r\<lparr>tm_when := now + ucast (tm_period r)\<rparr>) h))"

definition settle :: "nat \<Rightarrow> theap \<Rightarrow> theap" where
  "settle n h = (if 0 < n then down_adjust_heap 0 n h else h)"

fun daemon_loop :: "(addr \<Rightarrow> inter_timer \<Rightarrow> sys \<Rightarrow> c_err + chan_out) \<Rightarrow> u64 \<Rightarrow> nat \<Rightarrow> addr list \<Rightarrow> nat \<Rightarrow> tmgr \<Rightarrow> sys \<Rightarrow>
    (c_err + loop_out) option" where
  "daemon_loop act now 0 log n m s = None"
| "daemon_loop act now (Suc k) log n m s =
     (if n = 0 then Some (Inr (LoopDone log n m s))
      else
        (let t = timers (th m) ! 0 in
         if tm_when (tst (th m) t) \<le> now then
           (case act t (tst (th m) t) s of
              Inl e \<Rightarrow> Some (Inl e)
            | Inr (Suspended s) \<Rightarrow> Some (Inr (LoopBlocked (log @ [t]) m s))
            | Inr (Ret r s) \<Rightarrow>
                (case expire now t n (th m) of (n, h) \<Rightarrow>
                   daemon_loop act now k (log @ [t]) n (m\<lparr>th := settle n h, tm_size := n\<rparr>) s))
         else Some (Inr (LoopDone log n m s))))"

text \<open>One round of the daemon: it ends asleep without timers, asleep until the next one is due, or blocked in a callback.\<close>

datatype daemon_out = DaemonIdle "addr list" tmgr sys | DaemonSleep "addr list" u64 tmgr sys | DaemonBlocked "addr list" tmgr sys

definition intertimer_round :: "(addr \<Rightarrow> inter_timer \<Rightarrow> sys \<Rightarrow> c_err + chan_out) \<Rightarrow> u64 \<Rightarrow> nat \<Rightarrow> nat \<Rightarrow> tmgr \<Rightarrow> sys \<Rightarrow>
    (c_err + daemon_out) option" where
  "intertimer_round act now k v m s = (case lock_acquire_at (tm_lock m) s of
       Inl e \<Rightarrow> Some (Inl e)
     | Inr s \<Rightarrow>
         (case daemon_loop act now k [] (tm_size m) m s of
            None \<Rightarrow> None
          | Some (Inl e) \<Rightarrow> Some (Inl e)
          | Some (Inr (LoopBlocked log m s)) \<Rightarrow> Some (Inr (DaemonBlocked log m s))
          | Some (Inr (LoopDone log n m s)) \<Rightarrow>
              if n = 0
              then Some (andthen (vpu_suspend [tm_lock m] v s) (\<lambda>s. Inr (DaemonIdle log (m\<lparr>tm_suspend := True\<rparr>) s)))
              else Some (Inr (DaemonSleep log (1000 * (tm_when (tst (th m) (timers (th m) ! 0)) - now)) m
                     (lock_release_at (tm_lock m) s)))))"

section \<open>The timers of users\<close>

definition timer_init :: "addr \<Rightarrow> u32 \<Rightarrow> ptr \<Rightarrow> elem list \<Rightarrow> tmgr \<Rightarrow> sys \<Rightarrow> tmgr \<times> sys" where
  "timer_init t period func store m s =
     (m\<lparr>th := upd_timer t (\<lambda>r. r\<lparr>tm_when := 0, tm_period := period, tm_func := SendTimer, tm_args := func, tm_owner := Some t\<rparr>) (th m)\<rparr>,
      (upd_chan t (\<lambda>ch. buffered_chan_init ch 8 1 False (take 1 store)) s)\<lparr>rmem := refcnt_init t (rmem s)\<rparr>)"

definition timer_allocate :: "addr \<Rightarrow> u32 \<Rightarrow> ptr \<Rightarrow> elem list \<Rightarrow> tmgr \<Rightarrow> sys \<Rightarrow> tmgr \<times> sys" where
  "timer_allocate t period func store m s = timer_init t period func store m s"

text \<open>The outcomes of starting a timer: the answer of the function, or blocked in the send of a timer that is due already.\<close>

datatype timer_out = TimerRet int tmgr sys | TimerBlocked tmgr sys

definition timer_start :: "(addr \<Rightarrow> sys \<Rightarrow> c_err + sys) \<Rightarrow> nat option \<Rightarrow> addr \<Rightarrow> addr \<Rightarrow> addr \<Rightarrow> u64 \<Rightarrow> addr \<Rightarrow> tmgr \<Rightarrow> sys \<Rightarrow>
    c_err + timer_out" where
  "timer_start user vo dm entry q now t m s =
     (if tm_when (tst (th m) t) \<le> now
      then andthen (send_timer user vo q t (tst (th m) t) s)
        (\<lambda>out. case out of Ret r s \<Rightarrow> Inr (TimerRet (-1) m s) | Suspended s \<Rightarrow> Inr (TimerBlocked m s))
      else andthen (add_intertimer vo dm entry t m s) (\<lambda>(m, s). Inr (TimerRet 0 m s)))"

definition timer_at :: "(addr \<Rightarrow> sys \<Rightarrow> c_err + sys) \<Rightarrow> nat option \<Rightarrow> addr \<Rightarrow> addr \<Rightarrow> addr \<Rightarrow> u64 \<Rightarrow> addr \<Rightarrow> u64 \<Rightarrow> tmgr \<Rightarrow> sys \<Rightarrow>
    c_err + timer_out" where
  "timer_at user vo dm entry q now t w m s =
     timer_start user vo dm entry q now t (m\<lparr>th := upd_timer t (\<lambda>r. r\<lparr>tm_when := w\<rparr>) (th m)\<rparr>) s"

text \<open>The clock is read twice: \<open>t0\<close> for the due time and \<open>now\<close> when the timer starts.\<close>

definition timer_after :: "(addr \<Rightarrow> sys \<Rightarrow> c_err + sys) \<Rightarrow> nat option \<Rightarrow> addr \<Rightarrow> addr \<Rightarrow> addr \<Rightarrow> u64 \<Rightarrow> u64 \<Rightarrow> addr \<Rightarrow> u64 \<Rightarrow> tmgr \<Rightarrow> sys \<Rightarrow>
    c_err + timer_out" where
  "timer_after user vo dm entry q t0 now t d m s = timer_at user vo dm entry q now t (t0 + d) m s"

definition timer_stop :: "addr \<Rightarrow> tmgr \<Rightarrow> sys \<Rightarrow> c_err + (int \<times> tmgr \<times> sys)" where
  "timer_stop t m s = del_intertimer t m s"

definition timer_reset :: "(addr \<Rightarrow> sys \<Rightarrow> c_err + sys) \<Rightarrow> nat option \<Rightarrow> addr \<Rightarrow> addr \<Rightarrow> addr \<Rightarrow> u64 \<Rightarrow> addr \<Rightarrow> u64 \<Rightarrow> tmgr \<Rightarrow> sys \<Rightarrow>
    c_err + timer_out" where
  "timer_reset user vo dm entry q now t w m s =
     andthen (timer_stop t m s)
       (\<lambda>(r, m, s). timer_start user vo dm entry q now t (m\<lparr>th := upd_timer t (\<lambda>r. r\<lparr>tm_when := w\<rparr>) (th m)\<rparr>) s)"

text \<open>The memory of the timer is given back by the allocator.\<close>

definition timer_dealloc :: "addr \<Rightarrow> tmgr \<Rightarrow> sys \<Rightarrow> c_err + (tmgr \<times> sys)" where
  "timer_dealloc t m s = andthen (timer_stop t m s) (\<lambda>(r, m, s). Inr (m, s))"

text \<open>\<open>coroc_udelay\<close> up to the point where it waits: the timer is a local variable of the caller, its value is received into \<open>NULL\<close>.\<close>

datatype delay_out = Delayed chan_out tmgr | DelayBlocked tmgr sys

definition udelay :: "nat option \<Rightarrow> addr \<Rightarrow> addr \<Rightarrow> addr \<Rightarrow> addr \<Rightarrow> u64 \<Rightarrow> u64 \<Rightarrow> addr \<Rightarrow> elem list \<Rightarrow> u64 \<Rightarrow> tmgr \<Rightarrow> sys \<Rightarrow> c_err + delay_out" where
  "udelay vo dm entry q q' t0 now t store us m s =
     (case timer_init t 0 None store m s of (m, s) \<Rightarrow>
        andthen (timer_after (\<lambda>f s. Inr s) vo dm entry q t0 now t us m s)
          (\<lambda>out. case out of
             TimerRet r m s \<Rightarrow> andthen (chan_recv vo (Some t) None True q' s) (\<lambda>out. Inr (Delayed out m))
           | TimerBlocked m s \<Rightarrow> Inr (DelayBlocked m s)))"

end
