(* ===== verification/Timer_Laws.thy ===== *)
theory Timer_Laws
  imports Timer
begin

text \<open>
  The laws of the timers: every operation keeps the heap, the daemon fires exactly what is due, in order and once each,
  and the situations in which the code does less than that.
\<close>

section \<open>The operations on the heap\<close>

lemma timers_upd_timer [simp]: "timers (upd_timer t f h) = timers h"
  by (simp add: upd_timer_def)

definition held :: "theap \<Rightarrow> nat \<Rightarrow> addr set" where
  "held h n = set (take n (timers h))"

lemma held_nth: "n \<le> length (timers h) \<Longrightarrow> held h n = {timers h ! i | i. i < n}"
  by (auto simp: held_def nth_image [symmetric])

lemma placed_inj: "placed h n \<Longrightarrow> i < n \<Longrightarrow> j < n \<Longrightarrow> timers h ! i = timers h ! j \<longleftrightarrow> i = j"
  unfolding placed_def by (metis of_nat_eq_iff)

lemma root_least:
  assumes "heap_ok h n" "i < n"
  shows "due h 0 \<le> due h i"
  using assms(2)
proof (induction i rule: less_induct)
  case (less i)
  show ?case
  proof (cases "i = 0")
    case False
    then have p: "parent i < i" using parent_less by blast
    have "due h 0 \<le> due h (parent i)" using less.IH [OF p] p less.prems by linarith
    also have "\<dots> \<le> due h i" using assms(1) less.prems False by (simp add: heap_ok_def)
    finally show ?thesis .
  qed simp
qed

lemma only_moved_held: "only_moved n h h' \<Longrightarrow> held h' n = held h n"
  unfolding only_moved_def held_def by (metis mset_eq_setD)

lemma only_moved_tst: "only_moved n h h' \<Longrightarrow> \<exists>i. tst h' t = (tst h t)\<lparr>tm_index := i\<rparr>"
  by (simp add: only_moved_def)

lemma settle_ok:
  assumes "placed h n" "down_ok h n 0"
  shows "placed (settle n h) n \<and> only_moved n h (settle n h) \<and> heap_ok (settle n h) n"
  using down_adjust_ok [OF assms(1) _ assms(2)] assms(1) only_moved_refl by (auto simp: settle_def heap_ok_def)

text \<open>Taking the root out of the heap, the way the daemon does it for a timer that fires only once.\<close>

lemma take_last_to_root:
  assumes "distinct (take n xs)" "n \<le> length xs" "0 < n"
  shows "distinct (take (n - 1) (xs[0 := xs ! (n - 1)]))" "set (take (n - 1) (xs[0 := xs ! (n - 1)])) = set (take n xs) - {xs ! 0}"
proof -
  obtain y ys where xs: "xs = y # ys" using assms(2,3) by (cases xs) auto
  obtain k where k: "n = Suc k" using assms(3) by (cases n) auto
  show "distinct (take (n - 1) (xs[0 := xs ! (n - 1)]))" "set (take (n - 1) (xs[0 := xs ! (n - 1)])) = set (take n xs) - {xs ! 0}"
  proof -
    have d: "y \<notin> set (take k ys)" "distinct (take k ys)" "k \<le> length ys" using assms xs k by simp_all
    show "distinct (take (n - 1) (xs[0 := xs ! (n - 1)]))"
    proof (cases k)
      case (Suc j)
      then have "take k ys = take j ys @ [ys ! j]" using d(3) by (simp add: take_Suc_conv_app_nth)
      then show ?thesis using d(2) Suc by (simp add: xs k)
    qed (simp add: xs k)
    show "set (take (n - 1) (xs[0 := xs ! (n - 1)])) = set (take n xs) - {xs ! 0}"
    proof (cases k)
      case (Suc j)
      then have "take k ys = take j ys @ [ys ! j]" using d(3) by (simp add: take_Suc_conv_app_nth)
      then show ?thesis using d(1) Suc by (auto simp: xs k)
    qed (simp add: xs k)
  qed
qed

lemma expire_once:
  assumes h: "placed h n" "heap_ok h n" "0 < n" "tm_period (tst h (timers h ! 0)) = 0"
  shows "\<exists>h'. expire now (timers h ! 0) n h = (n - 1, h') \<and> placed h' (n - 1) \<and> down_ok h' (n - 1) 0 \<and>
     held h' (n - 1) = held h n - {timers h ! 0} \<and> length (timers h') = length (timers h) \<and>
     (\<forall>u. \<exists>i. tst h' u = (tst h u)\<lparr>tm_index := i\<rparr>)"
proof -
  let ?t = "timers h ! 0"
  let ?h1 = "upd_timer ?t (\<lambda>r. r\<lparr>tm_index := -1\<rparr>) h"
  have idx: "\<exists>i. tst h u = (tst h u)\<lparr>tm_index := i\<rparr>" for u by (rule exI [of _ "tm_index (tst h u)"]) simp
  have len: "n \<le> length (timers h)" "distinct (take n (timers h))" using h(1) by (simp_all add: placed_def)
  show ?thesis
  proof (cases "n - 1")
    case 0
    then have n: "n = 1" using h(3) by simp
    then have "held h n - {?t} = {}" using len held_nth [of n h] by auto
    then have "held ?h1 (n - 1) = held h n - {?t}" unfolding 0 by (simp add: held_def)
    moreover have "expire now ?t n h = (n - 1, ?h1)" using h(4) n by (simp add: expire_def Let_def)
    moreover have "\<forall>u. \<exists>i. tst ?h1 u = (tst h u)\<lparr>tm_index := i\<rparr>" using idx by (auto simp: upd_timer_def)
    moreover have "placed ?h1 (n - 1)" "down_ok ?h1 (n - 1) 0" "length (timers ?h1) = length (timers h)"
      unfolding 0 by (simp_all add: placed_def down_ok_def)
    ultimately show ?thesis by blast
  next
    case (Suc k)
    define h' where "h' = (let h = ?h1\<lparr>timers := (timers ?h1)[0 := timers ?h1 ! (n - 1)]\<rparr> in
        upd_timer (timers h ! 0) (\<lambda>r. r\<lparr>tm_index := 0\<rparr>) h)"
    have e: "expire now ?t n h = (n - 1, h')" using h(4) Suc by (simp add: expire_def Let_def h'_def)
    have xs: "timers h' = (timers h)[0 := timers h ! (n - 1)]" by (simp add: h'_def upd_timer_def Let_def)
    have last: "timers h ! (n - 1) \<noteq> ?t" using placed_inj [OF h(1), of "n - 1" 0] h(3) Suc by simp
    have tst: "tst h' u = (if u = timers h ! (n - 1) then (tst h u)\<lparr>tm_index := 0\<rparr>
        else if u = ?t then (tst h u)\<lparr>tm_index := -1\<rparr> else tst h u)" for u
    proof -
      obtain x where x: "x = timers h ! (n - 1)" by blast
      have "0 < length (timers h)" using h(3) len(1) by linarith
      then have "h' = upd_timer x (\<lambda>r. r\<lparr>tm_index := 0\<rparr>) (?h1\<lparr>timers := (timers h)[0 := x]\<rparr>)"
        unfolding h'_def Let_def timers_upd_timer x [symmetric] by simp
      then show ?thesis using last unfolding x [symmetric] by (auto simp: upd_timer_def)
    qed
    have nth: "timers h' ! i = (if i = 0 then timers h ! (n - 1) else timers h ! i)" for i
    proof -
      have "0 < length (timers h)" using h(3) len(1) by linarith
      then show ?thesis by (auto simp: xs)
    qed
    have "tm_index (tst h' (timers h' ! i)) = int i" if i: "i < n - 1" for i
    proof (cases "i = 0")
      case False
      then have "timers h ! i \<noteq> timers h ! (n - 1)" "timers h ! i \<noteq> ?t" using placed_inj [OF h(1), of i] i h(3) by auto
      then show ?thesis using False i h(1) by (simp add: nth tst placed_def)
    qed (simp add: nth tst)
    then have "placed h' (n - 1)"
      using take_last_to_root(1) [OF len(2,1) h(3)] len(1) by (simp add: placed_def xs)
    moreover have "due h' i = due h i" if "0 < i" for i using that by (simp add: due_def nth tst)
    then have "down_ok h' (n - 1) 0" using h(2) by (simp add: down_ok_def heap_ok_def)
    moreover have "held h' (n - 1) = held h n - {?t}"
      using take_last_to_root(2) [OF len(2,1) h(3)] by (simp add: held_def xs)
    moreover have "\<exists>i. tst h' u = (tst h u)\<lparr>tm_index := i\<rparr>" for u using idx [of u] unfolding tst by (auto split: if_splits)
    ultimately show ?thesis using e by (simp add: xs)
  qed
qed

text \<open>A periodic timer stays and is due later, unless the addition wraps around.\<close>

lemma expire_periodic:
  assumes h: "placed h n" "heap_ok h n" "0 < n" "tm_period (tst h (timers h ! 0)) \<noteq> 0"
  shows "\<exists>h'. expire now (timers h ! 0) n h = (n, h') \<and> placed h' n \<and> down_ok h' n 0 \<and> timers h' = timers h \<and>
     tm_when (tst h' (timers h ! 0)) = now + ucast (tm_period (tst h (timers h ! 0))) \<and> (\<forall>u. u \<noteq> timers h ! 0 \<longrightarrow> tst h' u = tst h u)"
proof -
  let ?t = "timers h ! 0"
  define h' where "h' = upd_timer ?t (\<lambda>r. r\<lparr>tm_when := now + ucast (tm_period r)\<rparr>) h"
  have e: "expire now ?t n h = (n, h')" using h(4) by (simp add: expire_def h'_def)
  have tst: "timers h' = timers h" "tst h' u = (if u = ?t then (tst h u)\<lparr>tm_when := now + ucast (tm_period (tst h u))\<rparr> else tst h u)" for u
    by (simp_all add: h'_def upd_timer_def)
  have "tm_index (tst h' u) = tm_index (tst h u)" for u by (simp add: tst)
  then have "placed h' n" using h(1) by (simp add: placed_def tst(1))
  moreover have "due h' i = due h i" if "0 < i" "i < n" for i
    using that placed_inj [OF h(1), of i 0] by (auto simp: due_def tst)
  then have "down_ok h' n 0" using h(2) parent_less unfolding down_ok_def heap_ok_def
    by (metis bot_nat_0.not_eq_extremum dual_order.strict_trans less_irrefl_nat)
  ultimately show ?thesis using e tst by simp
qed

lemma later: "unat now + unat p < 2 ^ 64 \<Longrightarrow> p \<noteq> 0 \<Longrightarrow> (now :: u64) < now + ucast (p :: u32)"
proof -
  assume a: "unat now + unat p < 2 ^ 64" "p \<noteq> 0"
  have u: "unat (ucast p :: u64) = unat p" using unsigned_less [where 'a = nat and w = p] by (simp add: unsigned_ucast_eq take_bit_nat_eq_self)
  have "unat (now + ucast p) = unat now + unat p" using a(1) u unat_add_lem [of now "ucast p"] by simp
  moreover have "0 < unat p" using a(2) by (simp add: unat_gt_0)
  ultimately show ?thesis by (simp add: word_less_nat_alt)
qed

section \<open>The daemon\<close>

text \<open>What firing and putting away the root does to the heap: \<open>t\<close> leaves it, or stays and is due later.\<close>

lemma expire_settle:
  assumes h: "placed h n" "heap_ok h n" "0 < n" "t = timers h ! 0"
    and later: "tm_period (tst h t) \<noteq> 0 \<longrightarrow> unat now + unat (tm_period (tst h t)) < 2 ^ 64"
  obtains n' h1 where "expire now t n h = (n', h1)" "placed (settle n' h1) n'" "heap_ok (settle n' h1) n'"
    "length (timers (settle n' h1)) = length (timers h)" "\<And>u. u \<noteq> t \<Longrightarrow> \<exists>i. tst (settle n' h1) u = (tst h u)\<lparr>tm_index := i\<rparr>"
    "held (settle n' h1) n' = (if tm_period (tst h t) = 0 then held h n - {t} else held h n)"
    "tm_period (tst h t) \<noteq> 0 \<Longrightarrow> now < tm_when (tst (settle n' h1) t)"
proof (cases "tm_period (tst h t) = 0")
  case True
  from expire_once [OF h(1-3), of now] True h(4) obtain h1 where h1: "expire now t n h = (n - 1, h1)" "placed h1 (n - 1)"
    "down_ok h1 (n - 1) 0" "held h1 (n - 1) = held h n - {t}" "length (timers h1) = length (timers h)"
    "\<forall>u. \<exists>i. tst h1 u = (tst h u)\<lparr>tm_index := i\<rparr>" by auto
  note st = settle_ok [OF h1(2,3)]
  have idx: "\<exists>i. tst (settle (n - 1) h1) u = (tst h u)\<lparr>tm_index := i\<rparr>" for u
  proof -
    obtain i where "tst h1 u = (tst h u)\<lparr>tm_index := i\<rparr>" using h1(6) by blast
    moreover obtain j where "tst (settle (n - 1) h1) u = (tst h1 u)\<lparr>tm_index := j\<rparr>" using only_moved_tst st by blast
    ultimately show ?thesis by auto
  qed
  have "held (settle (n - 1) h1) (n - 1) = held h n - {t}" "length (timers (settle (n - 1) h1)) = length (timers h)"
    using only_moved_held [of "n - 1" h1] st h1(4,5) by (simp_all add: only_moved_def)
  then show ?thesis by (intro that [OF h1(1)]) (use st idx True in auto)
next
  case False
  from expire_periodic [OF h(1-3), of now] False h(4) obtain h1 where h1: "expire now t n h = (n, h1)" "placed h1 n" "down_ok h1 n 0"
    "timers h1 = timers h" "tm_when (tst h1 t) = now + ucast (tm_period (tst h t))" "\<forall>u. u \<noteq> t \<longrightarrow> tst h1 u = tst h u" by auto
  note st = settle_ok [OF h1(2,3)]
  have idx: "\<exists>i. tst (settle n h1) u = (tst h u)\<lparr>tm_index := i\<rparr>" if "u \<noteq> t" for u
    using only_moved_tst [of n h1 "settle n h1" u] st h1(6) that by simp
  have "held (settle n h1) n = held h n" using only_moved_held [of n h1 "settle n h1"] st h1(4) by (simp add: held_def)
  moreover have "now < tm_when (tst (settle n h1) t)"
    using later False Timer_Laws.later [of now "tm_period (tst h t)"] only_moved_when [of n h1 "settle n h1" t] st h1(5) by simp
  moreover have "length (timers (settle n h1)) = length (timers h)" using st h1(4) by (simp add: only_moved_def)
  ultimately show ?thesis by (intro that [OF h1(1)]) (use st idx False in auto)
qed

text \<open>
  What the daemon relies on: as long as a set of timers is ready to be fired (\<open>ready_to_fire\<close>), firing one of them ends
  normally and leaves the others ready. \<open>good\<close> says which timers are meant; it does not depend on the position in
  the heap.
\<close>

locale timer_action =
  fixes act :: "addr \<Rightarrow> inter_timer \<Rightarrow> sys \<Rightarrow> c_err + chan_out"
    and good :: "addr \<Rightarrow> inter_timer \<Rightarrow> bool"
    and ready_to_fire :: "addr set \<Rightarrow> sys \<Rightarrow> bool"
  assumes act_ok: "ready_to_fire T s \<Longrightarrow> t \<in> T \<Longrightarrow> good t r \<Longrightarrow> \<exists>c s'. act t r s = Inr (Ret c s') \<and> ready_to_fire (T - {t}) s'"
    and good_index: "good t r \<Longrightarrow> good t (r\<lparr>tm_index := i\<rparr>)"
begin

lemma loop_fires_due:
  assumes "placed (th m) n" "heap_ok (th m) n"
    and D: "D = {t \<in> held (th m) n. tm_when (tst (th m) t) \<le> now}"
    and "ready_to_fire D s" "\<forall>t\<in>D. good t (tst (th m) t)"
    and "\<forall>t\<in>D. tm_period (tst (th m) t) \<noteq> 0 \<longrightarrow> unat now + unat (tm_period (tst (th m) t)) < 2 ^ 64"
    and "card D < k" "tm_size m = n"
  shows "\<exists>ts n' m' s'. daemon_loop act now k log n m s = Some (Inr (LoopDone (log @ ts) n' m' s')) \<and> distinct ts \<and> set ts = D \<and>
     sorted (map (\<lambda>t. tm_when (tst (th m) t)) ts) \<and> placed (th m') n' \<and> heap_ok (th m') n' \<and> tm_size m' = n' \<and>
     held (th m') n' = held (th m) n - {t \<in> D. tm_period (tst (th m) t) = 0} \<and>
     (\<forall>t\<in>held (th m') n'. now < tm_when (tst (th m') t)) \<and> length (timers (th m')) = length (timers (th m)) \<and>
     tm_lock m' = tm_lock m \<and> tm_cap m' = tm_cap m \<and> tm_daemon m' = tm_daemon m \<and> ready_to_fire {} s'"
  using assms
proof (induction k arbitrary: log n m s D)
  case (Suc k)
  let ?h = "th m"
  let ?t = "timers ?h ! 0"
  have fin: "finite D" using Suc.prems(3) by (simp add: held_def)
  have len: "n \<le> length (timers ?h)" using Suc.prems(1) by (simp add: placed_def)
  show ?case
  proof (cases "0 < n \<and> tm_when (tst ?h ?t) \<le> now")
    case False
    have D0: "D = {}"
    proof -
      have "now < tm_when (tst ?h u)" if "u \<in> held ?h n" for u
      proof -
        obtain i where i: "i < n" "u = timers ?h ! i" using \<open>u \<in> held ?h n\<close> held_nth [OF len] by auto
        then show ?thesis using root_least [OF Suc.prems(2) i(1)] False unfolding due_def by fastforce
      qed
      then show ?thesis using Suc.prems(3) by fastforce
    qed
    then have "\<forall>t\<in>held ?h n. now < tm_when (tst ?h t)" using Suc.prems(3) by (metis (mono_tags, lifting) empty_Collect_eq not_le)
    moreover have "daemon_loop act now (Suc k) log n m s = Some (Inr (LoopDone (log @ []) n m s))" using False by (auto simp: Let_def)
    ultimately show ?thesis using Suc.prems(1,2,4,8) D0 by (intro exI [of _ "[]"] exI [of _ n] exI [of _ m] exI [of _ s]) simp
  next
    case True
    have tD: "?t \<in> D" using True Suc.prems(3) held_nth [OF len] by auto
    from Suc.prems(4,5) tD act_ok [of D s ?t "tst ?h ?t"] obtain c s1 where
      s1: "act ?t (tst ?h ?t) s = Inr (Ret c s1)" "ready_to_fire (D - {?t}) s1" by blast
    have n0: "0 < n" using True by simp
    obtain n1 h0 where e: "expire now ?t n ?h = (n1, h0)" "placed (settle n1 h0) n1" "heap_ok (settle n1 h0) n1"
      "length (timers (settle n1 h0)) = length (timers ?h)" "\<And>u. u \<noteq> ?t \<Longrightarrow> \<exists>i. tst (settle n1 h0) u = (tst ?h u)\<lparr>tm_index := i\<rparr>"
      "held (settle n1 h0) n1 = (if tm_period (tst ?h ?t) = 0 then held ?h n - {?t} else held ?h n)"
      "tm_period (tst ?h ?t) \<noteq> 0 \<Longrightarrow> now < tm_when (tst (settle n1 h0) ?t)"
      by (rule expire_settle [OF Suc.prems(1,2) n0 refl, of now]) (use Suc.prems(6) tD in auto)
    define m1 where "m1 = m\<lparr>th := settle n1 h0, tm_size := n1\<rparr>"
    have m1: "th m1 = settle n1 h0" "tm_size m1 = n1" "tm_lock m1 = tm_lock m" "tm_cap m1 = tm_cap m" "tm_daemon m1 = tm_daemon m"
      by (simp_all add: m1_def)
    have same: "tm_when (tst (settle n1 h0) u) = tm_when (tst ?h u)" "tm_period (tst (settle n1 h0) u) = tm_period (tst ?h u)" if "u \<noteq> ?t" for u
      using e(5) [OF that] by auto
    have D1: "D - {?t} = {u \<in> held (th m1) n1. tm_when (tst (th m1) u) \<le> now}"
      using Suc.prems(3) e(6,7) same by (fastforce simp: m1(1) split: if_splits)
    have good1: "\<forall>u\<in>D - {?t}. good u (tst (th m1) u)"
    proof
      fix u assume u: "u \<in> D - {?t}"
      then obtain i where "tst (settle n1 h0) u = (tst ?h u)\<lparr>tm_index := i\<rparr>" using e(5) by blast
      then show "good u (tst (th m1) u)" using good_index Suc.prems(5) u by (simp add: m1(1))
    qed
    have wrap1: "\<forall>u\<in>D - {?t}. tm_period (tst (th m1) u) \<noteq> 0 \<longrightarrow> unat now + unat (tm_period (tst (th m1) u)) < 2 ^ 64"
      using Suc.prems(6) same by (simp add: m1(1))
    have card1: "card (D - {?t}) < k" using Suc.prems(7) tD fin card_gt_0_iff [of D] by (auto simp: card_Diff_singleton)
    from Suc.IH [OF _ _ D1 s1(2) good1 wrap1 card1 m1(2), of "log @ [?t]"] e(2,3) m1(1) obtain ts n' m' s' where
      ih: "daemon_loop act now k (log @ [?t]) n1 m1 s1 = Some (Inr (LoopDone ((log @ [?t]) @ ts) n' m' s'))" "distinct ts" "set ts = D - {?t}"
        "sorted (map (\<lambda>t. tm_when (tst (th m1) t)) ts)" "placed (th m') n'" "heap_ok (th m') n'" "tm_size m' = n'"
        "held (th m') n' = held (th m1) n1 - {t \<in> D - {?t}. tm_period (tst (th m1) t) = 0}"
        "\<forall>t\<in>held (th m') n'. now < tm_when (tst (th m') t)" "length (timers (th m')) = length (timers (th m1))"
        "tm_lock m' = tm_lock m1" "tm_cap m' = tm_cap m1" "tm_daemon m' = tm_daemon m1" "ready_to_fire {} s'"
      by auto
    have loop: "daemon_loop act now (Suc k) log n m s = Some (Inr (LoopDone (log @ ?t # ts) n' m' s'))"
      using True s1(1) e(1) ih(1) by (simp add: Let_def m1_def)
    have least: "tm_when (tst ?h ?t) \<le> tm_when (tst ?h u)" if "u \<in> D" for u
    proof -
      obtain i where "i < n" "u = timers ?h ! i" using \<open>u \<in> D\<close> Suc.prems(3) held_nth [OF len] by auto
      then show ?thesis using root_least [OF Suc.prems(2)] by (simp add: due_def)
    qed
    have "map (\<lambda>t. tm_when (tst (th m1) t)) ts = map (\<lambda>t. tm_when (tst ?h t)) ts" using same ih(3) by (simp add: m1(1))
    then have "sorted (map (\<lambda>t. tm_when (tst ?h t)) ts)" using ih(4) by (simp only:)
    then have "sorted (map (\<lambda>t. tm_when (tst ?h t)) (?t # ts))" using ih(3) least by auto
    moreover have "held (th m') n' = held ?h n - {t \<in> D. tm_period (tst ?h t) = 0}"
    proof -
      have "{u \<in> D - {?t}. tm_period (tst (th m1) u) = 0} = {u \<in> D. tm_period (tst ?h u) = 0} - {?t}"
        using same(2) by (auto simp: m1(1))
      then show ?thesis using ih(8) e(6) tD by (auto simp: m1(1))
    qed
    moreover have "set (?t # ts) = D" "distinct (?t # ts)" using ih(2,3) tD by auto
    ultimately show ?thesis using loop ih(5-7,9-14) m1 e(4)
      by (intro exI [of _ "?t # ts"] exI [of _ n'] exI [of _ m'] exI [of _ s']) simp
  qed
qed simp

end

section \<open>The timers of users meet the contract\<close>

definition user_timer :: "addr \<Rightarrow> inter_timer \<Rightarrow> bool" where
  "user_timer t r \<longleftrightarrow> tm_func r = SendTimer \<and> tm_args r = None \<and> tm_owner r = Some t"

text \<open>
  The channels of the timers are open and unlocked, each has a waiting receiver or a free slot, and no coroutine waits on two
  of them at the same time.
\<close>

definition tick_ok :: "nat option \<Rightarrow> addr set \<Rightarrow> sys \<Rightarrow> bool" where
  "tick_ok vo T s \<longleftrightarrow> sched_inv s \<and> (\<forall>v. vo = Some v \<longrightarrow> v < xt_index s) \<and>
     (\<forall>t\<in>T. chan_ok s t \<and> \<not> locks s t \<and> \<not> ch_close (chans s t) \<and> (waiting_receivers s t \<noteq> [] \<or> has_room (chans s t))) \<and>
     (\<forall>t\<in>T. \<forall>u\<in>T. t \<noteq> u \<longrightarrow> apart s (recv_que (chans s t)) (recv_que (chans s u) @ send_que (chans s u)))"

lemma chan_ok_same:
  assumes "chan_ok s c" "chans s' c = chans s c" "quanta s' = quanta s" "que_ok s' c (recv_que (chans s c))" "que_ok s' c (send_que (chans s c))"
    "\<And>q. q \<in> set (recv_que (chans s c) @ send_que (chans s c)) \<Longrightarrow> live s' q = live s q"
  shows "chan_ok s' c" "waiting_receivers s' c = waiting_receivers s c"
proof -
  show "chan_ok s' c" using assms unfolding chan_ok_def by (metis (no_types, lifting) UnCI set_append)
  show "waiting_receivers s' c = waiting_receivers s c"
    using assms(2,6) filter_cong_set [of "recv_que (chans s c)" "live s'" "live s"] by (simp add: waiting_receivers_def)
qed

lemma tick_frame:
  assumes ok: "tick_ok vo T s" "t \<in> T" and u: "u \<in> T" "u \<noteq> t"
    and s': "chans s' u = chans s u" "quanta s' = quanta s" "locks s' = locks s"
      "que_ok s' u (recv_que (chans s u))" "que_ok s' u (send_que (chans s u))"
      "\<And>q. q \<in> set (recv_que (chans s u) @ send_que (chans s u)) \<Longrightarrow> live s' q = live s q"
  shows "chan_ok s' u \<and> \<not> locks s' u \<and> \<not> ch_close (chans s' u) \<and> (waiting_receivers s' u \<noteq> [] \<or> has_room (chans s' u))"
  using chan_ok_same [of s u s'] ok(1) u s' by (simp add: tick_ok_def)

lemma send_tick:
  assumes ok: "tick_ok vo T s" "t \<in> T"
  shows "\<exists>c s'. chan_send vo t (Some b) True q s = Inr (Ret c s') \<and> tick_ok vo (T - {t}) s'"
proof -
  have t: "sched_inv s" "chan_ok s t" "\<not> locks s t" "\<not> ch_close (chans s t)" "\<forall>v. vo = Some v \<longrightarrow> v < xt_index s"
    using ok by (simp_all add: tick_ok_def)
  have others: "chan_ok s u" if "u \<in> T" for u using ok(1) that by (simp add: tick_ok_def)
  have ap: "apart s (recv_que (chans s u)) (recv_que (chans s w) @ send_que (chans s w))" if "u \<in> T" "w \<in> T" "u \<noteq> w" for u w
    using ok(1) that by (simp add: tick_ok_def)
  have conclude: "tick_ok vo (T - {t}) s'" if s': "sched_inv s'" "chan_frame t s s'" "quanta s' = quanta s" "locks s' = locks s"
    and q: "\<And>u. u \<in> T \<Longrightarrow> u \<noteq> t \<Longrightarrow> que_ok s' u (recv_que (chans s u)) \<and> que_ok s' u (send_que (chans s u)) \<and>
       (\<forall>q\<in>set (recv_que (chans s u) @ send_que (chans s u)). live s' q = live s q)" for s'
  proof -
    have ch: "chans s' u = chans s u" if "u \<noteq> t" for u using s'(2) that by (simp add: chan_frame_def)
    have "chan_ok s' u \<and> \<not> locks s' u \<and> \<not> ch_close (chans s' u) \<and> (waiting_receivers s' u \<noteq> [] \<or> has_room (chans s' u))"
      if "u \<in> T - {t}" for u
      using that by (intro tick_frame [OF ok _ _ ch s'(3,4)]) (use q in auto)
    moreover have "apart s' (recv_que (chans s' u)) (recv_que (chans s' w) @ send_que (chans s' w))"
      if "u \<in> T - {t}" "w \<in> T - {t}" "u \<noteq> w" for u w
      using ap [of u w] that q [of u] q [of w] ch [of u] ch [of w] s'(3) unfolding apart_def by auto
    ultimately show ?thesis using s'(1,2) t(5) by (simp add: tick_ok_def chan_frame_def)
  qed
  show ?thesis
  proof (cases "waiting_receivers s t")
    case Nil
    then have room: "has_room (chans s t)" using ok by (auto simp: tick_ok_def)
    obtain s' where s': "chan_send vo t (Some b) True q s = Inr (Ret CHAN_SUCCESS s')" "quanta s' = quanta s" "cos s' = cos s" "sched_inv s'"
      "locks s' = locks s" "chan_frame t s s'"
      by (rule send_stored [OF t(1-3) Nil t(4) room, of vo b True q]) (rule that)
    have "live s' = live s" using s'(2,3) by (simp add: fun_eq_iff live_def)
    then have "tick_ok vo (T - {t}) s'"
      using que_ok_cong [OF s'(2,3)] others by (intro conclude [OF s'(4,6,2,5)]) (simp add: chan_ok_def)
    with s'(1) show ?thesis by blast
  next
    case (Cons r rs)
    then have "r \<in> set (filter (live s) (recv_que (chans s t)))" by (simp add: waiting_receivers_def)
    then have r: "r \<in> set (recv_que (chans s t))" "live s r" by simp_all
    then obtain d where d: "qm_itembuf (quanta s r) = Some d" using t(2) by (auto simp: chan_ok_def que_ok_def)
    obtain s' where s': "chan_send vo t (Some b) True q s = Inr (Ret CHAN_SUCCESS s')" "quanta s' = quanta s" "sched_inv s'"
      "locks s' = locks s" "chan_frame t s s'"
      "cos s' = (cos (claim r s))(qm_co (quanta s r) := (cos (claim r s) (qm_co (quanta s r)))\<lparr>co_status := READY\<rparr>)"
      by (rule send_to_receiver [OF t(1-3,5) Cons d, of b True q]) (rule that)
    have "que_ok s' u (recv_que (chans s u)) \<and> que_ok s' u (send_que (chans s u)) \<and>
       (\<forall>q\<in>set (recv_que (chans s u) @ send_que (chans s u)). live s' q = live s q)" if u: "u \<in> T" "u \<noteq> t" for u
    proof -
      have ne: "qm_co (quanta s x) \<noteq> qm_co (quanta s r)" if "x \<in> set (recv_que (chans s u) @ send_que (chans s u))" "live s x" for x
        using ap [OF ok(2) u(1)] u(2) r that unfolding apart_def by metis
      have q: "que_ok s u (recv_que (chans s u))" "que_ok s u (send_que (chans s u))" using others [OF u(1)] by (simp_all add: chan_ok_def)
      show ?thesis using que_ok_wake [OF q(1) s'(2,6)] que_ok_wake [OF q(2) s'(2,6)] ne by auto
    qed
    then have "tick_ok vo (T - {t}) s'" by (rule conclude [OF s'(3,5,2,4)])
    with s'(1) show ?thesis by blast
  qed
qed

lemma tick_ok_mem: "tick_ok vo T (s\<lparr>mem := x\<rparr>) = tick_ok vo T s"
proof -
  have "live (s\<lparr>mem := x\<rparr>) = live s" by (simp add: fun_eq_iff live_def)
  then show ?thesis
    by (simp add: tick_ok_def chan_ok_def que_ok_def waiting_receivers_def apart_def)
qed

interpretation ticks: timer_action "fire user vo q" user_timer "tick_ok vo" for user vo q
proof
  fix T s t r and i :: int
  show "\<exists>c s'. fire user vo q t r s = Inr (Ret c s') \<and> tick_ok vo (T - {t}) s'" if "tick_ok vo T s" "t \<in> T" "user_timer t r"
    using send_tick [of vo T "s\<lparr>mem := (mem s)(t := Raw (when_bytes (tm_when r)))\<rparr>" t t q] that
    by (simp add: tick_ok_mem fire_def send_timer_def user_timer_def)
  show "user_timer t (r\<lparr>tm_index := i\<rparr>)" if "user_timer t r" using that by (simp add: user_timer_def)
qed

section \<open>Properties\<close>

text \<open>The manager's array is as long as its capacity, not full beyond it, and holds a heap of timers that know their positions.\<close>

definition mgr_ok :: "tmgr \<Rightarrow> bool" where
  "mgr_ok m \<longleftrightarrow> placed (th m) (tm_size m) \<and> heap_ok (th m) (tm_size m) \<and> length (timers (th m)) = tm_cap m \<and> tm_size m \<le> tm_cap m \<and> 0 < tm_cap m"

abbreviation mgr_timers :: "tmgr \<Rightarrow> addr set" where
  "mgr_timers m \<equiv> held (th m) (tm_size m)"

lemma grow_ok:
  assumes "mgr_ok m"
  shows "placed (th (grow m)) (tm_size m)" "heap_ok (th (grow m)) (tm_size m)" "tm_size m < length (timers (th (grow m)))"
    "held (th (grow m)) (tm_size m) = mgr_timers m" "tst (th (grow m)) = tst (th m)" "length (timers (th (grow m))) = tm_cap (grow m)"
    "tm_size (grow m) = tm_size m" "tm_daemon (grow m) = tm_daemon m" "tm_lock (grow m) = tm_lock m" "tm_suspend (grow m) = tm_suspend m"
    "tm_note (grow m) = tm_note m"
  using assms by (auto simp: grow_def mgr_ok_def placed_def heap_ok_def due_def held_def nth_append)

lemma heap_push_ok:
  assumes h: "placed h n" "heap_ok h n" "n < length (timers h)" "t \<notin> held h n"
  shows "placed (heap_push t n h) (Suc n)" "heap_ok (heap_push t n h) (Suc n)" "held (heap_push t n h) (Suc n) = insert t (held h n)"
    "length (timers (heap_push t n h)) = length (timers h)" "\<And>u. \<exists>i. tst (heap_push t n h) u = (tst h u)\<lparr>tm_index := i\<rparr>"
proof -
  define h1 where "h1 = upd_timer t (\<lambda>r. r\<lparr>tm_index := int n\<rparr>) (h\<lparr>timers := (timers h)[n := t]\<rparr>)"
  have xs: "timers h1 = (timers h)[n := t]" by (simp add: h1_def)
  have tk: "take (Suc n) (timers h1) = take n (timers h) @ [t]" using h(3) by (simp add: xs take_Suc_conv_app_nth)
  have tst: "tst h1 u = (if u = t then (tst h u)\<lparr>tm_index := int n\<rparr> else tst h u)" for u by (simp add: h1_def upd_timer_def)
  have nth: "timers h1 ! i = (if i = n then t else timers h ! i)" for i using h(3) by (simp add: xs)
  have nt: "timers h ! i \<noteq> t" if "i < n" for i using that h(3,4) held_nth [of n h] by auto
  have pl: "placed h1 (Suc n)"
    using h(1,3,4) tk nt by (auto simp: placed_def held_def nth tst xs less_Suc_eq)
  have d: "due h1 i = due h i" if "i < n" for i using that nt by (simp add: due_def nth tst)
  have up: "up_ok h1 (Suc n) n"
  proof -
    have "due h1 (parent i) \<le> due h1 i" if "i < Suc n" "0 < i" "i \<noteq> n" for i
      using that d [of i] d [of "parent i"] parent_less [OF that(2)] h(2) by (simp add: heap_ok_def)
    moreover have "parent i \<noteq> n" if "i < Suc n" "0 < i" for i using parent_less [OF that(2)] that(1) by linarith
    ultimately show ?thesis by (auto simp: up_ok_def)
  qed
  have adj: "heap_push t n h = up_adjust_heap n h1" by (simp add: heap_push_def h1_def)
  note r = up_adjust_ok [OF pl _ up]
  show "placed (heap_push t n h) (Suc n)" "heap_ok (heap_push t n h) (Suc n)" using r by (simp_all add: adj)
  show "held (heap_push t n h) (Suc n) = insert t (held h n)"
    using only_moved_held [of "Suc n" h1 "up_adjust_heap n h1"] r tk by (simp add: adj held_def)
  show "length (timers (heap_push t n h)) = length (timers h)" using r by (simp add: adj only_moved_def xs)
  show "\<exists>i. tst (heap_push t n h) u = (tst h u)\<lparr>tm_index := i\<rparr>" for u
  proof -
    obtain i where "tst (up_adjust_heap n h1) u = (tst h1 u)\<lparr>tm_index := i\<rparr>" using r only_moved_tst by blast
    then show ?thesis unfolding adj by (auto simp: tst)
  qed
qed

lemma add_intertimer_heap:
  assumes "mgr_ok m" "t \<notin> mgr_timers m" "add_intertimer vo dm entry t m s = Inr (m', s')"
  shows "mgr_ok m'" "mgr_timers m' = insert t (mgr_timers m)" "\<exists>i. tst (th m') u = (tst (th m) u)\<lparr>tm_index := i\<rparr>"
    "tm_size m' = Suc (tm_size m)" "tm_lock m' = tm_lock m"
proof -
  note g = grow_ok [OF assms(1)]
  define h where "h = heap_push t (tm_size m) (th (grow m))"
  note p = heap_push_ok [OF g(1-3), of t, unfolded g(4), OF assms(2)]
  have m': "th m' = h" "tm_size m' = Suc (tm_size m)" "tm_cap m' = tm_cap (grow m)" "tm_lock m' = tm_lock m"
    using assms(3)
    by (auto simp: add_intertimer_def andthen_Inr_iff Let_def g(7,9) h_def notify_wakeup_def intertimer_start_def split: option.splits if_splits)
  then show "tm_size m' = Suc (tm_size m)" "tm_lock m' = tm_lock m" by simp_all
  show "\<exists>i. tst (th m') u = (tst (th m) u)\<lparr>tm_index := i\<rparr>" using p(5) [of u] g(5) m'(1) by (simp add: h_def)
  show "mgr_ok m'" using p(1,2,4) g(3,6) m' by (simp add: mgr_ok_def h_def)
  show "mgr_timers m' = insert t (mgr_timers m)" using p(3) g(4) m' by (simp add: h_def)
qed

lemma empty_mgr_ok: "mgr_ok (intertimer_initialize m)" "mgr_timers (intertimer_initialize m) = {}"
  by (simp_all add: intertimer_initialize_def mgr_ok_def placed_def heap_ok_def held_def TSC_DEFAULT_INTERTIMERS_CAP_def)

text \<open>
  Claim C15. Starting a timer puts it into the heap and keeps the heap in order: after \<open>coroc_add_intertimer\<close>, on every path through it,
  the manager is well formed again, holds exactly one timer more, and no timer's due time has changed. An
  empty manager is well formed.
\<close>

theorem timer_add_keeps_heap:
  assumes "mgr_ok m" "t \<notin> mgr_timers m" "add_intertimer vo dm entry t m s = Inr (m', s')"
  shows "mgr_ok m' \<and> mgr_timers m' = insert t (mgr_timers m) \<and> (\<forall>u. tm_when (tst (th m') u) = tm_when (tst (th m) u)) \<and>
     tm_size m' = Suc (tm_size m) \<and> mgr_ok (intertimer_initialize m) \<and> mgr_timers (intertimer_initialize m) = {}"
proof -
  note a = add_intertimer_heap [OF assms]
  have "tm_when (tst (th m') u) = tm_when (tst (th m) u)" for u using a(3) [of u] by auto
  then show ?thesis using a(1,2,4) empty_mgr_ok by simp
qed

text \<open>For the witnesses: a manager whose daemon, coroutine 2, is neither suspended nor asleep; timer \<open>t\<close> is due at time \<open>t\<close>.\<close>

definition example_mgr :: tmgr where
  "example_mgr = intertimer_initialize \<lparr>th = \<lparr>timers = [], tst = (\<lambda>t. \<lparr>tm_when = of_nat t, tm_period = 0, tm_index = -1, tm_func = SendTimer,
     tm_args = None, tm_owner = Some t\<rparr>)\<rparr>, tm_lock = 60, tm_note = False, tm_suspend = False, tm_cap = 0, tm_size = 0, tm_daemon = Some 2\<rparr>"

lemma example_mgr_ok: "mgr_ok example_mgr" "mgr_timers example_mgr = {}" "tm_size example_mgr = 0" "tm_lock example_mgr = 60"
  "tm_daemon example_mgr = Some 2" "\<not> tm_suspend example_mgr" "\<not> tm_note example_mgr" "\<not> locks example_sys l"
  by (simp_all add: example_mgr_def intertimer_initialize_def mgr_ok_def placed_def heap_ok_def held_def TSC_DEFAULT_INTERTIMERS_CAP_def example_sys_def)

theorem timer_add_keeps_heap_witness:
  "\<exists>m' s'. add_intertimer None 9 9 40 example_mgr example_sys = Inr (m', s') \<and> mgr_ok m' \<and> mgr_timers m' = {40}"
proof -
  note g = grow_ok [OF example_mgr_ok(1)]
  obtain m' s' where a: "add_intertimer None 9 9 40 example_mgr example_sys = Inr (m', s')"
    by (simp add: add_intertimer_def lock_acquire_at_def example_mgr_ok Let_def g)
  from timer_add_keeps_heap [OF example_mgr_ok(1) _ a] a show ?thesis by (auto simp: example_mgr_ok(2))
qed

text \<open>Removing a timer: the last one of the array takes its place and is moved down.\<close>

lemma remove_placed:
  assumes h: "placed h (Suc n)" "i \<le> n"
    and h1: "h1 = upd_timer ((timers h)[i := timers h ! n] ! i) (\<lambda>r. r\<lparr>tm_index := int i\<rparr>) (h\<lparr>timers := (timers h)[i := timers h ! n]\<rparr>)"
  shows "placed h1 n" "held h1 n = held h (Suc n) - {timers h ! i}" "\<And>j. j < n \<Longrightarrow> due h1 j = (if j = i then due h n else due h j)"
    "length (timers h1) = length (timers h)" "\<And>u. \<exists>k. tst h1 u = (tst h u)\<lparr>tm_index := k\<rparr>"
proof -
  let ?xs = "timers h"
  have len: "i < length ?xs" "n < length ?xs" "Suc n \<le> length ?xs" using h by (auto simp: placed_def)
  have xs: "timers h1 = ?xs[i := ?xs ! n]" by (simp add: h1)
  have nth: "timers h1 ! j = (if j = i then ?xs ! n else ?xs ! j)" for j using len by (auto simp: xs)
  have tst: "tst h1 u = (if u = ?xs ! n then (tst h u)\<lparr>tm_index := int i\<rparr> else tst h u)" for u using len by (simp add: h1 upd_timer_def)
  have inj: "?xs ! j = ?xs ! k \<longleftrightarrow> j = k" if "j \<le> n" "k \<le> n" for j k using placed_inj [OF h(1)] that by simp
  have "tm_index (tst h1 (timers h1 ! j)) = int j" if "j < n" for j
    using that h inj [of j n] by (auto simp: nth tst placed_def)
  moreover have "distinct (take n (timers h1))"
  proof -
    have "timers h1 ! j \<noteq> timers h1 ! k" if "j < n" "k < n" "j \<noteq> k" for j k using that inj h(2) by (auto simp: nth)
    then show ?thesis using len by (simp add: distinct_conv_nth xs)
  qed
  ultimately show "placed h1 n" using len by (simp add: placed_def xs)
  show "due h1 j = (if j = i then due h n else due h j)" if "j < n" for j using that inj [of j n] by (simp add: due_def nth tst)
  have "held h1 n = {timers h1 ! j | j. j < n}" using held_nth [of n h1] len by (simp add: xs)
  also have "\<dots> = {?xs ! j | j. j < Suc n} - {?xs ! i}"
  proof
    show "{timers h1 ! j | j. j < n} \<subseteq> {?xs ! j | j. j < Suc n} - {?xs ! i}" 
    proof
      fix x assume "x \<in> {timers h1 ! j | j. j < n}"
      then obtain j where "x = timers h1 ! j" "j < n" by blast
      then obtain k where "x = ?xs ! k" "k \<le> n" "k \<noteq> i" using h(2) by (cases "j = i") (auto simp: nth)
      then show "x \<in> {?xs ! j | j. j < Suc n} - {?xs ! i}" using inj [of k i] h(2) by (auto simp: less_Suc_eq_le)
    qed
    show "{?xs ! j | j. j < Suc n} - {?xs ! i} \<subseteq> {timers h1 ! j | j. j < n}"
    proof
      fix x assume "x \<in> {?xs ! j | j. j < Suc n} - {?xs ! i}"
      then obtain j where j0: "x = ?xs ! j" "j < Suc n" "x \<noteq> ?xs ! i" by blast
      then have j: "x = ?xs ! j" "j \<le> n" "j \<noteq> i" by auto
      show "x \<in> {timers h1 ! j | j. j < n}"
      proof (cases "j = n")
        case True
        then have "x = timers h1 ! i" "i < n" using j h(2) by (auto simp: nth)
        then show ?thesis by blast
      next
        case False
        then have "x = timers h1 ! j" "j < n" using j by (auto simp: nth)
        then show ?thesis by blast
      qed
    qed
  qed
  finally show "held h1 n = held h (Suc n) - {?xs ! i}" using held_nth [OF len(3)] by simp
  show "length (timers h1) = length (timers h)" by (simp add: xs)
  show "\<exists>k. tst h1 u = (tst h u)\<lparr>tm_index := k\<rparr>" for u
    using exI [of "\<lambda>k. tst h u = (tst h u)\<lparr>tm_index := k\<rparr>" "tm_index (tst h u)"] by (auto simp: tst)
qed

lemma heap_remove_ok:
  assumes h: "placed h (Suc n)" "i \<le> n"
  shows "placed (heap_remove i n h) n" "held (heap_remove i n h) n = held h (Suc n) - {timers h ! i}"
    "length (timers (heap_remove i n h)) = length (timers h)" "\<And>u. \<exists>k. tst (heap_remove i n h) u = (tst h u)\<lparr>tm_index := k\<rparr>"
    "heap_ok h (Suc n) \<Longrightarrow> i = 0 \<or> i = n \<or> due h (parent i) \<le> due h n \<Longrightarrow> heap_ok (heap_remove i n h) n"
proof -
  define h1 where "h1 = upd_timer ((timers h)[i := timers h ! n] ! i) (\<lambda>r. r\<lparr>tm_index := int i\<rparr>) (h\<lparr>timers := (timers h)[i := timers h ! n]\<rparr>)"
  note r = remove_placed [OF h h1_def]
  have e: "heap_remove i n h = down_adjust_heap i n h1" by (simp add: heap_remove_def h1_def Let_def)
  note mv = down_adjust_moves [OF r(1), of i]
  show "placed (heap_remove i n h) n" "held (heap_remove i n h) n = held h (Suc n) - {timers h ! i}"
    "length (timers (heap_remove i n h)) = length (timers h)"
    using mv r(2,4) only_moved_held [of n h1] by (simp_all add: e only_moved_def)
  show "\<exists>k. tst (heap_remove i n h) u = (tst h u)\<lparr>tm_index := k\<rparr>" for u
  proof -
    obtain k where "tst h1 u = (tst h u)\<lparr>tm_index := k\<rparr>" using r(5) by blast
    moreover obtain j where "tst (down_adjust_heap i n h1) u = (tst h1 u)\<lparr>tm_index := j\<rparr>" using mv only_moved_tst by blast
    ultimately show ?thesis unfolding e by auto
  qed
  show "heap_ok (heap_remove i n h) n" if ok: "heap_ok h (Suc n)" and p: "i = 0 \<or> i = n \<or> due h (parent i) \<le> due h n"
  proof (cases "i = n")
    case True
    have "heap_ok h1 n" using ok r(3) parent_less unfolding heap_ok_def True
      by (metis (no_types, lifting) less_SucI less_irrefl_nat less_trans)
    moreover have "down_adjust_heap i n h1 = h1" using True by (simp add: down_adjust_heap.simps)
    ultimately show ?thesis by (simp add: e)
  next
    case False
    then have i: "i < n" using h(2) by simp
    have hp: "due h (parent j) \<le> due h j" if "0 < j" "j \<le> n" for j using ok that by (simp add: heap_ok_def)
    have "due h1 (parent j) \<le> due h1 j" if j: "j < n" "0 < j" "parent j \<noteq> i" for j
    proof -
      have "due h1 (parent j) = due h (parent j)" using r(3) [of "parent j"] j parent_less [OF j(2)] by simp
      then show ?thesis using r(3) [OF j(1)] hp [of j] j p i by auto
    qed
    moreover have "due h1 (parent i) \<le> due h1 j" if j: "0 < i" "j < n" "0 < j" "parent j = i" for j
    proof -
      have "j \<noteq> i" using parent_less [OF j(3)] j(4) by auto
      then have "due h1 j = due h j" "due h1 (parent i) = due h (parent i)"
        using r(3) [OF j(2)] r(3) [of "parent i"] parent_less [OF j(1)] i by auto
      moreover have "due h (parent i) \<le> due h i" "due h i \<le> due h j" using hp [of i] hp [of j] i j by auto
      ultimately show ?thesis by simp
    qed
    ultimately have "down_ok h1 n i" by (simp add: down_ok_def)
    then show ?thesis using down_adjust_ok [OF r(1)] i by (simp add: e)
  qed
qed

lemma del_intertimer_heap:
  assumes "mgr_ok m" "\<not> locks s (tm_lock m)"
  shows "if t \<in> mgr_timers m
     then \<exists>m'. del_intertimer t m s = Inr (0, m', s) \<and> mgr_timers m' = mgr_timers m - {t} \<and> placed (th m') (tm_size m') \<and>
       Suc (tm_size m') = tm_size m \<and> (\<forall>u. tm_when (tst (th m') u) = tm_when (tst (th m) u)) \<and> tm_lock m' = tm_lock m \<and>
       (let i = nat (tm_index (tst (th m) t)); n = tm_size m - 1 in
        i = 0 \<or> i = n \<or> due (th m) (parent i) \<le> due (th m) n \<longrightarrow> mgr_ok m')
     else del_intertimer t m s = Inr (-1, m, s)"
proof -
  let ?i = "tm_index (tst (th m) t)"
  let ?l = "s\<lparr>locks := (locks s)(tm_lock m := True)\<rparr>"
  have lk: "lock_acquire_at (tm_lock m) s = Inr ?l" "lock_release_at (tm_lock m) ?l = s"
    using assms(2) by (simp_all add: lock_acquire_at_def lock_release_at_def fun_upd_idem)
  have ok: "placed (th m) (tm_size m)" "heap_ok (th m) (tm_size m)" "tm_size m \<le> length (timers (th m))"
    using assms(1) by (auto simp: mgr_ok_def)
  have found: "t \<in> mgr_timers m \<longleftrightarrow> \<not> (?i < 0 \<or> int (tm_size m) \<le> ?i \<or> t \<noteq> timers (th m) ! nat ?i)"
  proof
    assume "t \<in> mgr_timers m"
    then obtain j where "j < tm_size m" "t = timers (th m) ! j" using held_nth [OF ok(3)] by auto
    then show "\<not> (?i < 0 \<or> int (tm_size m) \<le> ?i \<or> t \<noteq> timers (th m) ! nat ?i)" using ok(1) by (simp add: placed_def)
  next
    assume "\<not> (?i < 0 \<or> int (tm_size m) \<le> ?i \<or> t \<noteq> timers (th m) ! nat ?i)"
    then show "t \<in> mgr_timers m" using held_nth [OF ok(3)] by (auto intro!: exI [of _ "nat ?i"])
  qed
  show ?thesis
  proof (cases "t \<in> mgr_timers m")
    case True
    then have f: "\<not> (?i < 0 \<or> int (tm_size m) \<le> ?i \<or> t \<noteq> timers (th m) ! nat ?i)" using found by simp
    define i n where "i = nat ?i" and "n = tm_size m - 1"
    have n: "tm_size m = Suc n" "i \<le> n" "timers (th m) ! i = t" using f by (auto simp: i_def n_def)
    let ?m = "m\<lparr>th := heap_remove i n (th m), tm_size := n\<rparr>"
    have d: "del_intertimer t m s = Inr (0, ?m, lock_release_at (tm_lock m) ?l)"
      using lk f by (simp add: del_intertimer_def Let_def i_def n_def)
    note r = heap_remove_ok [OF ok(1) [unfolded n(1)] n(2)]
    have w: "tm_when (tst (heap_remove i n (th m)) u) = tm_when (tst (th m) u)" for u using r(4) [of u] by auto
    have "mgr_ok ?m" if "i = 0 \<or> i = n \<or> due (th m) (parent i) \<le> due (th m) n"
      using r(1,3) r(5) [OF ok(2) [unfolded n(1)] that] assms(1) n(1) by (simp add: mgr_ok_def)
    then show ?thesis using True d lk(2) r(1,2) w n(1,3) unfolding i_def [symmetric] by (auto simp: Let_def)
  next
    case False
    then show ?thesis using found lk by (auto simp: del_intertimer_def Let_def)
  qed
qed

text \<open>
  Stopping a timer: \<open>coroc_del_intertimer\<close> answers \<open>0\<close> exactly when the timer is in the heap and then removes it and no
  other; otherwise it answers \<open>-1\<close> and changes nothing. Positions stay right in either case. The order of
  the heap is kept when the timer that takes the free place is not due before its new parent.
\<close>

theorem timer_del_removes:
  assumes "mgr_ok m" "\<not> locks s (tm_lock m)"
  shows "if t \<in> mgr_timers m
     then \<exists>m' s'. del_intertimer t m s = Inr (0, m', s') \<and> mgr_timers m' = mgr_timers m - {t} \<and> placed (th m') (tm_size m') \<and>
       Suc (tm_size m') = tm_size m \<and> (\<forall>u. tm_when (tst (th m') u) = tm_when (tst (th m) u)) \<and> locks s' = locks s \<and>
       (let i = nat (tm_index (tst (th m) t)); n = tm_size m - 1 in
        i = 0 \<or> i = n \<or> due (th m) (parent i) \<le> due (th m) n \<longrightarrow> mgr_ok m')
     else \<exists>s'. del_intertimer t m s = Inr (-1, m, s') \<and> locks s' = locks s"
  using del_intertimer_heap [OF assms, of t] by (auto simp: Let_def)

theorem timer_del_removes_witness:
  "\<exists>m1 s1 m2 s2. add_intertimer None 9 9 40 example_mgr example_sys = Inr (m1, s1) \<and> del_intertimer 40 m1 s1 = Inr (0, m2, s2) \<and>
     mgr_timers m2 = {} \<and> (\<exists>s3. del_intertimer 41 m1 s1 = Inr (-1, m1, s3))"
proof -
  note g = grow_ok [OF example_mgr_ok(1)]
  obtain m1 s1 where a: "add_intertimer None 9 9 40 example_mgr example_sys = Inr (m1, s1)"
    "m1 = (grow example_mgr)\<lparr>th := heap_push 40 0 (th (grow example_mgr)), tm_size := 1\<rparr>" "\<not> locks s1 l" for l
    by (simp add: add_intertimer_def lock_acquire_at_def lock_release_at_def example_mgr_ok Let_def g)
  note p = heap_push_ok [OF g(1-3), of 40, unfolded g(4)]
  have m1: "mgr_ok m1" "mgr_timers m1 = {40}"
    using p g(3,6) a(2) example_mgr_ok(2,3) by (simp_all add: mgr_ok_def)
  have "\<exists>m2 s2. del_intertimer 40 m1 s1 = Inr (0, m2, s2) \<and> mgr_timers m2 = {}"
    using timer_del_removes [OF m1(1) a(3), of 40] m1(2) by auto
  moreover have "\<exists>s3. del_intertimer 41 m1 s1 = Inr (-1, m1, s3)"
    using timer_del_removes [OF m1(1) a(3), of 41] m1(2) by auto
  ultimately show ?thesis using a(1) by blast
qed

text \<open>
  Claim C18. The order can be lost: \<open>coroc_del_intertimer\<close> only moves the replacing timer down, never up. Of seven timers due at times 1 to 7,
  added to an empty manager in the order 7, 5, 6, 3, 4, 2, 1, the one due at 7 is stopped; at time 3 the daemon
  fires the timers due at 1 and 2 and then stops at the one due at 4, with the timer due at 3 still in the heap.
\<close>

definition push_all :: "addr list \<Rightarrow> tmgr \<Rightarrow> sys \<Rightarrow> c_err + (tmgr \<times> sys)" where
  "push_all ts m s = fold (\<lambda>t r. andthen r (\<lambda>(m, s). add_intertimer None 9 9 t m s)) ts (Inr (m, s))"




text \<open>
  The daemon sends on the channel of a timer while it holds the lock of the manager. When the last time stamp has not been
  received yet, the send blocks: only the lock of the channel is given up, so the manager stays locked and every
  coroutine that starts or stops a timer waits for the receiver of an unrelated one.
\<close>

theorem timer_daemon_blocks_locked:
  assumes "sched_inv s" "v < xt_index s" "running s v = Some d" "\<not> locks s (tm_lock m)"
    and "0 < tm_size m" "t = timers (th m) ! 0" "tm_when (tst (th m) t) \<le> now" "user_timer t (tst (th m) t)" "t \<noteq> tm_lock m"
    and "chan_ok s t" "\<not> locks s t" "\<not> ch_close (chans s t)" "waiting_receivers s t = []" "\<not> has_room (chans s t)"
    and "q \<notin> set (send_que (chans s t))" "d \<notin> (\<lambda>x. qm_co (quanta s x)) ` set (send_que (chans s t))"
  shows "\<exists>s'. intertimer_round (fire user (Some v) q) now (Suc k) v m s = Some (Inr (DaemonBlocked [t] m s')) \<and> sched_inv s' \<and>
     co_status (cos s' d) = WAIT \<and> locks s' (tm_lock m) \<and> \<not> locks s' t \<and>
     (\<forall>vo dm entry u. add_intertimer vo dm entry u m s' = Inl SelfDeadlock \<and> del_intertimer u m s' = Inl SelfDeadlock)"
proof -
  let ?s = "s\<lparr>locks := (locks s)(tm_lock m := True), mem := (mem s)(t := Raw (when_bytes (tm_when (tst (th m) t))))\<rparr>"
  have lv: "live ?s = live s" by (simp add: fun_eq_iff live_def)
  have x: "sched_inv ?s" "chan_ok ?s t" "\<not> locks ?s t" "v < xt_index ?s" "running ?s v = Some d" "\<not> has_room (chans ?s t)"
    "waiting_receivers ?s t = []" "\<not> ch_close (chans ?s t)" "q \<notin> set (send_que (chans ?s t))"
    "d \<notin> (\<lambda>x. qm_co (quanta ?s x)) ` set (send_que (chans ?s t))"
    using assms lv by (simp_all add: chan_ok_def que_ok_def waiting_receivers_def)
  obtain s' where s': "chan_send (Some v) t (Some t) True q ?s = Inr (Suspended s')" "sched_inv s'" "\<not> locks s' t"
    "co_status (cos s' d) = WAIT" "\<forall>l. l \<noteq> t \<longrightarrow> locks s' l = locks ?s l"
    by (rule send_blocks [OF x, of t]) (rule that)
  have f: "fire user (Some v) q t (tst (th m) t) (s\<lparr>locks := (locks s)(tm_lock m := True)\<rparr>) = Inr (Suspended s')"
    using s'(1) assms(8) by (simp add: fire_def send_timer_def user_timer_def)
  have "daemon_loop (fire user (Some v) q) now (Suc k) [] (tm_size m) m (s\<lparr>locks := (locks s)(tm_lock m := True)\<rparr>) =
      Some (Inr (LoopBlocked [t] m s'))"
    using assms(5-7) f by (simp add: Let_def)
  then have r: "intertimer_round (fire user (Some v) q) now (Suc k) v m s = Some (Inr (DaemonBlocked [t] m s'))"
    using assms(4) by (simp add: intertimer_round_def lock_acquire_at_def del: daemon_loop.simps)
  have "locks s' (tm_lock m)" using s'(5) assms(9) by simp
  then show ?thesis using r s'(2-4) by (simp add: add_intertimer_def del_intertimer_def lock_acquire_at_def)
qed

text \<open>Timer 8 has the unbuffered channel 8, so nobody can take its time stamp.\<close>

theorem timer_daemon_blocks_locked_witness:
  "\<exists>s'. intertimer_round (fire (\<lambda>f s. Inr s) (Some 0) 20) 10 1 0 (example_mgr\<lparr>th := heap_push 8 0 (th example_mgr), tm_size := 1\<rparr>) chan_sys =
     Some (Inr (DaemonBlocked [8] (example_mgr\<lparr>th := heap_push 8 0 (th example_mgr), tm_size := 1\<rparr>) s')) \<and> locks s' 60"
proof -
  let ?h = "heap_push 8 0 (th example_mgr)"
  let ?m = "example_mgr\<lparr>th := ?h, tm_size := 1\<rparr>"
  have h: "timers ?h ! 0 = 8" "tm_when (tst ?h 8) = 8" "user_timer 8 (tst ?h 8)"
    by (simp_all add: heap_push_def up_adjust_heap.simps [of 0] upd_timer_def example_mgr_def intertimer_initialize_def
        TSC_DEFAULT_INTERTIMERS_CAP_def user_timer_def)
  have "\<not> has_room (chans chan_sys 8)" by (simp add: chan_sys_def blank_chan_def has_room_def)
  with timer_daemon_blocks_locked [where s = chan_sys and v = 0 and d = 1 and m = ?m and t = 8 and now = 10 and q = 20
      and user = "\<lambda>f s. Inr s" and k = 0] h show ?thesis
    by (auto simp: chan_sys_ok example_mgr_ok)
qed

text \<open>
  A wake-up can be missed. When the only timer is stopped while the daemon sleeps until that timer's due time, the manager is empty
  but the daemon is not suspended; a timer started then is added without waking the daemon, which sleeps on
  until the old due time, even if the new timer is due earlier.
\<close>

theorem timer_add_misses_wakeup:
  assumes "tm_size m = 0" "\<not> tm_suspend m" "tm_daemon m = Some d" "\<not> locks s (tm_lock m)" "\<not> tm_note m" "mgr_ok m"
  shows "\<exists>m' s'. add_intertimer vo dm entry t m s = Inr (m', s') \<and> mgr_timers m' = {t} \<and> \<not> tm_note m' \<and> cos s' = cos s"
proof -
  note g = grow_ok [OF assms(6)]
  let ?m = "(grow m)\<lparr>th := heap_push t 0 (th (grow m)), tm_size := 1\<rparr>"
  have "held (th m) 0 = {}" by (simp add: held_def)
  then have "mgr_timers ?m = {t}" using heap_push_ok(3) [OF g(1-3), of t, unfolded g(4)] assms(1) by simp
  moreover have "add_intertimer vo dm entry t m s = Inr (?m, lock_release_at (tm_lock m) (s\<lparr>locks := (locks s)(tm_lock m := True)\<rparr>))"
    using assms g by (simp add: add_intertimer_def lock_acquire_at_def Let_def)
  ultimately show ?thesis using assms(5) g(11) by (simp add: lock_release_at_def)
qed

theorem timer_add_misses_wakeup_witness:
  "\<exists>m' s'. add_intertimer None 9 9 5 example_mgr example_sys = Inr (m', s') \<and> mgr_timers m' = {5} \<and> \<not> tm_note m'"
  using timer_add_misses_wakeup [of example_mgr 2 example_sys None 9 9 5] by (auto simp: example_mgr_ok)

end
