(* ===== verification/Hash.thy ===== *)
theory Hash
  imports Prelude
begin

text \<open>
  The hash table (\<^verbatim>\<open>src/hash.c\<close>, \<^verbatim>\<open>include/inter/coroc_hash.h\<close>): two tables with a hash function each; an entry is in one of its two
  places, and an insertion moves entries between the tables until one finds a free place. Entries are values here:
  the code never shares one, and frees it where it disappears from the tables.
\<close>

section \<open>The table\<close>

record hash_entry =
  he_key :: u64
  he_value :: ptr

record hash_t =
  capacity :: nat
  table0 :: "hash_entry option list"
  table1 :: "hash_entry option list"
  hash_lock :: bool

definition CAPACITY :: nat where "CAPACITY = 128"

definition LIMIT :: nat where "LIMIT = 6"

definition hash_fun0 :: "u64 \<Rightarrow> u64" where
  "hash_fun0 code = (17 * code + 72343) mod 9275507"

definition hash_fun1 :: "u64 \<Rightarrow> u64" where
  "hash_fun1 code = (19 * code + 89145) mod 8232341"

text \<open>\<open>one\<close> selects the table.\<close>

definition tab :: "bool \<Rightarrow> hash_t \<Rightarrow> hash_entry option list" where
  "tab one h = (if one then table1 h else table0 h)"

definition set_tab :: "bool \<Rightarrow> hash_entry option list \<Rightarrow> hash_t \<Rightarrow> hash_t" where
  "set_tab one t h = (if one then h\<lparr>table1 := t\<rparr> else h\<lparr>table0 := t\<rparr>)"

definition pos :: "bool \<Rightarrow> u64 \<Rightarrow> nat \<Rightarrow> nat" where
  "pos one key cap = unat ((if one then hash_fun1 key else hash_fun0 key) mod of_nat cap)"

section \<open>Operations\<close>

definition hash_init :: "hash_t \<Rightarrow> hash_t" where
  "hash_init h = h\<lparr>capacity := CAPACITY, table0 := replicate CAPACITY None, table1 := replicate CAPACITY None\<rparr>"

text \<open>Every slot of the old table is read as an entry, empty or not.\<close>

fun rehash :: "bool \<Rightarrow> nat \<Rightarrow> hash_entry option list \<Rightarrow> hash_entry option list \<Rightarrow> c_err + hash_entry option list" where
  "rehash one cap [] tmp = Inr tmp"
| "rehash one cap (None # es) tmp = Inl NullDeref"
| "rehash one cap (Some e # es) tmp = rehash one cap es (tmp[pos one (he_key e) cap := Some e])"

definition resize :: "hash_t \<Rightarrow> c_err + hash_t" where
  "resize h = (let cap = 2 * capacity h in
     andthen (rehash False cap (table0 h) (replicate cap None))
       (\<lambda>t0. andthen (rehash True cap (table1 h) (replicate cap None))
          (\<lambda>t1. Inr (h\<lparr>table0 := t0, table1 := t1, capacity := cap\<rparr>))))"

text \<open>The loop of \<open>__add\<close>: the entry finds a place, its key is found, or an entry is left over after the last round.\<close>

datatype add_out = Added hash_t | Present hash_t | LeftOver hash_entry hash_t

fun add_loop :: "nat \<Rightarrow> bool \<Rightarrow> hash_entry \<Rightarrow> hash_t \<Rightarrow> add_out" where
  "add_loop 0 one e h = LeftOver e h"
| "add_loop (Suc k) one e h =
     (let p = pos one (he_key e) (capacity h) in
      case tab one h ! p of
        None \<Rightarrow> Added (set_tab one ((tab one h)[p := Some e]) h)
      | Some tmp \<Rightarrow>
          if he_key e = he_key tmp then Present h
          else add_loop k (\<not> one) tmp (set_tab one ((tab one h)[p := Some e]) h))"

text \<open>\<open>__add\<close> calls itself after each resize; \<open>None\<close> stands for a call that never returns.\<close>

partial_function (option) hash_add :: "hash_entry \<Rightarrow> hash_t \<Rightarrow> (c_err + (int \<times> hash_t)) option" where
  "hash_add e h = (case add_loop LIMIT False e h of
       Added h \<Rightarrow> Some (Inr (0, h))
     | Present h \<Rightarrow> Some (Inr (-1, h))
     | LeftOver e h \<Rightarrow> (case resize h of Inl err \<Rightarrow> Some (Inl err) | Inr h \<Rightarrow> hash_add e h))"

declare hash_add.simps [code]

definition hash_insert :: "u64 \<Rightarrow> ptr \<Rightarrow> hash_t \<Rightarrow> (c_err + (int \<times> hash_t)) option" where
  "hash_insert key v h = hash_add \<lparr>he_key = key, he_value = v\<rparr> h"

definition hash_probe :: "bool \<Rightarrow> u64 \<Rightarrow> bool \<Rightarrow> hash_t \<Rightarrow> (ptr \<times> hash_t) option" where
  "hash_probe one key remove h = (let p = pos one key (capacity h) in
     case tab one h ! p of
       None \<Rightarrow> None
     | Some e \<Rightarrow>
         if he_key e = key then Some (he_value e, if remove then set_tab one ((tab one h)[p := None]) h else h) else None)"

definition hash_get :: "u64 \<Rightarrow> bool \<Rightarrow> hash_t \<Rightarrow> ptr \<times> hash_t" where
  "hash_get key remove h = (case hash_probe False key remove h of
       Some r \<Rightarrow> r
     | None \<Rightarrow> (case hash_probe True key remove h of Some r \<Rightarrow> r | None \<Rightarrow> (None, h)))"

text \<open>The entries that are freed, in order.\<close>

definition hash_fini :: "hash_t \<Rightarrow> hash_entry list" where
  "hash_fini h = List.map_filter id (table0 h) @ List.map_filter id (table1 h)"

definition atomic_hash_init :: "hash_t \<Rightarrow> hash_t" where
  "atomic_hash_init h = hash_init (h\<lparr>hash_lock := False\<rparr>)"

definition atomic_hash_insert :: "u64 \<Rightarrow> ptr \<Rightarrow> hash_t \<Rightarrow> (c_err + (int \<times> hash_t)) option" where
  "atomic_hash_insert key v h = (if hash_lock h then Some (Inl SelfDeadlock)
     else (case hash_insert key v (h\<lparr>hash_lock := True\<rparr>) of
         Some (Inr (r, h)) \<Rightarrow> Some (Inr (r, h\<lparr>hash_lock := False\<rparr>))
       | other \<Rightarrow> other))"

definition atomic_hash_get :: "u64 \<Rightarrow> bool \<Rightarrow> hash_t \<Rightarrow> c_err + (ptr \<times> hash_t)" where
  "atomic_hash_get key remove h = (if hash_lock h then Inl SelfDeadlock
     else (case hash_get key remove (h\<lparr>hash_lock := True\<rparr>) of (v, h) \<Rightarrow> Inr (v, h\<lparr>hash_lock := False\<rparr>)))"

section \<open>Well-formed tables\<close>

text \<open>Every entry is in its place, and no key is in both tables.\<close>

definition table_ok :: "bool \<Rightarrow> hash_t \<Rightarrow> bool" where
  "table_ok one h \<longleftrightarrow> length (tab one h) = capacity h \<and>
     (\<forall>p<capacity h. \<forall>e. tab one h ! p = Some e \<longrightarrow> p = pos one (he_key e) (capacity h))"

definition tables_ok :: "hash_t \<Rightarrow> bool" where
  "tables_ok h \<longleftrightarrow> 0 < capacity h \<and> capacity h < 2 ^ 31 \<and> table_ok False h \<and> table_ok True h"

text \<open>The entry of a key in one of the tables.\<close>

definition entry_in :: "bool \<Rightarrow> u64 \<Rightarrow> hash_t \<Rightarrow> hash_entry option" where
  "entry_in one key h = (case tab one h ! pos one key (capacity h) of
     None \<Rightarrow> None | Some e \<Rightarrow> if he_key e = key then Some e else None)"

definition hash_inv :: "hash_t \<Rightarrow> bool" where
  "hash_inv h \<longleftrightarrow> tables_ok h \<and> (\<forall>key. entry_in False key h = None \<or> entry_in True key h = None)"

text \<open>The contents as a finite map.\<close>

definition lookup :: "hash_t \<Rightarrow> u64 \<Rightarrow> ptr option" where
  "lookup h key = (case entry_in False key h of
     Some e \<Rightarrow> Some (he_value e) | None \<Rightarrow> map_option he_value (entry_in True key h))"

lemma tab_set_tab [simp]:
  "tab a (set_tab b t h) = (if a = b then t else tab a h)" "capacity (set_tab b t h) = capacity h" "hash_lock (set_tab b t h) = hash_lock h"
  by (auto simp: tab_def set_tab_def)

lemma pos_less: "0 < cap \<Longrightarrow> cap < 2 ^ 31 \<Longrightarrow> pos one key cap < cap"
proof -
  assume c: "0 < cap" "cap < 2 ^ 31"
  then have u: "unat (of_nat cap :: u64) = cap" by (simp add: unat_of_nat)
  show ?thesis using c unfolding pos_def unat_mod u by simp
qed

lemma pos_in: "tables_ok h \<Longrightarrow> pos one key (capacity h) < length (tab one h)"
  using pos_less [of "capacity h" one key] by (cases one) (auto simp: tables_ok_def table_ok_def)

text \<open>Writing an entry into its place.\<close>

definition put :: "bool \<Rightarrow> hash_entry \<Rightarrow> hash_t \<Rightarrow> hash_t" where
  "put one e h = set_tab one ((tab one h)[pos one (he_key e) (capacity h) := Some e]) h"

lemma put_ok:
  assumes "tables_ok h"
  shows "tables_ok (put one e h)"
proof -
  have "table_ok b (put one e h)" if "table_ok b h" for b
    using that pos_in [OF assms, of one "he_key e"] by (auto simp: table_ok_def put_def nth_list_update)
  then show ?thesis using assms by (simp add: tables_ok_def put_def)
qed

lemma entry_in_put:
  assumes "tables_ok h" and old: "tab one h ! pos one (he_key e) (capacity h) = old"
  shows "entry_in b key (put one e h) = (if b = one then
       (if key = he_key e then Some e else if (\<exists>o'. old = Some o' \<and> he_key o' = key) then None else entry_in b key h)
     else entry_in b key h)"
proof -
  note l = pos_in [OF assms(1), of one "he_key e"]
  have c: "capacity (put one e h) = capacity h" by (simp add: put_def)
  show ?thesis
  proof (cases "b = one")
    case True
    let ?p = "pos one (he_key e) (capacity h)"
    let ?k = "pos one key (capacity h)"
    show ?thesis
    proof (cases "?k = ?p")
      case eq: True
      have new: "tab b (put one e h) ! ?k = Some e" using True eq l by (simp add: put_def)
      have "tab one h ! ?k = old" using eq old by simp
      then show ?thesis using True new unfolding entry_in_def c by (cases old) auto
    next
      case False
      have "?p = pos one (he_key x) (capacity h)" if "old = Some x" for x
        using that old assms(1) l by (cases one) (auto simp: tables_ok_def table_ok_def)
      then have "\<not> (\<exists>x. old = Some x \<and> he_key x = key)" using False by auto
      moreover have "key \<noteq> he_key e" using False by auto
      moreover have "tab b (put one e h) ! ?k = tab one h ! ?k" using True False by (simp add: put_def)
      ultimately show ?thesis using True by (auto simp: entry_in_def c)
    qed
  qed (simp add: entry_in_def put_def)
qed

section \<open>Insertion\<close>

lemma lookup_None: "lookup h key = None \<longleftrightarrow> entry_in False key h = None \<and> entry_in True key h = None"
  by (auto simp: lookup_def split: option.splits)

lemma entry_in_key: "entry_in one key h = Some e \<Longrightarrow> he_key e = key"
  by (auto simp: entry_in_def split: option.splits if_splits)

lemma entry_at_place:
  assumes "tables_ok h" "tab one h ! pos one (he_key e) (capacity h) = Some tmp"
  shows "entry_in one (he_key tmp) h = Some tmp"
proof -
  have "pos one (he_key e) (capacity h) = pos one (he_key tmp) (capacity h)"
    using assms pos_in [OF assms(1), of one "he_key e"] by (cases one) (auto simp: tables_ok_def table_ok_def)
  then show ?thesis using assms(2) by (simp add: entry_in_def)
qed

text \<open>
  The contents while an entry is on its way: \<open>e\<close> belongs to the map but is in neither table. The rounds of the loop
  keep the contents, whatever table they start with.
\<close>

definition carried :: "hash_entry \<Rightarrow> hash_t \<Rightarrow> (u64 \<Rightarrow> ptr option) \<Rightarrow> bool" where
  "carried e h f \<longleftrightarrow> hash_inv h \<and> lookup h (he_key e) = None \<and> f = (lookup h)(he_key e := Some (he_value e))"

lemma put_inv:
  assumes "hash_inv h" "lookup h (he_key e) = None"
  shows "hash_inv (put one e h)"
    "lookup (put one e h) = (case tab one h ! pos one (he_key e) (capacity h) of
       None \<Rightarrow> (lookup h)(he_key e := Some (he_value e))
     | Some tmp \<Rightarrow> ((lookup h)(he_key tmp := None))(he_key e := Some (he_value e)))"
proof -
  have ok: "tables_ok h" using assms(1) by (simp add: hash_inv_def)
  have n: "entry_in b (he_key e) h = None" for b using assms(2) by (cases b) (simp_all add: lookup_None)
  have u: "entry_in False key h = None \<or> entry_in True key h = None" for key using assms(1) by (simp add: hash_inv_def)
  note ei = entry_in_put [OF ok refl]
  show "hash_inv (put one e h)" unfolding hash_inv_def using put_ok [OF ok] u n by (auto simp: ei)
  show "lookup (put one e h) = (case tab one h ! pos one (he_key e) (capacity h) of
       None \<Rightarrow> (lookup h)(he_key e := Some (he_value e))
     | Some tmp \<Rightarrow> ((lookup h)(he_key tmp := None))(he_key e := Some (he_value e)))"
  proof (rule ext)
    fix key
    show "lookup (put one e h) key = (case tab one h ! pos one (he_key e) (capacity h) of
       None \<Rightarrow> (lookup h)(he_key e := Some (he_value e))
     | Some tmp \<Rightarrow> ((lookup h)(he_key tmp := None))(he_key e := Some (he_value e))) key"
    proof (cases "tab one h ! pos one (he_key e) (capacity h)")
      case None
      then show ?thesis using n by (cases one) (auto simp: lookup_def ei split: option.split)
    next
      case (Some tmp)
      have "entry_in (\<not> one) (he_key tmp) h = None" using entry_at_place [OF ok Some] u [of "he_key tmp"] by (cases one) auto
      then show ?thesis using n Some by (cases one) (auto simp: lookup_def ei split: option.split)
    qed
  qed
qed

lemma add_loop_carried:
  assumes "carried e h f"
  shows "case add_loop k one e h of
      Added h' \<Rightarrow> hash_inv h' \<and> lookup h' = f \<and> capacity h' = capacity h
    | Present h' \<Rightarrow> False
    | LeftOver e' h' \<Rightarrow> carried e' h' f \<and> capacity h' = capacity h"
  using assms
proof (induction k arbitrary: one e h)
  case (Suc k)
  let ?p = "pos one (he_key e) (capacity h)"
  have c: "hash_inv h" "lookup h (he_key e) = None" "f = (lookup h)(he_key e := Some (he_value e))" and ok: "tables_ok h"
    using Suc.prems by (simp_all add: carried_def hash_inv_def)
  have cap: "capacity (put one e h) = capacity h" by (simp add: put_def)
  show ?case
  proof (cases "tab one h ! ?p")
    case None
    then have "add_loop (Suc k) one e h = Added (put one e h)" by (simp add: put_def Let_def)
    then show ?thesis using put_inv [OF c(1,2), of one] None c(3) cap by simp
  next
    case (Some tmp)
    note at = entry_at_place [OF ok Some]
    have ne: "he_key e \<noteq> he_key tmp" using at c(2) by (cases one) (auto simp: lookup_None)
    have step: "add_loop (Suc k) one e h = add_loop k (\<not> one) tmp (put one e h)" using Some ne by (simp add: put_def Let_def)
    have "entry_in (\<not> one) (he_key tmp) h = None" using at c(1) unfolding hash_inv_def by (cases one) (metis (full_types) option.distinct(1))+
    then have "lookup h (he_key tmp) = Some (he_value tmp)" using at by (cases one) (simp_all add: lookup_def)
    then have "carried tmp (put one e h) f"
      using put_inv [OF c(1,2), of one] Some ne c(3) by (auto simp: carried_def fun_eq_iff)
    from Suc.IH [OF this, of "\<not> one"] show ?thesis unfolding step cap .
  qed
qed simp

section \<open>Growing\<close>

definition moved :: "bool \<Rightarrow> nat \<Rightarrow> hash_entry option list \<Rightarrow> hash_entry option list \<Rightarrow> hash_entry option list" where
  "moved one cap es tmp = fold (\<lambda>x t. t[pos one (he_key (the x)) cap := x]) es tmp"

lemma rehash_eq: "rehash one cap es tmp = (if None \<in> set es then Inl NullDeref else Inr (moved one cap es tmp))"
  by (induction one cap es tmp rule: rehash.induct) (auto simp: moved_def)

lemma resize_eq:
  "resize h = (if None \<in> set (tab False h) \<union> set (tab True h) then Inl NullDeref
     else (let cap = 2 * capacity h in
       Inr (h\<lparr>table0 := moved False cap (table0 h) (replicate cap None), table1 := moved True cap (table1 h) (replicate cap None),
              capacity := cap\<rparr>)))"
  by (auto simp: resize_def rehash_eq Let_def tab_def)

text \<open>A place in the double table determines the place in the old one, so no two entries meet.\<close>

lemma pos_double:
  assumes "0 < cap" "cap < 2 ^ 30" "pos one k1 (2 * cap) = pos one k2 (2 * cap)"
  shows "pos one k1 cap = pos one k2 cap"
proof -
  let ?x = "\<lambda>k. unat (if one then hash_fun1 k else hash_fun0 k)"
  have u: "unat (of_nat cap :: u64) = cap" "unat (of_nat (2 * cap) :: u64) = 2 * cap" using assms(1,2) by (subst unat_of_nat, simp)+
  have p: "pos one k c = ?x k mod unat (of_nat c :: u64)" for k c unfolding pos_def unat_mod ..
  have "?x k1 mod (2 * cap) mod cap = ?x k2 mod (2 * cap) mod cap" using assms(3) unfolding p u by simp
  then show ?thesis unfolding p u by (simp add: mod_mod_cancel)
qed

lemma moved_entries:
  assumes "distinct (map (\<lambda>x. pos one (he_key (the x)) cap) es)" "None \<notin> set es"
    and "\<forall>x\<in>set es. pos one (he_key (the x)) cap < length tmp"
  shows "length (moved one cap es tmp) = length tmp \<and>
     (\<forall>x\<in>set es. moved one cap es tmp ! pos one (he_key (the x)) cap = x) \<and>
     (\<forall>p. p \<notin> (\<lambda>x. pos one (he_key (the x)) cap) ` set es \<longrightarrow> moved one cap es tmp ! p = tmp ! p)"
  using assms
proof (induction es arbitrary: tmp)
  case (Cons x es)
  let ?p = "\<lambda>x. pos one (he_key (the x)) cap"
  have m: "moved one cap (x # es) tmp = moved one cap es (tmp[?p x := x])" by (simp add: moved_def)
  from Cons.IH [of "tmp[?p x := x]"] Cons.prems show ?case unfolding m by auto
qed (simp add: moved_def)

lemma moved_table:
  assumes h: "tables_ok h" "capacity h < 2 ^ 30" "None \<notin> set (tab b h)"
    and t: "t = moved b (2 * capacity h) (tab b h) (replicate (2 * capacity h) None)"
  shows "length t = 2 * capacity h" "\<And>p e. p < 2 * capacity h \<Longrightarrow> t ! p = Some e \<Longrightarrow> p = pos b (he_key e) (2 * capacity h)"
    "(case t ! pos b key (2 * capacity h) of None \<Rightarrow> None | Some e \<Rightarrow> if he_key e = key then Some e else None) = entry_in b key h"
    "\<exists>p<2 * capacity h. t ! p = None"
proof -
  let ?es = "tab b h"
  let ?c = "capacity h"
  let ?p = "\<lambda>x. pos b (he_key (the x)) (2 * ?c)"
  have c: "0 < ?c" "length ?es = ?c" using h(1) by (cases b; simp add: tables_ok_def table_ok_def)+
  have place: "pos b (he_key (the (?es ! j))) ?c = j" if "j < ?c" for j
  proof -
    have "?es ! j \<noteq> None" using h(3) that c(2) by (metis nth_mem)
    then show ?thesis using h(1) that by (cases b) (auto simp: tables_ok_def table_ok_def)
  qed
  have less: "pos b k (2 * ?c) < 2 * ?c" for k using pos_less [of "2 * ?c" b k] c(1) h(2) by simp
  have dis: "distinct (map ?p ?es)"
    unfolding distinct_conv_nth using pos_double [OF c(1) h(2)] place c(2) by (metis length_map nth_map)
  from moved_entries [OF dis h(3), of "replicate (2 * ?c) None"] less t
  have m: "length t = 2 * ?c" "\<And>x. x \<in> set ?es \<Longrightarrow> t ! ?p x = x" "\<And>p. p \<notin> ?p ` set ?es \<Longrightarrow> p < 2 * ?c \<Longrightarrow> t ! p = None"
    by auto
  show "length t = 2 * ?c" by (rule m(1))
  show own: "p = pos b (he_key e) (2 * ?c)" if "p < 2 * ?c" "t ! p = Some e" for p e
  proof -
    have "p \<in> ?p ` set ?es" using m(3) [of p] that by (metis option.distinct(1))
    then obtain x where x: "x \<in> set ?es" "p = ?p x" by blast
    then have "x = Some e" using m(2) [OF x(1)] that(2) by simp
    then show ?thesis using x(2) by simp
  qed
  have inj: "Some a \<in> set ?es" if "t ! p = Some a" "p < 2 * ?c" for p a
  proof -
    have "p \<in> ?p ` set ?es" using m(3) [of p] that by (metis option.distinct(1))
    then obtain x where x: "x \<in> set ?es" "p = ?p x" by blast
    then show ?thesis using m(2) [OF x(1)] that(1) by simp
  qed
  show "(case t ! pos b key (2 * ?c) of None \<Rightarrow> None | Some e \<Rightarrow> if he_key e = key then Some e else None) = entry_in b key h"
  proof (cases "entry_in b key h")
    case None
    have "he_key e \<noteq> key" if e: "t ! pos b key (2 * ?c) = Some e" for e
    proof
      assume k: "he_key e = key"
      obtain j where j: "j < ?c" "?es ! j = Some e" using inj [OF e less] c(2) by (metis in_set_conv_nth)
      then have "pos b key ?c = j" using place [OF j(1)] k by simp
      then show False using None j(2) k by (simp add: entry_in_def)
    qed
    then show ?thesis using None by (simp split: option.split)
  next
    case (Some e)
    then have e: "?es ! pos b key ?c = Some e" "he_key e = key" by (auto simp: entry_in_def split: option.splits if_splits)
    then have "Some e \<in> set ?es" using nth_mem [OF pos_in [OF h(1), of b key]] by simp
    then show ?thesis using m(2) [of "Some e"] Some e(2) by simp
  qed
  show "\<exists>p<2 * ?c. t ! p = None"
  proof -
    have "card (?p ` set ?es) \<le> ?c" using card_image_le [of "set ?es" ?p] card_length [of ?es] c(2) by simp
    then have "\<not> {..<2 * ?c} \<subseteq> ?p ` set ?es" using c(1) card_mono [of "?p ` set ?es" "{..<2 * ?c}"] by auto
    then show ?thesis using m(3) by blast
  qed
qed

lemma resize_inv:
  assumes "hash_inv h" "capacity h < 2 ^ 30" "resize h = Inr h'"
  shows "hash_inv h'" "lookup h' = lookup h" "\<exists>p<capacity h'. tab False h' ! p = None" "capacity h' = 2 * capacity h"
proof -
  have ok: "tables_ok h" using assms(1) by (simp add: hash_inv_def)
  have full: "None \<notin> set (tab False h)" "None \<notin> set (tab True h)" using assms(3) by (auto simp: resize_eq split: if_splits)
  have h': "tab b h' = moved b (2 * capacity h) (tab b h) (replicate (2 * capacity h) None)" "capacity h' = 2 * capacity h" for b
    using assms(3) full by (auto simp: resize_eq tab_def Let_def)
  note f = moved_table [OF ok assms(2) full(1) h'(1)]
  note g = moved_table [OF ok assms(2) full(2) h'(1)]
  have e: "entry_in b key h' = entry_in b key h" for b key
    using f(3) [of key] g(3) [of key] by (cases b) (simp_all add: entry_in_def h'(2))
  have "tables_ok h'" using ok assms(2) f(1,2) g(1,2) by (auto simp: tables_ok_def table_ok_def h'(2))
  then show "hash_inv h'" "lookup h' = lookup h" using assms(1) by (simp_all add: hash_inv_def e) (simp only: fun_eq_iff lookup_def e simp_thms)
  show "\<exists>p<capacity h'. tab False h' ! p = None" using f(4) h'(2) by simp
  show "capacity h' = 2 * capacity h" by (rule h'(2))
qed

text \<open>The loop never empties a place.\<close>

lemma add_loop_gaps:
  "add_loop k one e h = LeftOver e' h' \<Longrightarrow> tables_ok h \<Longrightarrow> tab b h ! p = None \<Longrightarrow> tab b h' ! p = None"
proof (induction k arbitrary: one e h)
  case (Suc k)
  let ?q = "pos one (he_key e) (capacity h)"
  from Suc.prems(1) obtain tmp where t: "tab one h ! ?q = Some tmp" "add_loop k (\<not> one) tmp (put one e h) = LeftOver e' h'"
    by (auto simp: Let_def put_def split: option.splits if_splits)
  have "tab b (put one e h) ! p = None" using Suc.prems(3) t(1) by (cases "b = one"; cases "p = ?q") (auto simp: put_def)
  from Suc.IH [OF t(2) put_ok [OF Suc.prems(2)] this] show ?case .
qed simp

section \<open>The contract of a dictionary\<close>

locale dictionary =
  fixes inv :: "'h \<Rightarrow> bool"
    and look :: "'h \<Rightarrow> 'k \<Rightarrow> 'v option option"
    and ins :: "'k \<Rightarrow> 'v option \<Rightarrow> 'h \<Rightarrow> 'h option"
    and fetch :: "'k \<Rightarrow> bool \<Rightarrow> 'h \<Rightarrow> 'v option \<times> 'h"
  assumes ins_law: "inv h \<Longrightarrow> look h k = None \<Longrightarrow> ins k v h = Some h' \<Longrightarrow> inv h' \<and> look h' = (look h)(k := Some v)"
    and fetch_value: "inv h \<Longrightarrow> fst (fetch k r h) = (case look h k of None \<Rightarrow> None | Some v \<Rightarrow> v)"
    and fetch_keep: "inv h \<Longrightarrow> snd (fetch k False h) = h"
    and fetch_remove: "inv h \<Longrightarrow> inv (snd (fetch k True h)) \<and> look (snd (fetch k True h)) = (look h)(k := None)"
begin

lemma insert_then_remove:
  assumes "inv h" "look h k = None" "ins k v h = Some h'"
  shows "fetch k False h' = (v, h') \<and> fst (fetch k True h') = v \<and> look (snd (fetch k True h')) = look h \<and> inv (snd (fetch k True h'))"
proof -
  have i: "inv h'" "look h' = (look h)(k := Some v)" using ins_law [OF assms] by simp_all
  then have "look (snd (fetch k True h')) = look h" using fetch_remove [of h' k] assms(2) by (auto simp: fun_eq_iff)
  then show ?thesis using i fetch_value [of h' k] fetch_keep [of h' k] fetch_remove [of h' k] by (metis fun_upd_same option.simps(5) prod.collapse)
qed

lemma other_keys:
  assumes "inv h" "look h k = None" "ins k v h = Some h'" "k' \<noteq> k"
  shows "fst (fetch k' False h') = fst (fetch k' False h)"
  using ins_law [OF assms(1-3)] fetch_value assms(1,4) by simp

end

text \<open>A successful insertion.\<close>

definition inserted :: "u64 \<Rightarrow> ptr \<Rightarrow> hash_t \<Rightarrow> hash_t option" where
  "inserted k v h = (case hash_insert k v h of Some (Inr (r, h')) \<Rightarrow> if r = 0 \<and> capacity h < 2 ^ 30 then Some h' else None | _ \<Rightarrow> None)"

lemma hash_add_returns:
  assumes "carried e h f" "capacity h < 2 ^ 30"
  shows "\<exists>r. hash_add e h = Some r \<and> (case r of Inl err \<Rightarrow> err = NullDeref | Inr (i, h') \<Rightarrow> i = 0 \<and> hash_inv h' \<and> lookup h' = f)"
proof -
  have second: "\<exists>r. hash_add e h = Some r \<and> (case r of Inl err \<Rightarrow> err = NullDeref | Inr (i, h') \<Rightarrow> i = 0 \<and> hash_inv h' \<and> lookup h' = f)"
    if c: "carried e h f" and gap: "p < capacity h" "tab False h ! p = None" for e h p
  proof (cases "add_loop LIMIT False e h")
    case (LeftOver e' h')
    then have h': "carried e' h' f" "capacity h' = capacity h" using add_loop_carried [OF c, of LIMIT False] by simp_all
    have ok: "tables_ok h" "tables_ok h'" using c h'(1) by (simp_all add: carried_def hash_inv_def)
    have "tab False h' ! p = None" using add_loop_gaps [OF LeftOver ok(1) gap(2)] .
    moreover have "p < length (tab False h')" using ok(2) gap(1) h'(2) by (simp add: tables_ok_def table_ok_def)
    ultimately have "None \<in> set (tab False h')" by (metis nth_mem)
    then have "resize h' = Inl NullDeref" by (simp add: resize_eq)
    then show ?thesis using LeftOver by (simp add: hash_add.simps [of e h])
  qed (use add_loop_carried [OF c, of LIMIT False] in \<open>simp_all add: hash_add.simps [of e h]\<close>)
  show ?thesis
  proof (cases "add_loop LIMIT False e h")
    case (LeftOver e' h')
    then have h': "carried e' h' f" "capacity h' = capacity h" using add_loop_carried [OF assms(1), of LIMIT False] by simp_all
    show ?thesis
    proof (cases "resize h'")
      case (Inl err)
      then have "err = NullDeref" by (auto simp: resize_eq Let_def split: if_splits)
      then show ?thesis using LeftOver Inl by (simp add: hash_add.simps [of e h])
    next
      case (Inr h2)
      have i: "hash_inv h'" "capacity h' < 2 ^ 30" using h' assms(2) by (simp_all add: carried_def)
      note r = resize_inv [OF i Inr]
      have "carried e' h2 f" using h'(1) r(1,2) by (simp add: carried_def)
      moreover obtain p where "p < capacity h2" "tab False h2 ! p = None" using r(3) by blast
      ultimately show ?thesis using second [of e' h2 p] LeftOver Inr by (simp add: hash_add.simps [of e h])
    qed
  qed (use add_loop_carried [OF assms(1), of LIMIT False] in \<open>simp_all add: hash_add.simps [of e h]\<close>)
qed

lemma hash_probe_eq:
  "hash_probe one key remove h = (case entry_in one key h of None \<Rightarrow> None
     | Some e \<Rightarrow> Some (he_value e, if remove then set_tab one ((tab one h)[pos one key (capacity h) := None]) h else h))"
  by (auto simp: hash_probe_def entry_in_def Let_def split: option.splits)

lemma remove_ok:
  assumes "hash_inv h" "entry_in one key h = Some e"
    and h': "h' = set_tab one ((tab one h)[pos one key (capacity h) := None]) h"
  shows "hash_inv h'" "lookup h' = (lookup h)(key := None)"
proof -
  have ok: "tables_ok h" "\<And>k. entry_in False k h = None \<or> entry_in True k h = None" using assms(1) by (simp_all add: hash_inv_def)
  note l = pos_in [OF ok(1), of one key]
  have at: "tab one h ! pos one key (capacity h) = Some e" "he_key e = key"
    using assms(2) by (auto simp: entry_in_def split: option.splits if_splits)
  have ei: "entry_in b k h' = (if b = one \<and> k = key then None else entry_in b k h)" for b k
  proof (cases "b = one \<and> pos one k (capacity h) = pos one key (capacity h)")
    case True
    then have "tab b h' ! pos b k (capacity h') = None" using l by (simp add: h')
    then show ?thesis using True at by (auto simp: entry_in_def)
  next
    case False
    then have "tab b h' ! pos b k (capacity h') = tab b h ! pos b k (capacity h)" "capacity h' = capacity h"
      by (auto simp: h')
    then show ?thesis using False by (auto simp: entry_in_def)
  qed
  have "table_ok b h'" if "table_ok b h" for b using that l by (auto simp: table_ok_def h' nth_list_update)
  then have "tables_ok h'" using ok(1) by (simp add: tables_ok_def h')
  then show "hash_inv h'" using ok(2) by (auto simp: hash_inv_def ei)
  have other: "entry_in (\<not> one) key h = None" using ok(2) [of key] assms(2) by (cases one) auto
  show "lookup h' = (lookup h)(key := None)"
  proof (rule ext)
    fix k
    show "lookup h' k = ((lookup h)(key := None)) k"
      using other by (cases "k = key"; cases one) (simp_all add: lookup_def ei split: option.split)
  qed
qed

lemma hash_get_eq:
  assumes "hash_inv h"
  shows "fst (hash_get key remove h) = (case lookup h key of None \<Rightarrow> None | Some v \<Rightarrow> v)" "snd (hash_get key False h) = h"
    "hash_inv (snd (hash_get key True h)) \<and> lookup (snd (hash_get key True h)) = (lookup h)(key := None)"
proof -
  show "fst (hash_get key remove h) = (case lookup h key of None \<Rightarrow> None | Some v \<Rightarrow> v)" "snd (hash_get key False h) = h"
    by (auto simp: hash_get_def hash_probe_eq lookup_def split: option.splits)
  consider (zero) e where "entry_in False key h = Some e" | (one) e where "entry_in False key h = None" "entry_in True key h = Some e"
    | (none) "entry_in False key h = None" "entry_in True key h = None" by fastforce
  then show "hash_inv (snd (hash_get key True h)) \<and> lookup (snd (hash_get key True h)) = (lookup h)(key := None)"
  proof cases
    case zero
    then show ?thesis using remove_ok [OF assms zero refl] by (simp add: hash_get_def hash_probe_eq)
  next
    case one
    then show ?thesis using remove_ok [OF assms one(2) refl] by (simp add: hash_get_def hash_probe_eq)
  next
    case none
    then have "lookup h key = None" by (simp add: lookup_None)
    then show ?thesis using none assms by (simp add: hash_get_def hash_probe_eq fun_upd_idem)
  qed
qed

interpretation table: dictionary hash_inv lookup inserted hash_get
proof
  fix h h' :: hash_t and k :: u64 and v :: ptr and r
  show "hash_inv h' \<and> lookup h' = (lookup h)(k := Some v)" if "hash_inv h" "lookup h k = None" "inserted k v h = Some h'"
  proof -
    have "carried \<lparr>he_key = k, he_value = v\<rparr> h ((lookup h)(k := Some v))" using that(1,2) by (simp add: carried_def)
    from hash_add_returns [OF this] show ?thesis using that(3)
      by (auto simp: inserted_def hash_insert_def split: option.splits sum.splits if_splits)
  qed
qed (use hash_get_eq in auto)

section \<open>Properties\<close>

lemma add_loop_free:
  "tab False h ! pos False (he_key e) (capacity h) = None \<Longrightarrow> add_loop LIMIT False e h = Added (put False e h)"
proof -
  have "LIMIT = Suc 5" by (simp add: LIMIT_def)
  then show "tab False h ! pos False (he_key e) (capacity h) = None \<Longrightarrow> ?thesis"
    unfolding \<open>LIMIT = Suc 5\<close> add_loop.simps by (simp add: Let_def put_def)
qed


definition empty_hash :: hash_t where
  "empty_hash = hash_init \<lparr>capacity = 0, table0 = [], table1 = [], hash_lock = False\<rparr>"

lemma empty_hash_ok: "hash_inv empty_hash" "lookup empty_hash key = None" "capacity empty_hash = 128"
proof -
  have c: "capacity empty_hash = 128" "tab b empty_hash = replicate 128 None" for b
    by (simp_all add: empty_hash_def hash_init_def CAPACITY_def tab_def)
  have "tables_ok empty_hash" by (simp add: tables_ok_def table_ok_def c)
  moreover from this have "entry_in b k empty_hash = None" for b k using pos_in [of empty_hash b k] by (simp add: entry_in_def c)
  ultimately show "hash_inv empty_hash" "lookup empty_hash key = None" by (simp_all add: hash_inv_def lookup_None)
  show "capacity empty_hash = 128" by (rule c(1))
qed


text \<open>
  Claim C24. Insert and get agree: a key inserted into a well-formed table is found with its value, removing it gives the value back and
  restores the table's contents, and no other key is affected.
\<close>

theorem hash_roundtrip:
  assumes "hash_inv h" "lookup h key = None" "capacity h < 2 ^ 30" "hash_insert key v h = Some (Inr (0, h'))"
  shows "hash_get key False h' = (v, h') \<and> fst (hash_get key True h') = v \<and> lookup (snd (hash_get key True h')) = lookup h \<and>
     hash_inv (snd (hash_get key True h')) \<and> (\<forall>k. k \<noteq> key \<longrightarrow> fst (hash_get k False h') = fst (hash_get k False h))"
proof -
  have i: "inserted key v h = Some h'" using assms(3,4) by (simp add: inserted_def)
  show ?thesis using table.insert_then_remove [OF assms(1,2) i] table.other_keys [OF assms(1,2) i] by blast
qed

theorem hash_roundtrip_witness:
  "case hash_insert 5 (Some 7) empty_hash of
     Some (Inr (r, h')) \<Rightarrow> hash_get 5 False h' = (Some 7, h') \<and> fst (hash_get 6 False h') = fst (hash_get 6 False empty_hash)
   | _ \<Rightarrow> False"
proof -
  have "add_loop LIMIT False \<lparr>he_key = 5, he_value = Some 7\<rparr> empty_hash = Added (put False \<lparr>he_key = 5, he_value = Some 7\<rparr> empty_hash)"
  proof -
    have c: "capacity empty_hash = 128" "tab False empty_hash = replicate 128 None" by (simp_all add: empty_hash_def hash_init_def CAPACITY_def tab_def)
    have "pos False 5 128 < 128" using pos_less [of 128 False 5] by simp
    then show ?thesis using c by (intro add_loop_free) simp
  qed
  then have i: "hash_insert 5 (Some 7) empty_hash = Some (Inr (0, put False \<lparr>he_key = 5, he_value = Some 7\<rparr> empty_hash))"
    by (simp add: hash_insert_def hash_add.simps)
  from hash_roundtrip [OF empty_hash_ok(1,2) _ i] show ?thesis by (simp add: i empty_hash_ok)
qed

text \<open>
  Three keys are enough to crash a fresh table: the keys 0, 128 and 256 have the same place in either table, so the third
  insertion runs out of rounds and resizes a table with empty slots, which reads through a \<open>NULL\<close> entry.
\<close>

theorem hash_three_keys_crash:
  "case hash_insert 0 (Some 1) empty_hash of
     Some (Inr (r0, h0)) \<Rightarrow> r0 = 0 \<and>
       (case hash_insert 128 (Some 2) h0 of
          Some (Inr (r1, h1)) \<Rightarrow> r1 = 0 \<and> hash_insert 256 (Some 3) h1 = Some (Inl NullDeref)
        | _ \<Rightarrow> False)
   | _ \<Rightarrow> False"
  by code_simp

text \<open>
  A key can be stored twice: an insertion looks for the key only where it passes. When the key is in the second table and its place
  in the first one is free, the insertion answers \<open>0\<close>, and after removing the key its old value is found again.
\<close>

theorem hash_key_stored_twice:
  assumes "hash_inv h" "entry_in True key h = Some e" "tab False h ! pos False key (capacity h) = None"
  shows "\<exists>h'. hash_insert key v h = Some (Inr (0, h')) \<and> fst (hash_get key True h') = v \<and>
     fst (hash_get key False (snd (hash_get key True h'))) = he_value e"
proof -
  let ?e = "\<lparr>he_key = key, he_value = v\<rparr>"
  let ?h = "put False ?e h"
  have ok: "tables_ok h" using assms(1) by (simp add: hash_inv_def)
  note l = pos_in [OF ok, of False key]
  have ins: "hash_insert key v h = Some (Inr (0, ?h))"
    using assms(3) add_loop_free [of h ?e] by (simp add: hash_insert_def hash_add.simps)
  have ei: "entry_in False key ?h = Some ?e" "entry_in True key ?h = Some e"
    using entry_in_put [OF ok refl, of False key False ?e] entry_in_put [OF ok refl, of True key False ?e] assms(2) by simp_all
  let ?h2 = "set_tab False ((tab False ?h)[pos False key (capacity ?h) := None]) ?h"
  have "tab False ?h2 ! pos False key (capacity ?h2) = None" using l by (simp add: put_def)
  then have e2: "entry_in False key ?h2 = None" "entry_in True key ?h2 = Some e" using ei(2) by (simp_all add: entry_in_def)
  have "hash_get key True ?h = (v, ?h2)" using ei by (simp add: hash_get_def hash_probe_eq)
  then show ?thesis using ins e2 by (simp add: hash_get_def hash_probe_eq)
qed

text \<open>Key 0 is pushed to the second table by key 128, which is then removed; inserting key 0 again stores it twice.\<close>

definition pushed_hash :: hash_t where
  "pushed_hash = put True \<lparr>he_key = 0, he_value = Some 1\<rparr> empty_hash"

theorem hash_key_stored_twice_witness:
  "\<exists>h'. hash_insert 0 (Some 9) pushed_hash = Some (Inr (0, h')) \<and> fst (hash_get 0 True h') = Some 9 \<and>
     fst (hash_get 0 False (snd (hash_get 0 True h'))) = Some 1"
proof -
  have i: "hash_inv pushed_hash" using put_inv(1) [OF empty_hash_ok(1,2), where e = "\<lparr>he_key = 0, he_value = Some 1\<rparr>" and one = True] by (simp add: pushed_hash_def empty_hash_ok)
  have ok: "tables_ok empty_hash" using empty_hash_ok(1) by (simp add: hash_inv_def)
  have e: "entry_in True 0 pushed_hash = Some \<lparr>he_key = 0, he_value = Some 1\<rparr>"
    using entry_in_put [OF ok refl, of True 0 True "\<lparr>he_key = 0, he_value = Some 1\<rparr>"] by (simp add: pushed_hash_def)
  have "tab False pushed_hash ! pos False 0 (capacity pushed_hash) = None"
    using pos_in [OF ok, of False 0] by (simp add: pushed_hash_def put_def) (simp add: empty_hash_def hash_init_def tab_def)
  from hash_key_stored_twice [OF i e this, of "Some 9"] show ?thesis by simp
qed

end
