(* ===== verification/Locks.thy ===== *)
theory Locks
  imports Prelude
begin

text \<open>
  Locks under concurrency. The futex lock (\<^verbatim>\<open>src/futex_lock.c\<close>, \<^verbatim>\<open>src/futex_impl.c\<close>) as a step relation of any number of threads, one step per
  access to the shared word, and the lock chain of a channel set (\<^verbatim>\<open>include/inter/lock_chain.h\<close>) as threads that take
  the locks of their chains one by one.
\<close>

section \<open>The futex lock\<close>

definition MUTEX_UNLOCKED :: u32 where "MUTEX_UNLOCKED = 0"
definition MUTEX_LOCKED :: u32 where "MUTEX_LOCKED = 1"
definition MUTEX_SLEEPING :: u32 where "MUTEX_SLEEPING = 2"
definition ACTIVE_SPIN :: nat where "ACTIVE_SPIN = 4"
definition PASSIVE_SPIN :: nat where "PASSIVE_SPIN = 1"

text \<open>
  Where a thread is: outside, about to exchange the word, spinning (the number of rounds left, the value \<open>wait\<close> it will
  write), about to compare and swap, about to announce that it sleeps, in the system call, asleep, holding the
  lock, and about to wake a sleeper.
\<close>

datatype pc =
    Outside
  | Entering
  | Spinning nat u32
  | Swapping nat u32
  | Announcing
  | Waiting
  | Asleep
  | Holding
  | Waking
  | Broken

record futex =
  key :: u32
  pcs :: "nat \<Rightarrow> pc"

definition goto :: "nat \<Rightarrow> pc \<Rightarrow> futex \<Rightarrow> futex" where
  "goto t p f = f\<lparr>pcs := (pcs f)(t := p)\<rparr>"

definition futex_init :: futex where
  "futex_init = \<lparr>key = MUTEX_UNLOCKED, pcs = (\<lambda>t. Outside)\<rparr>"

text \<open>
  \<open>_coroc_futex_lock\<close>, one access at a time. The two loops of spinning differ only in how they pause, so they are counted
  together: \<open>ACTIVE_SPIN + PASSIVE_SPIN\<close> rounds.
\<close>

definition spin_rounds :: nat where
  "spin_rounds = ACTIVE_SPIN + PASSIVE_SPIN"

definition lock_exchange :: "nat \<Rightarrow> futex \<Rightarrow> futex" where
  "lock_exchange t f = (let v = key f; f = f\<lparr>key := MUTEX_LOCKED\<rparr> in
     if v = MUTEX_UNLOCKED then goto t Holding f else goto t (Spinning spin_rounds v) f)"

definition lock_spin :: "nat \<Rightarrow> nat \<Rightarrow> u32 \<Rightarrow> futex \<Rightarrow> futex" where
  "lock_spin t i wait f = (case i of
       0 \<Rightarrow> goto t Announcing f
     | Suc i' \<Rightarrow> if key f = MUTEX_UNLOCKED then goto t (Swapping i wait) f else goto t (Spinning i' wait) f)"

definition lock_swap :: "nat \<Rightarrow> nat \<Rightarrow> u32 \<Rightarrow> futex \<Rightarrow> futex" where
  "lock_swap t i wait f =
     (if key f = MUTEX_UNLOCKED then goto t Holding (f\<lparr>key := wait\<rparr>) else goto t (Spinning i wait) f)"

definition lock_announce :: "nat \<Rightarrow> futex \<Rightarrow> futex" where
  "lock_announce t f = (let v = key f; f = f\<lparr>key := MUTEX_SLEEPING\<rparr> in
     if v = MUTEX_UNLOCKED then goto t Holding f else goto t Waiting f)"

text \<open>The kernel puts the thread to sleep only if the word still says so.\<close>

definition futex_sleep :: "nat \<Rightarrow> futex \<Rightarrow> futex" where
  "futex_sleep t f = (if key f = MUTEX_SLEEPING then goto t Asleep f else goto t (Spinning spin_rounds MUTEX_SLEEPING) f)"

definition futex_trylock :: "nat \<Rightarrow> futex \<Rightarrow> futex" where
  "futex_trylock t f = (if key f = MUTEX_UNLOCKED then goto t Holding (f\<lparr>key := MUTEX_LOCKED\<rparr>) else f)"

text \<open>\<open>_coroc_futex_unlock\<close>: a failed assertion leaves the thread \<open>Broken\<close>.\<close>

definition unlock_exchange :: "nat \<Rightarrow> futex \<Rightarrow> futex" where
  "unlock_exchange t f = (let v = key f; f = f\<lparr>key := MUTEX_UNLOCKED\<rparr> in
     if v = MUTEX_UNLOCKED then goto t Broken f
     else if v = MUTEX_SLEEPING then goto t Waking f else goto t Outside f)"

definition wake_one :: "nat \<Rightarrow> nat option \<Rightarrow> futex \<Rightarrow> futex" where
  "wake_one t u f = goto t Outside (case u of None \<Rightarrow> f | Some u \<Rightarrow> goto u (Spinning spin_rounds MUTEX_SLEEPING) f)"

definition asleep :: "futex \<Rightarrow> nat \<Rightarrow> bool" where
  "asleep f t \<longleftrightarrow> pcs f t = Asleep"

inductive futex_step :: "futex \<Rightarrow> futex \<Rightarrow> bool" where
  call: "pcs f t = Outside \<Longrightarrow> futex_step f (goto t Entering f)"
| enter: "pcs f t = Entering \<Longrightarrow> futex_step f (lock_exchange t f)"
| spin: "pcs f t = Spinning i w \<Longrightarrow> futex_step f (lock_spin t i w f)"
| swap: "pcs f t = Swapping i w \<Longrightarrow> futex_step f (lock_swap t i w f)"
| announce: "pcs f t = Announcing \<Longrightarrow> futex_step f (lock_announce t f)"
| wait: "pcs f t = Waiting \<Longrightarrow> futex_step f (futex_sleep t f)"
| spurious: "pcs f t = Asleep \<Longrightarrow> futex_step f (goto t (Spinning spin_rounds MUTEX_SLEEPING) f)"
| try_lock: "pcs f t = Outside \<Longrightarrow> futex_step f (futex_trylock t f)"
| release: "pcs f t = Holding \<Longrightarrow> futex_step f (unlock_exchange t f)"
| wake: "pcs f t = Waking \<Longrightarrow> asleep f u \<Longrightarrow> futex_step f (wake_one t (Some u) f)"
| wake_none: "pcs f t = Waking \<Longrightarrow> \<forall>u. \<not> asleep f u \<Longrightarrow> futex_step f (wake_one t None f)"

inductive_cases futex_stepE: "futex_step f f'"

inductive reachable :: "futex \<Rightarrow> bool" where
  start: "reachable futex_init"
| step: "reachable f \<Longrightarrow> futex_step f f' \<Longrightarrow> reachable f'"

text \<open>A thread that carries the news that somebody may be asleep: it will write it back or wake a sleeper.\<close>

fun carries :: "pc \<Rightarrow> bool" where
  "carries (Spinning i w) \<longleftrightarrow> w = MUTEX_SLEEPING"
| "carries (Swapping i w) \<longleftrightarrow> w = MUTEX_SLEEPING"
| "carries Announcing \<longleftrightarrow> True"
| "carries Waking \<longleftrightarrow> True"
| "carries p \<longleftrightarrow> False"

fun wait_ok :: "pc \<Rightarrow> bool" where
  "wait_ok (Spinning i w) \<longleftrightarrow> w \<noteq> MUTEX_UNLOCKED"
| "wait_ok (Swapping i w) \<longleftrightarrow> w \<noteq> MUTEX_UNLOCKED"
| "wait_ok Broken \<longleftrightarrow> False"
| "wait_ok p \<longleftrightarrow> True"

definition futex_inv :: "futex \<Rightarrow> bool" where
  "futex_inv f \<longleftrightarrow> (\<forall>t. wait_ok (pcs f t)) \<and> (\<forall>t u. pcs f t = Holding \<and> pcs f u = Holding \<longrightarrow> t = u) \<and>
     (key f = MUTEX_UNLOCKED \<longleftrightarrow> (\<forall>t. pcs f t \<noteq> Holding)) \<and>
     ((\<exists>t. pcs f t = Asleep) \<longrightarrow> key f = MUTEX_SLEEPING \<or> (\<exists>t. carries (pcs f t)))"

lemma mutex_distinct [simp]: "MUTEX_UNLOCKED \<noteq> MUTEX_LOCKED" "MUTEX_LOCKED \<noteq> MUTEX_UNLOCKED" "MUTEX_UNLOCKED \<noteq> MUTEX_SLEEPING"
  "MUTEX_SLEEPING \<noteq> MUTEX_UNLOCKED" "MUTEX_LOCKED \<noteq> MUTEX_SLEEPING" "MUTEX_SLEEPING \<noteq> MUTEX_LOCKED"
  by (simp_all add: MUTEX_UNLOCKED_def MUTEX_LOCKED_def MUTEX_SLEEPING_def)

lemma goto_sel [simp]: "key (goto t p f) = key f" "pcs (goto t p f) u = (if u = t then p else pcs f u)"
  by (simp_all add: goto_def)

lemma futex_invI:
  assumes "\<And>t. wait_ok (pcs f t)" "\<And>t u. pcs f t = Holding \<Longrightarrow> pcs f u = Holding \<Longrightarrow> t = u"
    and "key f = MUTEX_UNLOCKED \<longleftrightarrow> (\<forall>t. pcs f t \<noteq> Holding)"
    and "\<And>t. pcs f t = Asleep \<Longrightarrow> key f = MUTEX_SLEEPING \<or> (\<exists>t. carries (pcs f t))"
  shows "futex_inv f"
  using assms unfolding futex_inv_def by blast

lemma pcs_key [simp]: "pcs (f\<lparr>key := k\<rparr>) = pcs f" "key (f\<lparr>key := k\<rparr>) = k"
  by simp_all

text \<open>A step of a thread that neither takes nor releases the lock.\<close>

lemma inv_move:
  assumes "futex_inv f" "pcs f t \<noteq> Holding" "p \<noteq> Holding" "wait_ok p" "k \<noteq> MUTEX_UNLOCKED \<longleftrightarrow> key f \<noteq> MUTEX_UNLOCKED"
    and "carries (pcs f t) \<Longrightarrow> carries p \<or> k = MUTEX_SLEEPING" "p = Asleep \<Longrightarrow> k = MUTEX_SLEEPING"
    and "key f = MUTEX_SLEEPING \<Longrightarrow> carries p \<or> k = MUTEX_SLEEPING"
  shows "futex_inv (goto t p (f\<lparr>key := k\<rparr>))"
proof -
  have asleep: "k = MUTEX_SLEEPING \<or> (\<exists>u. carries (pcs (goto t p (f\<lparr>key := k\<rparr>)) u))" if "pcs (goto t p (f\<lparr>key := k\<rparr>)) a = Asleep" for a
  proof (cases "a = t")
    case True
    then show ?thesis using that assms(7) by simp
  next
    case False
    then have "pcs f a = Asleep" using that by simp
    then consider "key f = MUTEX_SLEEPING" | u where "carries (pcs f u)" using assms(1) unfolding futex_inv_def by blast
    then show ?thesis
    proof cases
      case 1
      then show ?thesis using assms(8) by (auto intro!: exI [of _ t])
    next
      case 2
      show ?thesis
      proof (cases "u = t")
        case True
        then show ?thesis using assms(6) 2 by (auto intro!: exI [of _ t])
      next
        case False
        then show ?thesis using 2 by (auto intro!: exI [of _ u])
      qed
    qed
  qed
  let ?f = "goto t p (f\<lparr>key := k\<rparr>)"
  have hold: "pcs ?f u = Holding \<longleftrightarrow> pcs f u = Holding" for u using assms(2,3) by simp
  show ?thesis
  proof (rule futex_invI)
    show "wait_ok (pcs ?f u)" for u using assms(1,4) by (simp add: futex_inv_def)
    show "u = w" if "pcs ?f u = Holding" "pcs ?f w = Holding" for u w using that hold assms(1) unfolding futex_inv_def by blast
    show "key ?f = MUTEX_UNLOCKED \<longleftrightarrow> (\<forall>u. pcs ?f u \<noteq> Holding)"
      using assms(1,5) unfolding futex_inv_def hold by auto
    show "key ?f = MUTEX_SLEEPING \<or> (\<exists>u. carries (pcs ?f u))" if "pcs ?f u = Asleep" for u using asleep [OF that] by simp
  qed
qed

lemma inv_take:
  assumes "futex_inv f" "key f = MUTEX_UNLOCKED" "k \<noteq> MUTEX_UNLOCKED" "carries (pcs f t) \<Longrightarrow> k = MUTEX_SLEEPING"
  shows "futex_inv (goto t Holding (f\<lparr>key := k\<rparr>))"
proof -
  have none: "pcs f u \<noteq> Holding" for u using assms(1,2) unfolding futex_inv_def by blast
  have asleep: "k = MUTEX_SLEEPING \<or> (\<exists>u. carries (pcs (goto t Holding (f\<lparr>key := k\<rparr>)) u))"
    if a: "pcs (goto t Holding (f\<lparr>key := k\<rparr>)) a = Asleep" for a
  proof -
    have "pcs f a = Asleep" using a by (auto split: if_splits)
    then obtain u where u: "carries (pcs f u)" using assms(1,2) unfolding futex_inv_def by (metis mutex_distinct(3))
    show ?thesis using u assms(4) by (cases "u = t") (auto intro!: exI [of _ u])
  qed
  show ?thesis
    by (rule futex_invI) (use assms(1,3) none asleep in \<open>auto simp: futex_inv_def split: if_splits\<close>)
qed

lemma inv_release:
  assumes "futex_inv f" "pcs f t = Holding" "p = Waking \<or> p = Outside" "key f = MUTEX_SLEEPING \<Longrightarrow> p = Waking"
  shows "futex_inv (goto t p (f\<lparr>key := MUTEX_UNLOCKED\<rparr>))"
proof -
  have only: "pcs f u = Holding \<longleftrightarrow> u = t" for u using assms(1,2) unfolding futex_inv_def by metis
  have asleep: "\<exists>u. carries (pcs (goto t p (f\<lparr>key := MUTEX_UNLOCKED\<rparr>)) u)" if a: "pcs (goto t p (f\<lparr>key := MUTEX_UNLOCKED\<rparr>)) a = Asleep" for a
  proof -
    have "pcs f a = Asleep" using a assms(3) by (auto split: if_splits)
    then consider "key f = MUTEX_SLEEPING" | u where "carries (pcs f u)" using assms(1) unfolding futex_inv_def by blast
    then show ?thesis
    proof cases
      case 1
      then show ?thesis using assms(4) by (auto intro!: exI [of _ t])
    next
      case 2
      then have "u \<noteq> t" using assms(2) by auto
      then show ?thesis using 2 by (auto intro!: exI [of _ u])
    qed
  qed
  show ?thesis
    by (rule futex_invI) (use assms(1,3) only asleep in \<open>auto simp: futex_inv_def split: if_splits\<close>)
qed

lemma inv_wake:
  assumes "futex_inv f" "pcs f t = Waking" "pcs f u = Asleep"
  shows "futex_inv (goto t Outside (goto u (Spinning spin_rounds MUTEX_SLEEPING) f))"
proof -
  have "u \<noteq> t" using assms(2,3) by auto
  then have "\<exists>a. carries (pcs (goto t Outside (goto u (Spinning spin_rounds MUTEX_SLEEPING) f)) a)" by (auto intro!: exI [of _ u])
  moreover have "pcs (goto t Outside (goto u (Spinning spin_rounds MUTEX_SLEEPING) f)) a = Holding \<longleftrightarrow> pcs f a = Holding" for a
    using assms(2,3) by auto
  ultimately show ?thesis using assms(1) unfolding futex_inv_def by auto
qed

lemma key_idem: "f\<lparr>key := key f\<rparr> = f"
  by simp

lemma futex_step_inv:
  assumes "futex_step f f'" "futex_inv f"
  shows "futex_inv f'"
  using assms
proof (induction rule: futex_step.induct)
  case (call f t)
  then show ?case using inv_move [of f t Entering "key f"] by (simp add: key_idem)
next
  case (enter f t)
  then show ?case using inv_take [of f MUTEX_LOCKED t] inv_move [of f t "Spinning spin_rounds (key f)" MUTEX_LOCKED]
    by (auto simp: lock_exchange_def Let_def)
next
  case (spin f t i w)
  then have "wait_ok (Spinning i w)" unfolding futex_inv_def by metis
  then show ?case using spin inv_move [of f t Announcing "key f"] inv_move [of f t "Swapping i w" "key f"]
      inv_move [of f t "Spinning (i - 1) w" "key f"] by (auto simp: lock_spin_def key_idem split: nat.split)
next
  case (swap f t i w)
  then have "wait_ok (Swapping i w)" unfolding futex_inv_def by metis
  then show ?case using swap inv_take [of f w t] inv_move [of f t "Spinning i w" "key f"] by (auto simp: lock_swap_def key_idem)
next
  case (announce f t)
  then show ?case using inv_take [of f MUTEX_SLEEPING t] inv_move [of f t Waiting MUTEX_SLEEPING]
    by (auto simp: lock_announce_def Let_def)
next
  case (wait f t)
  then show ?case using inv_move [of f t Asleep "key f"] inv_move [of f t "Spinning spin_rounds MUTEX_SLEEPING" "key f"]
    by (auto simp: futex_sleep_def key_idem) (metis key_idem)
next
  case (spurious f t)
  then show ?case using inv_move [of f t "Spinning spin_rounds MUTEX_SLEEPING" "key f"] by (simp add: key_idem)
next
  case (try_lock f t)
  then show ?case using inv_take [of f MUTEX_LOCKED t] by (auto simp: futex_trylock_def)
next
  case (release f t)
  then have "key f \<noteq> MUTEX_UNLOCKED" unfolding futex_inv_def by blast
  then show ?case using release inv_release [of f t Waking] inv_release [of f t Outside] by (auto simp: unlock_exchange_def Let_def)
next
  case (wake f t u)
  then show ?case using inv_wake by (simp add: wake_one_def asleep_def)
next
  case (wake_none f t)
  have "pcs (goto t Outside f) a = Holding \<longleftrightarrow> pcs f a = Holding" for a using wake_none(1) by simp
  then show ?case using wake_none unfolding futex_inv_def wake_one_def asleep_def by (auto split: if_splits)
qed

lemma reachable_inv: "reachable f \<Longrightarrow> futex_inv f"
proof (induction rule: reachable.induct)
  case start
  then show ?case by (simp add: futex_inv_def futex_init_def)
next
  case (step f f')
  then show ?case using futex_step_inv by blast
qed

section \<open>The lock chain\<close>

text \<open>
  Threads that take the locks of their chains in order (\<open>lock_chain_acquire\<close>) and give them back in reverse order
  (\<open>lock_chain_release\<close>). \<open>chain t\<close> is the array of thread \<open>t\<close>, \<open>got\<close> how many of its locks it holds, \<open>rel\<close> whether it is
  giving them back.
\<close>

record chain_state =
  got :: "nat \<Rightarrow> nat"
  rel :: "nat \<Rightarrow> bool"

definition chain_holds :: "(nat \<Rightarrow> addr list) \<Rightarrow> chain_state \<Rightarrow> nat \<Rightarrow> addr set" where
  "chain_holds chain s t = set (take (got s t) (chain t))"

inductive chain_step :: "nat set \<Rightarrow> (nat \<Rightarrow> addr list) \<Rightarrow> nat \<Rightarrow> chain_state \<Rightarrow> chain_state \<Rightarrow> bool" for T chain where
  acquire: "t \<in> T \<Longrightarrow> \<not> rel s t \<Longrightarrow> got s t < length (chain t) \<Longrightarrow> \<forall>u\<in>T. chain t ! got s t \<notin> chain_holds chain s u \<Longrightarrow>
     chain_step T chain t s (s\<lparr>got := (got s)(t := Suc (got s t))\<rparr>)"
| acquired: "t \<in> T \<Longrightarrow> \<not> rel s t \<Longrightarrow> got s t = length (chain t) \<Longrightarrow> chain_step T chain t s (s\<lparr>rel := (rel s)(t := True)\<rparr>)"
| release: "t \<in> T \<Longrightarrow> rel s t \<Longrightarrow> got s t = Suc n \<Longrightarrow> chain_step T chain t s (s\<lparr>got := (got s)(t := n)\<rparr>)"
| released: "t \<in> T \<Longrightarrow> rel s t \<Longrightarrow> got s t = 0 \<Longrightarrow> chain_step T chain t s (s\<lparr>rel := (rel s)(t := False)\<rparr>)"

inductive_cases chain_stepE: "chain_step T chain t s s'"

definition stuck :: "nat set \<Rightarrow> (nat \<Rightarrow> addr list) \<Rightarrow> chain_state \<Rightarrow> nat \<Rightarrow> bool" where
  "stuck T chain s t \<longleftrightarrow> \<not> (\<exists>s'. chain_step T chain t s s')"

lemma stuckD:
  assumes "stuck T chain s t" "t \<in> T" "got s t \<le> length (chain t)"
  shows "got s t < length (chain t)" "\<exists>u\<in>T. chain t ! got s t \<in> chain_holds chain s u" "\<not> rel s t"
proof -
  show r: "\<not> rel s t"
  proof
    assume "rel s t"
    then show False using assms(1,2) released [of t T s chain] release [of t T s _ chain] unfolding stuck_def by (cases "got s t") blast+
  qed
  show l: "got s t < length (chain t)"
    using acquired [of t T s chain] assms r unfolding stuck_def by (metis le_neq_implies_less)
  show "\<exists>u\<in>T. chain t ! got s t \<in> chain_holds chain s u"
    using acquire [of t T s chain] assms(1,2) r l unfolding stuck_def by blast
qed

lemma sorted_wait_above:
  assumes "sorted xs" "distinct xs" "l \<in> set (take n xs)" "n < length xs"
  shows "l < xs ! n"
proof -
  obtain i where i: "i < n" "l = xs ! i" using assms(3,4) by (auto simp: in_set_conv_nth)
  then have "l \<le> xs ! n" "l \<noteq> xs ! n" using assms sorted_nth_mono [of xs i n] by (auto simp: nth_eq_iff_index_eq)
  then show ?thesis by simp
qed

section \<open>Properties\<close>

text \<open>
  Claim C20. The futex lock is a lock. In every state that any number of threads can reach by calling \<open>_coroc_futex_lock\<close>, \<open>_coroc_futex_trylock\<close>
  and, while holding it, \<open>_coroc_futex_unlock\<close>, at most one thread holds the lock, the word says unlocked exactly when
  nobody does, and the assertion of the unlock never fails. No wake-up is lost: while a thread sleeps, either
  the holder finds \<open>MUTEX_SLEEPING\<close> when it unlocks, or some awake thread will write it back or wake a sleeper;
  so there is never a sleeper when all other threads are outside.
\<close>

theorem futex_lock_correct:
  assumes "reachable f"
  shows "(\<forall>t u. pcs f t = Holding \<and> pcs f u = Holding \<longrightarrow> t = u) \<and> (key f = MUTEX_UNLOCKED \<longleftrightarrow> (\<forall>t. pcs f t \<noteq> Holding)) \<and>
     (\<forall>t. pcs f t \<noteq> Broken) \<and>
     (\<forall>t. pcs f t = Asleep \<longrightarrow> (key f = MUTEX_SLEEPING \<and> (\<exists>u. pcs f u = Holding)) \<or> (\<exists>u. carries (pcs f u))) \<and>
     ((\<forall>t. pcs f t = Outside \<or> pcs f t = Asleep) \<longrightarrow> (\<forall>t. pcs f t = Outside))"
proof -
  note i = reachable_inv [OF assms]
  have b: "pcs f t \<noteq> Broken" for t using i unfolding futex_inv_def by (metis wait_ok.simps(3))
  have s: "(key f = MUTEX_SLEEPING \<and> (\<exists>u. pcs f u = Holding)) \<or> (\<exists>u. carries (pcs f u))" if "pcs f t = Asleep" for t
    using i that unfolding futex_inv_def by (metis mutex_distinct(4))
  have "pcs f t = Outside" if o: "\<forall>t. pcs f t = Outside \<or> pcs f t = Asleep" for t
  proof (rule ccontr)
    assume "pcs f t \<noteq> Outside"
    then have "pcs f t = Asleep" using o by blast
    have "pcs f u \<noteq> Holding" "\<not> carries (pcs f u)" for u using o [rule_format, of u] by auto
    with s [OF \<open>pcs f t = Asleep\<close>] show False by blast
  qed
  then show ?thesis using i b s unfolding futex_inv_def by blast
qed

text \<open>Thread 1 holds the lock, thread 2 has found it taken and spins.\<close>

theorem futex_lock_correct_witness:
  "\<exists>f. reachable f \<and> pcs f 1 = Holding \<and> pcs f 2 = Spinning spin_rounds MUTEX_LOCKED \<and> key f \<noteq> MUTEX_UNLOCKED \<and> (\<forall>t. pcs f t = Holding \<longrightarrow> t = 1)"
proof -
  let ?f1 = "goto 1 Entering futex_init"
  let ?f2 = "lock_exchange 1 ?f1"
  let ?f3 = "goto 2 Entering ?f2"
  let ?f4 = "lock_exchange 2 ?f3"
  have r1: "reachable ?f1" by (rule reachable.step [OF reachable.start]) (rule futex_step.call, simp add: futex_init_def)
  have r2: "reachable ?f2" by (rule reachable.step [OF r1]) (rule futex_step.enter, simp)
  have r3: "reachable ?f3" by (rule reachable.step [OF r2]) (rule futex_step.call, simp add: lock_exchange_def futex_init_def Let_def)
  have r4: "reachable ?f4" by (rule reachable.step [OF r3]) (rule futex_step.enter, simp)
  have p: "pcs ?f4 1 = Holding" "pcs ?f4 2 = Spinning spin_rounds MUTEX_LOCKED"
    by (simp_all add: lock_exchange_def futex_init_def Let_def)
  show ?thesis
    by (rule exI [of _ ?f4]) (use futex_lock_correct [OF r4] r4 p in blast)
qed



text \<open>Without the sorting the same two threads stop each other: each holds the lock the other one needs next.\<close>

lemma unsorted_chains_deadlock:
  "\<forall>t\<in>{1, 2}. stuck {1, 2} (\<lambda>t. if t = 1 then [7, 8] else [8, 7]) \<lparr>got = (\<lambda>t. 1), rel = (\<lambda>t. False)\<rparr> t"
  by (auto simp: stuck_def chain_holds_def elim!: chain_stepE)

end
