(* ===== verification/Group.thy ===== *)
theory Group
  imports Prelude
begin

text \<open>
  Task groups (\<^verbatim>\<open>src/group.c\<close>, \<^verbatim>\<open>include/inter/coroc_group.h\<close>). A parent counts the tasks it spawns into a group and then waits for all of them;
  each task reports its result when it finishes. The operations run on different threads, so each of their accesses to
  the shared group is a step of its own here and the steps of the parent and of the tasks interleave freely.
\<close>

section \<open>The group and the accesses to it\<close>

record group =
  count :: u32
  errors :: u32
  lock :: bool
  parent :: ptr

definition group_init :: group where
  "group_init = \<lparr>count = 1, errors = 0, lock = False, parent = None\<rparr>"

definition group_alloc :: group where
  "group_alloc = group_init"

definition group_add_task :: "group \<Rightarrow> group" where
  "group_add_task g = g\<lparr>count := count g + 1\<rparr>"

text \<open>\<open>coroc_group_notify\<close>: count the failure, leave the group, and if it was the last one read the parent under the lock.\<close>

definition notify_error :: "int \<Rightarrow> group \<Rightarrow> group" where
  "notify_error retval g = (if retval \<noteq> 0 then g\<lparr>errors := errors g + 1\<rparr> else g)"

definition notify_leave :: "group \<Rightarrow> bool \<times> group" where
  "notify_leave g = (let n = count g - 1 in (n = 0, g\<lparr>count := n\<rparr>))"

definition notify_lock :: "group \<Rightarrow> group option" where
  "notify_lock g = (if lock g then None else Some (g\<lparr>lock := True\<rparr>))"

definition notify_read :: "group \<Rightarrow> ptr \<times> group" where
  "notify_read g = (parent g, g\<lparr>lock := False\<rparr>)"

text \<open>
  \<open>coroc_group_sync\<close>: give up the parent's own share, and if tasks are left look again under the lock and go to sleep. The
  lock is released by the scheduler once the parent is asleep; on the other branch nobody releases it.
\<close>

definition sync_leave :: "group \<Rightarrow> bool \<times> group" where
  "sync_leave g = (let n = count g - 1 in (n > 0, g\<lparr>count := n\<rparr>))"

definition sync_check :: "addr \<Rightarrow> group \<Rightarrow> bool \<times> group" where
  "sync_check self g = (if count g > 0 then (True, g\<lparr>parent := Some self\<rparr>) else (False, g))"

definition sync_release :: "group \<Rightarrow> group" where
  "sync_release g = g\<lparr>lock := False\<rparr>"

section \<open>Parent and tasks\<close>

text \<open>
  Where a task is: not spawned, running, has counted its failure, was the last one and wants the lock, holds it, is about to
  wake what it read, has returned, or has failed the assertion of \<open>vpu_ready\<close> that the parent waits.
\<close>

datatype child = Unborn | Working | Counted | Last | Reading | Waking ptr | Finished | Broken

text \<open>
  The parent: spawning, wants the lock, holds it, has stored its name and is being put to sleep, asleep, about to
  return, has returned with the number of errors.
\<close>

datatype par = Spawning | Deciding | Checking | Suspending | Sleeping | Leaving | Returned u32

record gsys =
  grp :: group
  par :: par
  child :: "nat \<Rightarrow> child"

definition me :: addr where "me = 0"

definition set_child :: "nat \<Rightarrow> child \<Rightarrow> gsys \<Rightarrow> gsys" where
  "set_child c x s = s\<lparr>child := (child s)(c := x)\<rparr>"

text \<open>\<open>T\<close> are the tasks that may be spawned and \<open>ret\<close> their results.\<close>

inductive group_step :: "nat set \<Rightarrow> (nat \<Rightarrow> int) \<Rightarrow> gsys \<Rightarrow> gsys \<Rightarrow> bool" for T ret where
  spawn: "par s = Spawning \<Longrightarrow> c \<in> T \<Longrightarrow> child s c = Unborn \<Longrightarrow>
    group_step T ret s (set_child c Working (s\<lparr>grp := group_add_task (grp s)\<rparr>))"
| error: "child s c = Working \<Longrightarrow>
    group_step T ret s (set_child c Counted (s\<lparr>grp := notify_error (ret c) (grp s)\<rparr>))"
| leave: "child s c = Counted \<Longrightarrow> notify_leave (grp s) = (l, g) \<Longrightarrow>
    group_step T ret s (set_child c (if l then Last else Finished) (s\<lparr>grp := g\<rparr>))"
| lock: "child s c = Last \<Longrightarrow> notify_lock (grp s) = Some g \<Longrightarrow>
    group_step T ret s (set_child c Reading (s\<lparr>grp := g\<rparr>))"
| read: "child s c = Reading \<Longrightarrow> notify_read (grp s) = (p, g) \<Longrightarrow>
    group_step T ret s (set_child c (Waking p) (s\<lparr>grp := g\<rparr>))"
| wake: "child s c = Waking (Some p) \<Longrightarrow>
    group_step T ret s (if par s = Sleeping then set_child c Finished (s\<lparr>par := Leaving\<rparr>) else set_child c Broken s)"
| wake_none: "child s c = Waking None \<Longrightarrow> group_step T ret s (set_child c Finished s)"
| sync: "par s = Spawning \<Longrightarrow> sync_leave (grp s) = (b, g) \<Longrightarrow>
    group_step T ret s (s\<lparr>grp := g, par := if b then Deciding else Leaving\<rparr>)"
| sync_lock: "par s = Deciding \<Longrightarrow> notify_lock (grp s) = Some g \<Longrightarrow> group_step T ret s (s\<lparr>grp := g, par := Checking\<rparr>)"
| check: "par s = Checking \<Longrightarrow> sync_check me (grp s) = (b, g) \<Longrightarrow>
    group_step T ret s (s\<lparr>grp := g, par := if b then Suspending else Leaving\<rparr>)"
| suspend: "par s = Suspending \<Longrightarrow> group_step T ret s (s\<lparr>grp := sync_release (grp s), par := Sleeping\<rparr>)"
| return: "par s = Leaving \<Longrightarrow> group_step T ret s (s\<lparr>par := Returned (errors (grp s))\<rparr>)"

inductive_cases group_stepE: "group_step T ret s s'"

definition group_start :: gsys where
  "group_start = \<lparr>grp = group_alloc, par = Spawning, child = (\<lambda>c. Unborn)\<rparr>"

definition group_reachable :: "nat set \<Rightarrow> (nat \<Rightarrow> int) \<Rightarrow> gsys \<Rightarrow> bool" where
  "group_reachable T ret s \<longleftrightarrow> (group_step T ret)\<^sup>*\<^sup>* group_start s"

section \<open>The invariant\<close>

definition present :: "gsys \<Rightarrow> nat set" where
  "present s = {c. child s c \<in> {Working, Counted}}"

definition failed :: "(nat \<Rightarrow> int) \<Rightarrow> gsys \<Rightarrow> nat set" where
  "failed ret s = {c. child s c \<notin> {Unborn, Working} \<and> ret c \<noteq> 0}"

definition own :: "gsys \<Rightarrow> nat" where
  "own s = (if par s = Spawning then 1 else 0)"

fun closing :: "child \<Rightarrow> bool" where
  "closing Last = True"
| "closing Reading = True"
| "closing (Waking p) = True"
| "closing c = False"

definition counts_ok :: "nat set \<Rightarrow> (nat \<Rightarrow> int) \<Rightarrow> gsys \<Rightarrow> bool" where
  "counts_ok T ret s \<longleftrightarrow> {c. child s c \<noteq> Unborn} \<subseteq> T \<and> count (grp s) = of_nat (card (present s) + own s) \<and>
     errors (grp s) = of_nat (card (failed ret s))"

text \<open>The last task: at most one, only when everybody has left, and the lock is free for it unless somebody holds it.\<close>

definition closing_ok :: "gsys \<Rightarrow> bool" where
  "closing_ok s \<longleftrightarrow> (\<forall>c. child s c \<noteq> Broken) \<and> (\<forall>c d. closing (child s c) \<and> closing (child s d) \<longrightarrow> c = d) \<and>
     (\<forall>c. closing (child s c) \<longrightarrow> present s = {} \<and> par s \<noteq> Spawning)"

definition parent_ok :: "gsys \<Rightarrow> bool" where
  "parent_ok s \<longleftrightarrow>
     (par s \<in> {Checking, Suspending} \<longrightarrow> lock (grp s) \<and> (\<forall>c. child s c \<noteq> Reading)) \<and>
     ((\<exists>c. child s c = Reading) \<longrightarrow> lock (grp s)) \<and>
     (lock (grp s) \<longrightarrow> par s \<in> {Checking, Suspending} \<or> (\<exists>c. child s c = Reading) \<or>
        (present s = {} \<and> (par s = Leaving \<or> (\<exists>r. par s = Returned r)))) \<and>
     (par s \<in> {Spawning, Deciding, Checking} \<longrightarrow> parent (grp s) = None) \<and>
     (par s \<in> {Suspending, Sleeping} \<longrightarrow> parent (grp s) = Some me \<and> (present s \<noteq> {} \<or> (\<exists>c. closing (child s c) \<and> child s c \<noteq> Waking None))) \<and>
     (\<forall>c p. child s c = Waking (Some p) \<longrightarrow> par s = Sleeping) \<and>
     (\<forall>c. child s c = Waking None \<longrightarrow> parent (grp s) = None) \<and>
     ((par s = Leaving \<or> (\<exists>r. par s = Returned r)) \<longrightarrow> present s = {} \<and> (parent (grp s) = None \<or> (\<forall>c. \<not> closing (child s c)))) \<and>
     (\<forall>r. par s = Returned r \<longrightarrow> r = errors (grp s))"

definition group_inv :: "nat set \<Rightarrow> (nat \<Rightarrow> int) \<Rightarrow> gsys \<Rightarrow> bool" where
  "group_inv T ret s \<longleftrightarrow> counts_ok T ret s \<and> closing_ok s \<and> parent_ok s"

lemma set_child_sel [simp]: "child (set_child c x s) = (child s)(c := x)" "grp (set_child c x s) = grp s" "par (set_child c x s) = par s"
  by (simp_all add: set_child_def)

lemma own_simps [simp]: "own (set_child c x s) = own s" "own (s\<lparr>grp := g\<rparr>) = own s"
  by (simp_all add: own_def)

lemma present_simps [simp]:
  "present (s\<lparr>grp := g\<rparr>) = present s" "present (s\<lparr>par := p\<rparr>) = present s" "present (s\<lparr>grp := g, par := p\<rparr>) = present s"
  "failed ret (s\<lparr>grp := g\<rparr>) = failed ret s" "failed ret (s\<lparr>par := p\<rparr>) = failed ret s" "failed ret (s\<lparr>grp := g, par := p\<rparr>) = failed ret s"
  by (simp_all add: present_def failed_def)

lemma present_set_child [simp]:
  "present (set_child c x s) = (if x \<in> {Working, Counted} then insert c (present s) else present s - {c})"
  by (auto simp: present_def)

lemma failed_set_child [simp]:
  "failed ret (set_child c x s) = (if x \<notin> {Unborn, Working} \<and> ret c \<noteq> 0 then insert c (failed ret s) else failed ret s - {c})"
  by (auto simp: failed_def)

lemma count_zero:
  assumes "counts_ok T ret s" "finite T" "card T < 2 ^ 32 - 1"
  shows "count (grp s) = 0 \<longleftrightarrow> present s = {} \<and> par s \<noteq> Spawning" "finite (present s)" "finite (failed ret s)"
    "count (grp s) - 1 = 0 \<longleftrightarrow> card (present s) + own s = 1"
proof -
  have sub: "present s \<subseteq> T" "failed ret s \<subseteq> T" using assms(1) by (auto simp: counts_ok_def present_def failed_def)
  show fin: "finite (present s)" "finite (failed ret s)" using sub assms(2) finite_subset by blast+
  have "card (present s) \<le> card T" using card_mono [OF assms(2) sub(1)] .
  then have b: "card (present s) + own s < 2 ^ 32" using assms(3) by (simp add: own_def)
  have c: "count (grp s) = of_nat (card (present s) + own s)" using assms(1) by (simp add: counts_ok_def)
  show "count (grp s) = 0 \<longleftrightarrow> present s = {} \<and> par s \<noteq> Spawning"
    unfolding c of_nat_u32_eq_0 [OF b] using fin(1) by (simp add: own_def)
  have "unat (count (grp s)) = card (present s) + own s" unfolding c by (rule unat_of_nat_u32 [OF b])
  then show "count (grp s) - 1 = 0 \<longleftrightarrow> card (present s) + own s = 1"
    by (metis right_minus_eq unat_1 unsigned_word_eqI)
qed

lemma in_present: "c \<in> present s \<longleftrightarrow> child s c \<in> {Working, Counted}"
  by (simp add: present_def)

lemma in_failed: "c \<in> failed ret s \<longleftrightarrow> child s c \<notin> {Unborn, Working} \<and> ret c \<noteq> 0"
  by (simp add: failed_def)

text \<open>What a step of one task does to the two counters.\<close>

lemma counts_child:
  assumes "counts_ok T ret s" "finite T" "card T < 2 ^ 32 - 1" "c \<in> T"
    and "count g = count (grp s) + (if x \<in> {Working, Counted} then 1 else 0) - (if c \<in> present s then 1 else 0)"
    and "errors g = errors (grp s) + (if x \<notin> {Unborn, Working} \<and> ret c \<noteq> 0 then 1 else 0) - (if c \<in> failed ret s then 1 else 0)"
  shows "counts_ok T ret (set_child c x (s\<lparr>grp := g\<rparr>))"
proof -
  have fin: "finite (present s)" "finite (failed ret s)" using count_zero [OF assms(1-3)] by simp_all
  have n: "card (A - {c}) + (if c \<in> A then 1 else 0) = card A" if "finite A" for A :: "nat set"
    using that card.remove [of A c] by auto
  have n': "(of_nat (card (A - {c})) :: u32) = of_nat (card A) - (if c \<in> A then 1 else 0)" if "finite A" for A :: "nat set"
    using arg_cong [OF n [OF that], of "of_nat :: nat \<Rightarrow> u32"] by (auto simp: algebra_simps split: if_splits)
  have i: "(of_nat (card (insert c A)) :: u32) = of_nat (card A) + 1 - (if c \<in> A then 1 else 0)" if "finite A" for A :: "nat set"
    using that by (simp add: card_insert_if)
  have p: "(of_nat (card (if b then insert c A else A - {c})) :: u32) = of_nat (card A) + (if b then 1 else 0) - (if c \<in> A then 1 else 0)"
    if "finite A" for A :: "nat set" and b
    using n' [OF that] i [OF that] by (cases b) simp_all
  let ?s = "set_child c x (s\<lparr>grp := g\<rparr>)"
  have "(of_nat (card (present ?s)) :: u32) = of_nat (card (present s)) + (if x \<in> {Working, Counted} then 1 else 0) - (if c \<in> present s then 1 else 0)"
    "(of_nat (card (failed ret ?s)) :: u32) =
       of_nat (card (failed ret s)) + (if x \<notin> {Unborn, Working} \<and> ret c \<noteq> 0 then 1 else 0) - (if c \<in> failed ret s then 1 else 0)"
    unfolding present_set_child failed_set_child present_simps by (rule p [OF fin(1)], rule p [OF fin(2)])
  moreover have "{d. child ?s d \<noteq> Unborn} \<subseteq> T" using assms(1,4) by (auto simp: counts_ok_def)
  ultimately show ?thesis using assms(1,5,6) unfolding counts_ok_def by simp
qed

lemma counts_par: "own (s\<lparr>par := p\<rparr>) = own s \<Longrightarrow> counts_ok T ret (s\<lparr>par := p\<rparr>) \<longleftrightarrow> counts_ok T ret s"
  by (simp add: counts_ok_def)

lemma set_child_par: "set_child c x (s\<lparr>par := p\<rparr>) = (set_child c x s)\<lparr>par := p\<rparr>"
  by (simp add: set_child_def)

lemma counts_step:
  assumes "group_step T ret s s'" "counts_ok T ret s" "finite T" "card T < 2 ^ 32 - 1"
  shows "counts_ok T ret s'"
proof -
  have T: "c \<in> T" if "child s c \<noteq> Unborn" for c using assms(2) that by (auto simp: counts_ok_def)
  note step = counts_child [OF assms(2-4)]
  have keep: "s = s\<lparr>grp := grp s\<rparr>" by simp
  show ?thesis using assms(1)
  proof cases
    case (spawn c)
    then show ?thesis by (auto intro!: step simp: group_add_task_def in_present in_failed)
  next
    case (error c)
    then have "counts_ok T ret (set_child c Counted (s\<lparr>grp := notify_error (ret c) (grp s)\<rparr>))"
      using T [of c] by (intro step) (auto simp: notify_error_def in_present in_failed)
    then show ?thesis using error by simp
  next
    case (leave c l g)
    then show ?thesis using T [of c] by (auto intro!: step simp: notify_leave_def Let_def in_present in_failed)
  next
    case (lock c g)
    then show ?thesis using T [of c] by (auto intro!: step simp: notify_lock_def in_present in_failed split: if_splits)
  next
    case (read c q g)
    then show ?thesis using T [of c] by (auto intro!: step simp: notify_read_def in_present in_failed)
  next
    case (wake c q)
    have "counts_ok T ret (set_child c x (s\<lparr>grp := grp s\<rparr>))" if "x \<in> {Finished, Broken}" for x
      using T [of c] wake that by (intro step) (auto simp: in_present in_failed)
    then have "counts_ok T ret (set_child c Finished s)" "counts_ok T ret (set_child c Broken s)" by simp_all
    then show ?thesis using wake by (simp add: set_child_par counts_par own_def)
  next
    case (wake_none c)
    have "counts_ok T ret (set_child c Finished (s\<lparr>grp := grp s\<rparr>))"
      using T [of c] wake_none by (intro step) (auto simp: in_present in_failed)
    then show ?thesis using wake_none by simp
  qed (use assms(2) in \<open>auto simp: counts_ok_def own_def sync_leave_def notify_lock_def sync_check_def sync_release_def Let_def split: if_splits\<close>)
qed

lemma closingD:
  assumes "closing_ok s" "closing (child s c)"
  shows "present s = {}" "par s \<noteq> Spawning" "closing (child s d) \<Longrightarrow> d = c"
  using assms unfolding closing_ok_def by blast+

lemma closing_step:
  assumes "group_step T ret s s'" "group_inv T ret s" "finite T" "card T < 2 ^ 32 - 1"
  shows "closing_ok s'"
proof -
  note inv = assms(2) [unfolded group_inv_def]
  note z = count_zero [OF conjunct1 [OF inv] assms(3,4)]
  have c: "closing_ok s" using inv by blast
  show ?thesis using assms(1)
  proof cases
    case (spawn c)
    then show ?thesis using c by (auto simp: closing_ok_def)
  next
    case (error c)
    then have "present s \<noteq> {}" by (auto simp: present_def)
    then show ?thesis using c error by (auto simp: closing_ok_def)
  next
    case (leave c l g)
    then have p: "c \<in> present s" by (auto simp: present_def)
    have "l \<Longrightarrow> present s = {c} \<and> par s \<noteq> Spawning"
      using leave z p by (auto simp: notify_leave_def Let_def own_def card_1_singleton_iff split: if_splits)
    then show ?thesis using c leave p by (auto simp: closing_ok_def)
  next
    case (lock c g)
    then have "closing (child s c)" by simp
    from closingD [OF c this] show ?thesis using c lock by (auto simp: closing_ok_def)
  next
    case (read c q g)
    then have "closing (child s c)" by simp
    from closingD [OF c this] show ?thesis using c read by (auto simp: closing_ok_def)
  next
    case (wake c q)
    then have "par s = Sleeping" using inv unfolding parent_ok_def by blast
    then show ?thesis using c wake by (auto simp: closing_ok_def)
  next
    case (wake_none c)
    then show ?thesis using c by (auto simp: closing_ok_def)
  qed (use c in \<open>auto simp: closing_ok_def split: if_splits\<close>)
qed

lemma not_closingD: "\<not> closing x \<Longrightarrow> x \<noteq> Last \<and> x \<noteq> Reading \<and> x \<noteq> Waking q"
  by auto

lemma closing_one: "closing_ok s \<Longrightarrow> \<exists>c. \<forall>d. d \<noteq> c \<longrightarrow> \<not> closing (child s d)"
  unfolding closing_ok_def by blast

text \<open>With at most one task closing, the quantifiers over the tasks are about that task.\<close>

definition parent_at :: "nat \<Rightarrow> gsys \<Rightarrow> bool" where
  "parent_at c s \<longleftrightarrow>
     (par s \<in> {Checking, Suspending} \<longrightarrow> lock (grp s) \<and> child s c \<noteq> Reading) \<and>
     (child s c = Reading \<longrightarrow> lock (grp s)) \<and>
     (lock (grp s) \<longrightarrow> par s \<in> {Checking, Suspending} \<or> child s c = Reading \<or>
        (present s = {} \<and> (par s = Leaving \<or> (\<exists>r. par s = Returned r)))) \<and>
     (par s \<in> {Spawning, Deciding, Checking} \<longrightarrow> parent (grp s) = None) \<and>
     (par s \<in> {Suspending, Sleeping} \<longrightarrow> parent (grp s) = Some me \<and> (present s \<noteq> {} \<or> (closing (child s c) \<and> child s c \<noteq> Waking None))) \<and>
     (\<forall>p. child s c = Waking (Some p) \<longrightarrow> par s = Sleeping) \<and>
     (child s c = Waking None \<longrightarrow> parent (grp s) = None) \<and>
     ((par s = Leaving \<or> (\<exists>r. par s = Returned r)) \<longrightarrow> present s = {} \<and> (parent (grp s) = None \<or> \<not> closing (child s c))) \<and>
     (\<forall>r. par s = Returned r \<longrightarrow> r = errors (grp s))"

lemma parent_ok_at:
  assumes "\<And>d. d \<noteq> c \<Longrightarrow> \<not> closing (child s d)"
  shows "parent_ok s \<longleftrightarrow> parent_at c s"
proof -
  have n: "d = c" if "closing (child s d)" for d using assms that by blast
  have r: "d = c" if "child s d = Reading" for d using n [of d] that by simp
  have w: "d = c" if "child s d = Waking q" for d q using n [of d] that by simp
  have "(\<exists>d. child s d = Reading) \<longleftrightarrow> child s c = Reading" "(\<forall>d. child s d \<noteq> Reading) \<longleftrightarrow> child s c \<noteq> Reading"
    "(\<exists>d. closing (child s d) \<and> child s d \<noteq> Waking None) \<longleftrightarrow> closing (child s c) \<and> child s c \<noteq> Waking None"
    "(\<forall>d p. child s d = Waking (Some p) \<longrightarrow> par s = Sleeping) \<longleftrightarrow> (\<forall>p. child s c = Waking (Some p) \<longrightarrow> par s = Sleeping)"
    "(\<forall>d. child s d = Waking None \<longrightarrow> parent (grp s) = None) \<longleftrightarrow> (child s c = Waking None \<longrightarrow> parent (grp s) = None)"
    "(\<forall>d. \<not> closing (child s d)) \<longleftrightarrow> \<not> closing (child s c)"
    using n r w by blast+
  then show ?thesis unfolding parent_ok_def parent_at_def by presburger
qed

lemma parent_move:
  assumes "closing_ok s" "parent_ok s" "closing (child s c)" "child s' = (child s)(c := x)"
    and "present s = {} \<Longrightarrow> parent_at c s \<Longrightarrow> parent_at c s'"
  shows "parent_ok s'"
proof -
  have "\<not> closing (child s d)" "\<not> closing (child s' d)" if "d \<noteq> c" for d
    using closingD(3) [OF assms(1,3), of d] that assms(4) by auto
  then show ?thesis using assms(2,5) closingD(1) [OF assms(1,3)] parent_ok_at [of c s] parent_ok_at [of c s'] by blast
qed

text \<open>The parent neither sleeps unnoticed nor returns while tasks are present.\<close>

lemma parent_error:
  assumes "closing_ok s" "parent_ok s" "child s c = Working" "s' = set_child c Counted (s\<lparr>grp := notify_error r (grp s)\<rparr>)"
  shows "parent_ok s'"
proof -
  have cp: "c \<in> present s" using assms(3) by (simp add: present_def)
  then have n: "\<not> closing (child s d)" for d using closingD(1) [OF assms(1)] by blast
  then have n': "\<not> closing (child s' d)" for d using assms(4) by simp
  have r: "\<forall>r. par s \<noteq> Returned r" using assms(2) cp unfolding parent_ok_def by blast
  have "par s' = par s" "lock (grp s') = lock (grp s)" "parent (grp s') = parent (grp s)" "child s' c = Counted" "present s' = present s"
    using assms(4) cp by (auto simp: notify_error_def)
  then show ?thesis using assms(2,3) r unfolding parent_ok_at [of c s, OF n] parent_ok_at [of c s', OF n'] by (simp add: parent_at_def)
qed

lemma parent_leave:
  assumes "closing_ok s" "parent_ok s" "child s c = Counted" "s' = set_child c (if l then Last else Finished) (s\<lparr>grp := g\<rparr>)"
    and "g = (grp s)\<lparr>count := k\<rparr>" "l \<longleftrightarrow> present s = {c} \<and> par s \<noteq> Spawning"
  shows "parent_ok s'"
proof -
  have cp: "c \<in> present s" using assms(3) by (simp add: present_def)
  then have n: "\<not> closing (child s d)" for d using closingD(1) [OF assms(1)] by blast
  then have n': "\<not> closing (child s' d)" if "d \<noteq> c" for d using assms(4) that by simp
  have r: "par s \<noteq> Leaving" "\<forall>r. par s \<noteq> Returned r" using assms(2) cp unfolding parent_ok_def by blast+
  have "present s - {c} \<noteq> {} \<or> par s = Spawning" if "\<not> l" using assms(6) cp that by blast
  moreover have "par s' = par s" "lock (grp s') = lock (grp s)" "parent (grp s') = parent (grp s)"
    "child s' c = (if l then Last else Finished)" "present s' = present s - {c}" using assms(4,5) by auto
  moreover have "parent_at c s" using assms(2) parent_ok_at [of c s, OF n] by blast
  ultimately have "parent_at c s'" using assms(3) r unfolding parent_at_def by (cases "par s"; cases l; simp)
  then show ?thesis using parent_ok_at [of c s'] n' by blast
qed

lemma parent_step_task:
  assumes "group_step T ret s s'" "group_inv T ret s" "finite T" "card T < 2 ^ 32 - 1" "child s' \<noteq> child s"
  shows "parent_ok s'"
proof -
  note inv = assms(2) [unfolded group_inv_def]
  note z = count_zero [OF conjunct1 [OF inv] assms(3,4)]
  have c: "closing_ok s" and p: "parent_ok s" using inv by blast+
  note move = parent_move [OF c p]
  show ?thesis using assms(1)
  proof cases
    case (spawn c)
    then have n: "\<not> closing (child s d)" for d using closingD(2) [OF \<open>closing_ok s\<close>, of d] by blast
    have "parent_ok s' \<longleftrightarrow> parent_ok s" using spawn n by (subst (1 2) parent_ok_at [of c]) (auto simp: group_add_task_def parent_at_def)
    then show ?thesis using p by blast
  next
    case (error c)
    then show ?thesis using parent_error [OF \<open>closing_ok s\<close> p] by blast
  next
    case (leave c l g)
    then have "c \<in> present s" by (auto simp: present_def)
    then have "l \<longleftrightarrow> present s = {c} \<and> par s \<noteq> Spawning" "g = (grp s)\<lparr>count := count (grp s) - 1\<rparr>"
      using leave z by (auto simp: notify_leave_def Let_def own_def card_1_singleton_iff split: if_splits)
    then show ?thesis using parent_leave [OF \<open>closing_ok s\<close> p leave(2,1)] by blast
  next
    case (lock c g)
    then have "g = (grp s)\<lparr>lock := True\<rparr>" "\<not> lock (grp s)" by (simp_all add: notify_lock_def split: if_splits)
    then show ?thesis using lock(1,2) by (intro move [of c s' Reading]) (auto simp: parent_at_def)
  next
    case (read c q g)
    then have "q = parent (grp s)" "g = (grp s)\<lparr>lock := False\<rparr>" by (simp_all add: notify_read_def)
    then have "parent_at c s'" if "present s = {}" "parent_at c s"
      using that read(1,2) unfolding parent_at_def by (cases "par s"; auto)
    then show ?thesis using read(1,2) by (intro move [of c s' "Waking q"]) auto
  next
    case (wake c q)
    then have "par s = Sleeping" using p unfolding parent_ok_def by blast
    then show ?thesis using wake by (intro move [of c s' Finished]) (auto simp: parent_at_def)
  next
    case (wake_none c)
    then show ?thesis by (intro move [of c s' Finished]) (auto simp: parent_at_def)
  qed (use assms(5) in auto)
qed

lemma parent_step:
  assumes "group_step T ret s s'" "group_inv T ret s" "finite T" "card T < 2 ^ 32 - 1"
  shows "parent_ok s'"
proof (cases "child s' = child s")
  case False
  then show ?thesis using parent_step_task assms by blast
next
  case True
  note inv = assms(2) [unfolded group_inv_def]
  note z = count_zero [OF conjunct1 [OF inv] assms(3,4)]
  have c: "closing_ok s" and p: "parent_ok s" using inv by blast+
  have nz: "0 < x \<longleftrightarrow> x \<noteq> 0" for x :: u32 by (simp add: word_neq_0_conv)
  obtain k where k: "\<And>d. d \<noteq> k \<Longrightarrow> \<not> closing (child s d)" using closing_one [OF c] by blast
  have at: "parent_ok s \<longleftrightarrow> parent_at k s" "parent_ok s' \<longleftrightarrow> parent_at k s'" using k True by (simp_all add: parent_ok_at)
  have q: "parent_at k s" using at(1) p by blast
  have w: "child s k \<noteq> Waking None" if "present s \<noteq> {}"
    using closingD(1) [OF c, of k] that by (metis closing.simps(3))
  have "parent_at k s'" using assms(1)
  proof cases
    case (sync b g)
    then have "b \<longleftrightarrow> present s \<noteq> {}" "g = (grp s)\<lparr>count := count (grp s) - 1\<rparr>" using z by (auto simp: sync_leave_def Let_def nz own_def)
    moreover have "\<not> closing (child s k)" using closingD(2) [OF c] sync by blast
    ultimately show ?thesis using sync(1,2) q by (auto simp: parent_at_def)
  next
    case (sync_lock g)
    then have "g = (grp s)\<lparr>lock := True\<rparr>" "\<not> lock (grp s)" by (simp_all add: notify_lock_def split: if_splits)
    then show ?thesis using sync_lock(1,2) q by (auto simp: parent_at_def)
  next
    case (check b g)
    then have "b \<longleftrightarrow> present s \<noteq> {}" "g = (if b then (grp s)\<lparr>parent := Some me\<rparr> else grp s)"
      using z by (auto simp: sync_check_def nz split: if_splits)
    then show ?thesis using check(1,2) q w by (auto simp: parent_at_def)
  next
    case suspend
    then show ?thesis using q by (auto simp: sync_release_def parent_at_def)
  next
    case return
    then show ?thesis using q by (auto simp: parent_at_def)
  qed (use True in \<open>auto simp: fun_upd_idem_iff split: if_splits\<close>)
  then show ?thesis using at(2) by blast
qed

lemma group_inv_start: "group_inv T ret group_start"
  by (simp add: group_inv_def counts_ok_def closing_ok_def parent_ok_def group_start_def group_alloc_def group_init_def present_def failed_def own_def)

lemma group_inv_steps:
  assumes "(group_step T ret)\<^sup>*\<^sup>* s s'" "group_inv T ret s" "finite T" "card T < 2 ^ 32 - 1"
  shows "group_inv T ret s'"
  using assms(1,2)
proof (induction rule: rtranclp_induct)
  case (step s' s'')
  then show ?case using counts_step closing_step parent_step assms(3,4) unfolding group_inv_def by (metis (no_types))
qed

lemma group_inv_reachable:
  assumes "group_reachable T ret s" "finite T" "card T < 2 ^ 32 - 1"
  shows "group_inv T ret s"
  using group_inv_steps [OF _ group_inv_start assms(2,3)] assms(1) by (simp add: group_reachable_def)

text \<open>While the parent sleeps, the lock is free unless the last task holds it.\<close>

lemma sleeping_lock:
  assumes "parent_ok s" "par s = Sleeping" "child s c = Last" "closing_ok s"
  shows "\<not> lock (grp s)"
proof
  assume "lock (grp s)"
  then obtain d where d: "child s d = Reading" using assms(1,2) unfolding parent_ok_def by auto
  then have "d = c" using closingD(3) [OF assms(4), of c d] assms(3) by simp
  then show False using d assms(3) by simp
qed

lemma task_moves:
  assumes "child s c \<notin> {Unborn, Finished, Broken, Waking None}" "child s c = Last \<Longrightarrow> \<not> lock (grp s)"
  shows "\<exists>s'. group_step T ret s s' \<and> child s' c \<noteq> child s c"
proof -
  consider "child s c = Working" | "child s c = Counted" | "child s c = Last" | "child s c = Reading" | q where "child s c = Waking (Some q)"
    using assms(1) by (cases "child s c") auto
  then show ?thesis
  proof cases
    case 1
    then show ?thesis using error [of s c T ret] by (intro exI conjI) auto
  next
    case 2
    obtain l g where "notify_leave (grp s) = (l, g)" by fastforce
    from leave [OF 2 this, of T ret] show ?thesis using 2 by (intro exI conjI) (auto split: if_splits)
  next
    case 3
    then have "notify_lock (grp s) = Some ((grp s)\<lparr>lock := True\<rparr>)" using assms(2) by (simp add: notify_lock_def)
    from lock [OF 3 this, of T ret] show ?thesis using 3 by (intro exI conjI) auto
  next
    case 4
    obtain q g where "notify_read (grp s) = (q, g)" by fastforce
    from read [OF 4 this, of T ret] show ?thesis using 4 by (intro exI conjI) auto
  next
    case 5
    from wake [OF 5, of T ret] show ?thesis using 5 by (intro exI conjI) (auto split: if_splits)
  qed
qed

text \<open>A last task that finds the lock left behind by the parent stays where it is.\<close>

definition abandoned :: "nat \<Rightarrow> gsys \<Rightarrow> bool" where
  "abandoned c s \<longleftrightarrow> child s c = Last \<and> lock (grp s) \<and> (par s = Leaving \<or> (\<exists>r. par s = Returned r))"

lemma abandoned_step:
  assumes "group_step T ret s s'" "abandoned c s" "closing_ok s"
  shows "abandoned c s'"
proof -
  have o: "d = c" if "closing (child s d)" for d using closingD(3) [OF assms(3), of c d] assms(2) that by (simp add: abandoned_def)
  have r: "child s d \<noteq> Reading" for d using o [of d] assms(2) by (auto simp: abandoned_def)
  show ?thesis using assms(1)
  proof cases
    case (read d q g)
    then show ?thesis using r by blast
  next
    case (leave d l g)
    then show ?thesis using assms(2) by (auto simp: abandoned_def notify_leave_def Let_def)
  qed (use assms(2) in \<open>auto simp: abandoned_def group_add_task_def notify_error_def notify_lock_def split: if_splits\<close>)
qed

section \<open>Properties\<close>

text \<open>
  Claim C25. Waiting for a group is correct under every interleaving of the parent with fewer than \<open>2\<^sup>3\<^sup>2 - 1\<close> tasks. When \<open>coroc_group_sync\<close> returns, every
  task spawned into the group has left it and the answer is the number of tasks that reported a nonzero result; nobody
  calls \<open>vpu_ready\<close> on a parent that does not wait; and while the parent sleeps there is a task that can take its next step
  towards waking it, so the wake-up is never lost.
\<close>

theorem group_sync_correct:
  assumes "group_reachable T ret s" "finite T" "card T < 2 ^ 32 - 1"
  shows "(\<forall>c. child s c \<noteq> Broken) \<and>
    (\<forall>r. par s = Returned r \<longrightarrow> (\<forall>c. child s c \<notin> {Working, Counted}) \<and> r = of_nat (card {c. child s c \<noteq> Unborn \<and> ret c \<noteq> 0})) \<and>
    (par s = Sleeping \<longrightarrow> (\<exists>c. child s c \<notin> {Unborn, Finished, Broken, Waking None} \<and>
       (\<exists>s'. group_step T ret s s' \<and> child s' c \<noteq> child s c)))"
proof -
  have i: "counts_ok T ret s" "closing_ok s" "parent_ok s" using group_inv_reachable [OF assms] by (simp_all add: group_inv_def)
  have b: "\<forall>c. child s c \<noteq> Broken" using i(2) unfolding closing_ok_def by blast
  have "(\<forall>c. child s c \<notin> {Working, Counted}) \<and> r = of_nat (card {c. child s c \<noteq> Unborn \<and> ret c \<noteq> 0})" if "par s = Returned r" for r
  proof -
    have p: "present s = {}" "r = errors (grp s)" using i(3) that unfolding parent_ok_def by blast+
    then have n: "child s c \<notin> {Working, Counted}" for c by (auto simp: present_def)
    then have "failed ret s = {c. child s c \<noteq> Unborn \<and> ret c \<noteq> 0}" by (auto simp: failed_def)
    then show ?thesis using p(2) n i(1) by (simp add: counts_ok_def)
  qed
  moreover have "\<exists>c. child s c \<notin> {Unborn, Finished, Broken, Waking None} \<and> (\<exists>s'. group_step T ret s s' \<and> child s' c \<noteq> child s c)"
    if sl: "par s = Sleeping"
  proof -
    consider c where "c \<in> present s" | c where "closing (child s c)" "child s c \<noteq> Waking None"
      using i(3) sl unfolding parent_ok_def by auto
    then have "\<exists>c. child s c \<notin> {Unborn, Finished, Broken, Waking None}"
    proof cases
      case (1 c)
      then show ?thesis by (intro exI [of _ c]) (auto simp: present_def)
    next
      case (2 c)
      then show ?thesis by (intro exI [of _ c]) auto
    qed
    then obtain c where "child s c \<notin> {Unborn, Finished, Broken, Waking None}" by blast
    then show ?thesis using task_moves [of s c T ret] sleeping_lock [OF i(3) sl _ i(2), of c] by blast
  qed
  ultimately show ?thesis using b by blast
qed

text \<open>One task: it has failed and left, and the parent, which has the lock, finds the group empty and returns.\<close>

definition raced :: gsys where
  "raced = \<lparr>grp = \<lparr>count = 0, errors = 1, lock = True, parent = None\<rparr>, par = Checking, child = (\<lambda>c. Unborn)(0 := Last)\<rparr>"

definition left_behind :: gsys where
  "left_behind = \<lparr>grp = \<lparr>count = 0, errors = 1, lock = True, parent = None\<rparr>, par = Returned 1, child = (\<lambda>c. Unborn)(0 := Last)\<rparr>"

lemma raced_reachable: "group_reachable {0} (\<lambda>c. 1) raced"
proof -
  let ?step = "group_step {0} (\<lambda>c. 1)"
  let ?s = "\<lambda>n e l p x. \<lparr>grp = \<lparr>count = n, errors = e, lock = l, parent = None\<rparr>, par = p, child = (\<lambda>c. Unborn)(0 := x)\<rparr> :: gsys"
  have s0: "group_start = ?s 1 0 False Spawning Unborn"
    by (simp add: group_start_def group_alloc_def group_init_def fun_eq_iff)
  have 1: "?step (?s 1 0 False Spawning Unborn) (?s 2 0 False Spawning Working)"
    using group_step.spawn [of "?s 1 0 False Spawning Unborn" 0 "{0}" "\<lambda>c. 1"] by (simp add: set_child_def group_add_task_def)
  have 2: "?step (?s 2 0 False Spawning Working) (?s 2 1 False Spawning Counted)"
    using group_step.error [of "?s 2 0 False Spawning Working" 0 "{0}" "\<lambda>c. 1"] by (simp add: set_child_def notify_error_def)
  have 3: "?step (?s 2 1 False Spawning Counted) (?s 1 1 False Deciding Counted)"
    using group_step.sync [of "?s 2 1 False Spawning Counted" True _ "{0}" "\<lambda>c. 1"] by (simp add: sync_leave_def)
  have 4: "?step (?s 1 1 False Deciding Counted) (?s 0 1 False Deciding Last)"
    using group_step.leave [of "?s 1 1 False Deciding Counted" 0 True _ "{0}" "\<lambda>c. 1"] by (simp add: set_child_def notify_leave_def)
  have 5: "?step (?s 0 1 False Deciding Last) raced"
    using group_step.sync_lock [of "?s 0 1 False Deciding Last" _ "{0}" "\<lambda>c. 1"] by (simp add: notify_lock_def raced_def)
  from 1 2 3 4 5 show ?thesis unfolding group_reachable_def s0 by (meson converse_rtranclp_into_rtranclp rtranclp.rtrancl_refl)
qed

lemma left_behind_reachable: "group_reachable {0} (\<lambda>c. 1) left_behind"
proof -
  have "group_step {0} (\<lambda>c. 1) raced (raced\<lparr>par := Leaving\<rparr>)"
    using group_step.check [of raced False _ "{0}" "\<lambda>c. 1"] by (simp add: raced_def sync_check_def)
  moreover have "group_step {0} (\<lambda>c. 1) (raced\<lparr>par := Leaving\<rparr>) left_behind"
    using group_step.return [of "raced\<lparr>par := Leaving\<rparr>" "{0}" "\<lambda>c. 1"] by (simp add: raced_def left_behind_def)
  ultimately show ?thesis using raced_reachable unfolding group_reachable_def by (meson rtranclp.rtrancl_into_rtrancl)
qed

theorem group_sync_correct_witness:
  "(\<forall>c. child left_behind c \<noteq> Broken) \<and> (1 :: u32) = of_nat (card {c. child left_behind c \<noteq> Unborn \<and> (1 :: int) \<noteq> 0})"
  using group_sync_correct [OF left_behind_reachable] by (simp add: left_behind_def)

text \<open>
  On the branch where the group empties before it gets the lock, \<open>coroc_group_sync\<close> returns without releasing the lock. If the last
  task has left the group but not yet taken the lock to look for a sleeping parent, it waits for ever: in no later state does
  it go on, although the parent has returned and may free the group.
\<close>

theorem group_sync_keeps_lock:
  assumes "group_reachable T ret s" "finite T" "card T < 2 ^ 32 - 1"
    and "par s = Checking" "child s c = Last" "sync_check me (grp s) = (b, g)"
  shows "\<not> b \<and> (\<forall>s'. (group_step T ret)\<^sup>*\<^sup>* (s\<lparr>grp := g, par := if b then Suspending else Leaving\<rparr>) s' \<longrightarrow> child s' c = Last)"
proof -
  have i: "group_inv T ret s" by (rule group_inv_reachable [OF assms(1-3)])
  then have p: "present s = {}" "count (grp s) = 0" "lock (grp s)"
    using closingD(1) [of s c] assms(4,5) count_zero [OF _ assms(2,3)] unfolding group_inv_def by (auto simp: parent_ok_def)
  then have b: "\<not> b" "g = grp s" using assms(6) by (simp_all add: sync_check_def)
  let ?s = "s\<lparr>grp := g, par := if b then Suspending else Leaving\<rparr>"
  have inv: "group_inv T ret ?s"
    using group_inv_steps [OF r_into_rtranclp i assms(2,3)] group_step.check [OF assms(4,6)] by blast
  have "abandoned c s' \<and> group_inv T ret s'" if "(group_step T ret)\<^sup>*\<^sup>* ?s s'" for s'
    using that
  proof (induction rule: rtranclp_induct)
    case base
    then show ?case using inv b p(3) assms(5) by (simp add: abandoned_def)
  next
    case (step s1 s2)
    then show ?case
      using abandoned_step [OF step.hyps(2)] group_inv_steps [OF r_into_rtranclp [of "group_step T ret"] _ assms(2,3), of s1 s2]
      unfolding group_inv_def by blast
  qed
  then show ?thesis using b(1) by (auto simp: abandoned_def)
qed

theorem group_sync_keeps_lock_witness:
  "(group_step {0} (\<lambda>c. 1))\<^sup>*\<^sup>* (raced\<lparr>par := Leaving\<rparr>) left_behind \<and> child left_behind 0 = Last"
proof -
  have "(group_step {0} (\<lambda>c. 1))\<^sup>*\<^sup>* (raced\<lparr>par := Leaving\<rparr>) left_behind"
    using group_step.return [of "raced\<lparr>par := Leaving\<rparr>" "{0}" "\<lambda>c. 1"] by (intro r_into_rtranclp) (simp add: raced_def left_behind_def)
  moreover from this have "child left_behind 0 = Last"
    using group_sync_keeps_lock [OF raced_reachable, of 0 False "grp raced"] by (simp add: raced_def sync_check_def)
  ultimately show ?thesis by blast
qed

end
