(* ===== verification/Context.thy ===== *)
theory Context
  imports Vpu
begin

text \<open>
  The start of a coroutine (\<^verbatim>\<open>src/context.c\<close>). \<open>TSC_CONTEXT_INIT\<close> prepares a context whose first function, \<open>bootstrap\<close>, may only get
  \<open>int\<close> arguments, so the address of the coroutine is split into two 32-bit halves and put together again there. Saving,
  making and loading contexts is the C library's; a context is modelled by what the code stores in it.
\<close>

unbundle bit_operations_syntax

section \<open>Passing the address\<close>

definition low_half :: "u64 \<Rightarrow> u32" where
  "low_half tmp = ucast tmp"

definition high_half :: "u64 \<Rightarrow> u32" where
  "high_half tmp = ucast (drop_bit 16 (drop_bit 16 tmp))"

text \<open>The first shift of \<open>bootstrap\<close> is done at the width of \<open>high\<close>, 32 bits; only the second one at 64 bits.\<close>

definition join_halves :: "u32 \<Rightarrow> u32 \<Rightarrow> u64" where
  "join_halves low high =
     (let tmp = (ucast (push_bit 16 high) :: u64); tmp = push_bit 16 tmp in tmp OR ucast low)"

record context_t =
  ss_sp :: ptr
  ss_size :: nat
  sigmask_empty :: bool
  boot_args :: "u32 \<times> u32"

definition context_init :: "ptr \<Rightarrow> nat \<Rightarrow> u64 \<Rightarrow> context_t" where
  "context_init stack stack_sz coroutine =
     \<lparr>ss_sp = stack, ss_size = stack_sz, sigmask_empty = True, boot_args = (low_half coroutine, high_half coroutine)\<rparr>"

section \<open>Running the coroutine\<close>

text \<open>
  What the entry does is the program's: \<open>main\<close> for the main coroutine, called with the arguments of the process, \<open>entry\<close> for the
  others. Then the coroutine exits. The coroutine is looked up at the address that \<open>bootstrap\<close> put together.
\<close>

definition bootstrap ::
    "(ptr \<Rightarrow> sys \<Rightarrow> c_err + sys) \<Rightarrow> (ptr \<Rightarrow> ptr \<Rightarrow> sys \<Rightarrow> c_err + sys) \<Rightarrow> (addr \<Rightarrow> sys \<Rightarrow> c_err + sys) \<Rightarrow>
     nat \<Rightarrow> u32 \<times> u32 \<Rightarrow> sys \<Rightarrow> c_err + sys" where
  "bootstrap main entry cleanup v halves s =
     (let co = cos s (unat (join_halves (fst halves) (snd halves))) in
      andthen (if co_type co = MAIN then main (co_entry co) s else entry (co_entry co) (co_arguments co) s)
        (coroutine_exit cleanup v))"

section \<open>Lemmas\<close>

lemma join_split: "join_halves (low_half p) (high_half p) = take_bit 48 p"
  unfolding join_halves_def low_half_def high_half_def Let_def
  by (rule bit_word_eqI) (auto simp: bit_simps)

lemma join_split_iff: "join_halves (low_half p) (high_half p) = p \<longleftrightarrow> p < 2 ^ 48"
proof -
  have "take_bit 48 p = p \<longleftrightarrow> take_bit 48 (unat p) = unat p"
    by (metis unsigned_take_bit_eq unsigned_word_eqI)
  also have "\<dots> \<longleftrightarrow> unat p < 2 ^ 48" by (rule take_bit_nat_eq_self_iff)
  also have "\<dots> \<longleftrightarrow> p < 2 ^ 48" by (simp add: word_less_nat_alt)
  finally show ?thesis by (simp add: join_split)
qed

section \<open>Properties\<close>

text \<open>
  Claim C35. A new coroutine starts itself. For every address below \<open>2\<^sup>4\<^sup>8\<close>, that is every address of user space on x86-64, the context made for a
  coroutine runs the entry of that very coroutine, as \<open>main\<close> for the main coroutine and with its own arguments for the others, and then exits.
  The bound is exact: an address comes back unchanged from the two halves iff it is below \<open>2\<^sup>4\<^sup>8\<close>, because the first shift of \<open>bootstrap\<close>
  drops the upper half of \<open>high\<close>.
\<close>

theorem bootstrap_runs_entry:
  assumes "a < 2 ^ 48"
  shows "bootstrap main entry cleanup v (boot_args (context_init stack sz (of_nat a))) s =
      andthen (if co_type (cos s a) = MAIN then main (co_entry (cos s a)) s else entry (co_entry (cos s a)) (co_arguments (cos s a)) s)
        (coroutine_exit cleanup v) \<and>
    (join_halves (fst (boot_args (context_init stack sz p))) (snd (boot_args (context_init stack sz p))) = p \<longleftrightarrow> p < 2 ^ 48)"
proof -
  have u: "unat (of_nat a :: u64) = a" using assms by (simp add: unat_of_nat)
  then have "(of_nat a :: u64) < 2 ^ 48" using assms by (simp add: word_less_nat_alt)
  then have "unat (join_halves (low_half (of_nat a)) (high_half (of_nat a))) = a" using u by (simp add: iffD2 [OF join_split_iff])
  then show ?thesis by (simp add: bootstrap_def context_init_def join_split_iff Let_def)
qed

text \<open>The largest address that works, and the first one that does not.\<close>

theorem bootstrap_runs_entry_witness:
  "join_halves (fst (boot_args (context_init None 0 (2 ^ 48 - 1)))) (snd (boot_args (context_init None 0 (2 ^ 48 - 1)))) = 2 ^ 48 - 1 \<and>
   join_halves (fst (boot_args (context_init None 0 (2 ^ 48)))) (snd (boot_args (context_init None 0 (2 ^ 48)))) \<noteq> 2 ^ 48"
  using bootstrap_runs_entry [of 0 _ _ _ _ None 0 undefined "2 ^ 48 - 1"] bootstrap_runs_entry [of 0 _ _ _ _ None 0 undefined "2 ^ 48"] by simp

end
