(* ===== verification/Vfs.thy ===== *)
theory Vfs
  imports Prelude
begin

text \<open>
  The file system layer (\<^verbatim>\<open>src/vfs.c\<close>, \<^verbatim>\<open>include/inter/vfs.h\<close>). Every operation calls the function of a driver, at once when \<open>sync\<close> is set and otherwise
  through a request record that a thread of the asynchronous pool executes while the caller is suspended. A synchronous call
  returns; an asynchronous one hands over its request and, once it has been executed, reads the answer from it. Drivers are tables of
  functions on the state \<open>'w\<close> of the world, which the operating system and the users provide. \<open>int\<close> is a 32-bit word here and
  \<open>int64_t\<close>, \<open>size_t\<close>, \<open>ssize_t\<close> and \<open>off_t\<close> are 64-bit words, so that the conversions are those of C.
\<close>

section \<open>Drivers and requests\<close>

datatype ops_type = TSC_VFS_OPEN | TSC_VFS_CLOSE | TSC_VFS_READ | TSC_VFS_WRITE | TSC_VFS_LSEEK | TSC_VFS_FLUSH | TSC_VFS_IOCTL

record 'w vfs_driver =
  drv_open :: "(ptr \<Rightarrow> u32 \<Rightarrow> u32 \<Rightarrow> 'w \<Rightarrow> u32 \<times> 'w) option"
  drv_read :: "(u32 \<Rightarrow> ptr \<Rightarrow> u64 \<Rightarrow> 'w \<Rightarrow> u64 \<times> 'w) option"
  drv_write :: "(u32 \<Rightarrow> ptr \<Rightarrow> u64 \<Rightarrow> 'w \<Rightarrow> u64 \<times> 'w) option"
  drv_lseek :: "(u32 \<Rightarrow> u64 \<Rightarrow> u32 \<Rightarrow> 'w \<Rightarrow> u64 \<times> 'w) option"
  drv_flush :: "(u32 \<Rightarrow> 'w \<Rightarrow> 'w) option"
  drv_ioctl :: "(u32 \<Rightarrow> u32 \<Rightarrow> u32 \<Rightarrow> 'w \<Rightarrow> u32 \<times> 'w) option"
  drv_close :: "(u32 \<Rightarrow> 'w \<Rightarrow> u32 \<times> 'w) option"

record 'w vfs_ops =
  ops_fd :: u32
  ops_type :: ops_type
  ops_arg0 :: u64
  ops_arg1 :: u64
  ops_buf :: ptr
  ops_driver :: "'w vfs_driver"

text \<open>The default driver: the functions of the system, without \<open>flush\<close> and \<open>ioctl\<close>.\<close>

definition vfs_file_drv ::
    "(ptr \<Rightarrow> u32 \<Rightarrow> u32 \<Rightarrow> 'w \<Rightarrow> u32 \<times> 'w) \<Rightarrow> (u32 \<Rightarrow> ptr \<Rightarrow> u64 \<Rightarrow> 'w \<Rightarrow> u64 \<times> 'w) \<Rightarrow> (u32 \<Rightarrow> ptr \<Rightarrow> u64 \<Rightarrow> 'w \<Rightarrow> u64 \<times> 'w) \<Rightarrow>
     (u32 \<Rightarrow> u64 \<Rightarrow> u32 \<Rightarrow> 'w \<Rightarrow> u64 \<times> 'w) \<Rightarrow> (u32 \<Rightarrow> 'w \<Rightarrow> u32 \<times> 'w) \<Rightarrow> 'w vfs_driver" where
  "vfs_file_drv os_open os_read os_write os_lseek os_close =
     \<lparr>drv_open = Some os_open, drv_read = Some os_read, drv_write = Some os_write, drv_lseek = Some os_lseek,
      drv_flush = None, drv_ioctl = None, drv_close = Some os_close\<rparr>"

text \<open>Calling through a function pointer of the driver.\<close>

definition call_ptr :: "'f option \<Rightarrow> ('f \<Rightarrow> 'r) \<Rightarrow> c_err + 'r" where
  "call_ptr f k = (case f of None \<Rightarrow> Inl NullDeref | Some g \<Rightarrow> Inr (k g))"

definition to_int :: "u64 \<Rightarrow> u32" where "to_int x = ucast x"

definition of_int32 :: "u32 \<Rightarrow> u64" where "of_int32 x = scast x"

section \<open>The callback that executes a request\<close>

definition vfs_callback :: "'w vfs_ops \<Rightarrow> 'w \<Rightarrow> c_err + ('w vfs_ops \<times> 'w)" where
  "vfs_callback ops w = (let d = ops_driver ops in case ops_type ops of
       TSC_VFS_OPEN \<Rightarrow> andthen (call_ptr (drv_open d) (\<lambda>f. f (ops_buf ops) (to_int (ops_arg0 ops)) (to_int (ops_arg1 ops)) w))
         (\<lambda>(fd, w). Inr (ops\<lparr>ops_arg0 := of_int32 fd\<rparr>, w))
     | TSC_VFS_CLOSE \<Rightarrow> andthen (call_ptr (drv_close d) (\<lambda>f. f (ops_fd ops) w)) (\<lambda>(r, w). Inr (ops, w))
     | TSC_VFS_FLUSH \<Rightarrow> (case drv_flush d of None \<Rightarrow> Inr (ops, w) | Some f \<Rightarrow> Inr (ops, f (ops_fd ops) w))
     | TSC_VFS_READ \<Rightarrow> andthen (call_ptr (drv_read d) (\<lambda>f. f (ops_fd ops) (ops_buf ops) (ops_arg0 ops) w))
         (\<lambda>(sz, w). Inr (ops\<lparr>ops_arg0 := sz\<rparr>, w))
     | TSC_VFS_WRITE \<Rightarrow> andthen (call_ptr (drv_write d) (\<lambda>f. f (ops_fd ops) (ops_buf ops) (ops_arg0 ops) w))
         (\<lambda>(sz, w). Inr (ops\<lparr>ops_arg0 := sz\<rparr>, w))
     | TSC_VFS_LSEEK \<Rightarrow> (case drv_lseek d of
           None \<Rightarrow> Inl Uninit
         | Some f \<Rightarrow> (case f (ops_fd ops) (ops_arg0 ops) (to_int (ops_arg1 ops)) w of (off, w) \<Rightarrow> Inr (ops\<lparr>ops_arg0 := off\<rparr>, w)))
     | TSC_VFS_IOCTL \<Rightarrow> (case drv_ioctl d of
           None \<Rightarrow> Inr (ops\<lparr>ops_arg0 := of_int32 (- 1)\<rparr>, w)
         | Some f \<Rightarrow> (case f (ops_fd ops) (to_int (ops_arg0 ops)) (to_int (ops_arg1 ops)) w of
             (ret, w) \<Rightarrow> Inr (ops\<lparr>ops_arg0 := of_int32 ret\<rparr>, w))))"

definition vfs_init_ops :: "ops_type \<Rightarrow> u32 \<Rightarrow> u64 \<Rightarrow> u64 \<Rightarrow> ptr \<Rightarrow> 'w vfs_driver \<Rightarrow> 'w vfs_ops" where
  "vfs_init_ops ty fd arg0 arg1 buf drv =
     \<lparr>ops_fd = fd, ops_type = ty, ops_arg0 = arg0, ops_arg1 = arg1, ops_buf = buf, ops_driver = drv\<rparr>"

section \<open>The operations\<close>

text \<open>
  \<open>file\<close> is the default driver, used when \<open>drv\<close> is \<open>NULL\<close>. An asynchronous call ends in \<open>Submitted\<close> with the request it hands to the pool and the
  conversion of \<open>arg0\<close> it returns after the wake-up.
\<close>

datatype ('w, 'r) vfs_call = Done 'r 'w | Submitted "'w vfs_ops" "u64 \<Rightarrow> 'r"

definition the_drv :: "'w vfs_driver option \<Rightarrow> 'w vfs_driver \<Rightarrow> 'w vfs_driver" where
  "the_drv drv file = (case drv of None \<Rightarrow> file | Some d \<Rightarrow> d)"

definition O_CREAT :: u32 where "O_CREAT = 64"

text \<open>The variable argument \<open>mode\<close> is only read when the flags ask for it; \<open>0644\<close> otherwise.\<close>

definition vfs_open ::
    "'w vfs_driver \<Rightarrow> 'w vfs_driver option \<Rightarrow> bool \<Rightarrow> ptr \<Rightarrow> u32 \<Rightarrow> u32 \<Rightarrow> 'w \<Rightarrow> c_err + ('w, u32) vfs_call" where
  "vfs_open file drv sync name flags vararg w = (let d = the_drv drv file;
       mode = (if and flags O_CREAT \<noteq> 0 then vararg else 420) in
     if sync then andthen (call_ptr (drv_open d) (\<lambda>f. f name flags mode w)) (\<lambda>(r, w). Inr (Done r w))
     else Inr (Submitted (vfs_init_ops TSC_VFS_OPEN 0 (of_int32 flags) (ucast mode) name d) to_int))"

definition vfs_close :: "'w vfs_driver \<Rightarrow> 'w vfs_driver option \<Rightarrow> bool \<Rightarrow> u32 \<Rightarrow> 'w \<Rightarrow> c_err + ('w, u32) vfs_call" where
  "vfs_close file drv sync fd w = (let d = the_drv drv file in
     if sync then andthen (call_ptr (drv_close d) (\<lambda>f. f fd w)) (\<lambda>(r, w). Inr (Done r w))
     else Inr (Submitted (vfs_init_ops TSC_VFS_CLOSE fd 0 0 None d) to_int))"

text \<open>A driver without \<open>flush\<close> is not called, but the request is submitted all the same, synchronous or not.\<close>

definition vfs_flush :: "'w vfs_driver \<Rightarrow> 'w vfs_driver option \<Rightarrow> bool \<Rightarrow> u32 \<Rightarrow> 'w \<Rightarrow> c_err + ('w, unit) vfs_call" where
  "vfs_flush file drv sync fd w = (let d = the_drv drv file in
     case (if sync then drv_flush d else None) of
       Some f \<Rightarrow> Inr (Done () (f fd w))
     | None \<Rightarrow> Inr (Submitted (vfs_init_ops TSC_VFS_FLUSH fd 0 0 None d) (\<lambda>_. ())))"

definition vfs_read :: "'w vfs_driver \<Rightarrow> 'w vfs_driver option \<Rightarrow> bool \<Rightarrow> u32 \<Rightarrow> ptr \<Rightarrow> u64 \<Rightarrow> 'w \<Rightarrow> c_err + ('w, u64) vfs_call" where
  "vfs_read file drv sync fd buf sz w = (let d = the_drv drv file in
     if sync then andthen (call_ptr (drv_read d) (\<lambda>f. f fd buf sz w)) (\<lambda>(r, w). Inr (Done r w))
     else Inr (Submitted (vfs_init_ops TSC_VFS_READ fd sz 0 buf d) id))"

definition vfs_write :: "'w vfs_driver \<Rightarrow> 'w vfs_driver option \<Rightarrow> bool \<Rightarrow> u32 \<Rightarrow> ptr \<Rightarrow> u64 \<Rightarrow> 'w \<Rightarrow> c_err + ('w, u64) vfs_call" where
  "vfs_write file drv sync fd buf sz w = (let d = the_drv drv file in
     if sync then andthen (call_ptr (drv_write d) (\<lambda>f. f fd buf sz w)) (\<lambda>(r, w). Inr (Done r w))
     else Inr (Submitted (vfs_init_ops TSC_VFS_WRITE fd sz 0 buf d) id))"

definition vfs_lseek :: "'w vfs_driver \<Rightarrow> 'w vfs_driver option \<Rightarrow> bool \<Rightarrow> u32 \<Rightarrow> u64 \<Rightarrow> u32 \<Rightarrow> 'w \<Rightarrow> c_err + ('w, u64) vfs_call" where
  "vfs_lseek file drv sync fd offset whence w = (let d = the_drv drv file in
     if sync then (case drv_lseek d of
         None \<Rightarrow> Inr (Done (- 1) w)
       | Some f \<Rightarrow> (case f fd offset whence w of (r, w) \<Rightarrow> Inr (Done r w)))
     else Inr (Submitted (vfs_init_ops TSC_VFS_LSEEK fd offset (of_int32 whence) None d) id))"

definition vfs_ioctl :: "'w vfs_driver \<Rightarrow> 'w vfs_driver option \<Rightarrow> bool \<Rightarrow> u32 \<Rightarrow> u32 \<Rightarrow> u32 \<Rightarrow> 'w \<Rightarrow> c_err + ('w, u32) vfs_call" where
  "vfs_ioctl file drv sync fd cmd option w = (let d = the_drv drv file in
     if sync then (case drv_ioctl d of
         None \<Rightarrow> Inr (Done (- 1) w)
       | Some f \<Rightarrow> (case f fd cmd option w of (r, w) \<Rightarrow> Inr (Done r w)))
     else Inr (Submitted (vfs_init_ops TSC_VFS_IOCTL fd (of_int32 cmd) (of_int32 option) None d) to_int))"

text \<open>A call to its end: an asynchronous one continues when its request has been executed.\<close>

definition completed :: "(c_err + ('w, 'r) vfs_call) \<Rightarrow> 'w \<Rightarrow> c_err + ('r \<times> 'w)" where
  "completed c w = andthen c (\<lambda>c. case c of
       Done r w \<Rightarrow> Inr (r, w)
     | Submitted ops ret \<Rightarrow> andthen (vfs_callback ops w) (\<lambda>(ops, w). Inr (ret (ops_arg0 ops), w)))"

section \<open>Lemmas\<close>

lemma int_roundtrip [simp]: "to_int (of_int32 x) = x" "to_int (ucast x) = x"
  unfolding to_int_def of_int32_def by (auto intro!: bit_word_eqI simp: bit_simps)

lemma to_int_literals [simp]: "to_int 420 = 420" "to_int 0 = 0"
  by (simp_all add: to_int_def)

lemmas vfs_ops_defs = vfs_open_def vfs_close_def vfs_flush_def vfs_read_def vfs_write_def vfs_lseek_def vfs_ioctl_def

lemma completed_Done [simp]: "completed (Inr (Done r w')) w = Inr (r, w')"
  by (simp add: completed_def)

lemma completed_Inl [simp]: "completed (Inl e) w = Inl e"
  by (simp add: completed_def)

lemma completed_Submitted:
  "completed (Inr (Submitted ops ret)) w = andthen (vfs_callback ops w) (\<lambda>(ops, w). Inr (ret (ops_arg0 ops), w))"
  by (simp add: completed_def)

section \<open>Properties\<close>

text \<open>
  Calling through the pool gives what calling directly gives: for opening, reading, writing, flushing, controlling and, when the driver can seek,
  seeking, the asynchronous call ends with the same answer, the same state of the world and the same failure as the
  synchronous one, whatever the arguments and the driver; no conversion between \<open>int\<close> and \<open>int64_t\<close> on the way through the
  request changes a value. Closing has the same effect, but its asynchronous form answers \<open>0\<close> whatever the driver answered.
\<close>

theorem vfs_async_agrees:
  assumes "drv_lseek (the_drv drv file) \<noteq> None"
  shows "completed (vfs_open file drv False name flags mode w) w = completed (vfs_open file drv True name flags mode w) w \<and>
    completed (vfs_read file drv False fd buf sz w) w = completed (vfs_read file drv True fd buf sz w) w \<and>
    completed (vfs_write file drv False fd buf sz w) w = completed (vfs_write file drv True fd buf sz w) w \<and>
    completed (vfs_flush file drv False fd w) w = completed (vfs_flush file drv True fd w) w \<and>
    completed (vfs_ioctl file drv False fd cmd opt w) w = completed (vfs_ioctl file drv True fd cmd opt w) w \<and>
    completed (vfs_lseek file drv False fd off whence w) w = completed (vfs_lseek file drv True fd off whence w) w \<and>
    completed (vfs_close file drv False fd w) w = andthen (completed (vfs_close file drv True fd w) w) (\<lambda>(r, w'). Inr (0, w'))"
proof (intro conjI)
  note defs = vfs_ops_defs completed_Submitted vfs_callback_def vfs_init_ops_def call_ptr_def Let_def
  show "completed (vfs_open file drv False name flags mode w) w = completed (vfs_open file drv True name flags mode w) w"
    by (simp add: defs split: option.split prod.split)
  show "completed (vfs_read file drv False fd buf sz w) w = completed (vfs_read file drv True fd buf sz w) w"
    by (simp add: defs split: option.split prod.split)
  show "completed (vfs_write file drv False fd buf sz w) w = completed (vfs_write file drv True fd buf sz w) w"
    by (simp add: defs split: option.split prod.split)
  show "completed (vfs_flush file drv False fd w) w = completed (vfs_flush file drv True fd w) w"
    by (simp add: defs split: option.split)
  show "completed (vfs_ioctl file drv False fd cmd opt w) w = completed (vfs_ioctl file drv True fd cmd opt w) w"
    by (simp add: defs split: option.split prod.split)
  show "completed (vfs_lseek file drv False fd off whence w) w = completed (vfs_lseek file drv True fd off whence w) w"
    using assms by (simp add: defs split: option.split prod.split)
  show "completed (vfs_close file drv False fd w) w = andthen (completed (vfs_close file drv True fd w) w) (\<lambda>(r, w'). Inr (0, w'))"
    by (simp add: defs split: option.split prod.split)
qed

text \<open>A driver on a world that counts the calls: every read answers the size it was asked for, every close fails.\<close>

definition counting_drv :: "nat vfs_driver" where
  "counting_drv = vfs_file_drv (\<lambda>n f m w. (3, Suc w)) (\<lambda>fd b sz w. (sz, Suc w)) (\<lambda>fd b sz w. (sz, Suc w)) (\<lambda>fd off wh w. (off, Suc w))
     (\<lambda>fd w. (- 1, Suc w))"

theorem vfs_async_agrees_witness:
  "completed (vfs_read counting_drv None False 3 (Some 9) 100 5) 5 = Inr (100, 6) \<and>
   completed (vfs_close counting_drv None True 3 5) 5 = Inr (- 1, 6) \<and> completed (vfs_close counting_drv None False 3 5) 5 = Inr (0, 6)"
proof -
  have "drv_lseek (the_drv None counting_drv) \<noteq> None" by (simp add: the_drv_def counting_drv_def vfs_file_drv_def)
  from vfs_async_agrees [OF this, of _ _ _ 5 3 "Some 9" 100] show ?thesis
    by (simp add: vfs_read_def [of _ _ True] vfs_close_def [of _ _ True] call_ptr_def the_drv_def counting_drv_def vfs_file_drv_def)
qed

end
