(* ===== verification/Netpoll_Poll.thy ===== *)
theory Netpoll_Poll
  imports Netpoll
begin

text \<open>
  The back end for systems with only \<open>poll\<close> (\<^verbatim>\<open>src/netpoll_poll.c\<close>). The registered descriptors are in a table, which \<open>poll\<close> gets as an
  array; a descriptor that is woken is taken out by moving the last one into its place, while the loop over the table is still
  running. What \<open>poll\<close> answers is an argument: \<open>None\<close> for nothing or an error, otherwise the event bits of each place. The field \<open>id\<close> of a
  descriptor, which only this back end uses, is kept with the table.
\<close>

unbundle bit_operations_syntax

section \<open>The table\<close>

record pollfd =
  pfd_fd :: int
  pfd_events :: u32
  pfd_revents :: u32

record poll_mgr =
  pm_cap :: nat
  pm_size :: nat
  pm_fds :: "pollfd list"
  pm_table :: "addr list"
  pm_ids :: "addr \<Rightarrow> nat"
  pm_mutex :: bool

definition no_pollfd :: pollfd where
  "no_pollfd = \<lparr>pfd_fd = 0, pfd_events = 0, pfd_revents = 0\<rparr>"

text \<open>Fresh memory is filled with arbitrary values; the code never reads a place before it has written it.\<close>

definition poll_init :: "nat \<Rightarrow> poll_mgr" where
  "poll_init n = \<lparr>pm_cap = n, pm_size = 0, pm_fds = replicate n no_pollfd, pm_table = replicate n 0, pm_ids = (\<lambda>d. 0), pm_mutex = False\<rparr>"

definition poll_grow :: "poll_mgr \<Rightarrow> poll_mgr" where
  "poll_grow m = (if pm_size m = pm_cap m
     then m\<lparr>pm_cap := pm_cap m * 2, pm_fds := pm_fds m @ replicate (pm_cap m) no_pollfd, pm_table := pm_table m @ replicate (pm_cap m) 0\<rparr>
     else m)"

definition poll_want :: "u32 \<Rightarrow> u32" where
  "poll_want mode = (let ev = 0;
       ev = (if mode AND TSC_NETPOLL_READ \<noteq> 0 then ev OR EPOLLIN else ev) in
     if mode AND TSC_NETPOLL_WRITE \<noteq> 0 then ev OR EPOLLOUT else ev)"

definition poll_add :: "addr \<Rightarrow> sys \<Rightarrow> poll_mgr \<Rightarrow> c_err + poll_mgr" where
  "poll_add d s m = (if pm_mutex m then Inl SelfDeadlock else
     (let m = poll_grow m; n = pm_size m in
      Inr (m\<lparr>pm_table := (pm_table m)[n := d], pm_ids := (pm_ids m)(d := n),
        pm_fds := (pm_fds m)[n := \<lparr>pfd_fd = pd_fd (descs s d), pfd_events = poll_want (pd_mode (descs s d)), pfd_revents = 0\<rparr>],
        pm_size := Suc n\<rparr>)))"

definition poll_rem :: "addr \<Rightarrow> poll_mgr \<Rightarrow> poll_mgr" where
  "poll_rem d m = (let i = pm_ids m d; last = pm_size m - 1; e = pm_table m ! last in
     m\<lparr>pm_fds := (pm_fds m)[i := pm_fds m ! last], pm_table := (pm_table m)[i := e], pm_ids := (pm_ids m)(e := i), pm_size := last\<rparr>)"

text \<open>\<open>coroc_netpoll_wakeup\<close> on this back end.\<close>

definition poll_wakeup :: "nat option \<Rightarrow> addr \<Rightarrow> poll_mgr \<times> sys \<Rightarrow> c_err + (poll_mgr \<times> sys)" where
  "poll_wakeup vo d = (\<lambda>(m, s). andthen (lock_acquire_at d s)
     (\<lambda>s. let m = poll_rem d m; s = lock_release_at d s in
        case pd_wait (descs s d) of
          None \<Rightarrow> Inl AssertFail
        | Some w \<Rightarrow> andthen (vpu_ready vo w False s) (\<lambda>s. Inr (m, s))))"

text \<open>
  The loop of \<open>__coroc_netpoll_polling\<close>: \<open>k\<close> places are left, the next one is \<open>i\<close>. The bits of \<open>poll\<close> have the values of those of \<open>epoll\<close>, and
  the branches are the same.
\<close>

fun poll_loop :: "nat option \<Rightarrow> nat \<Rightarrow> nat \<Rightarrow> u32 \<Rightarrow> poll_mgr \<times> sys \<Rightarrow> c_err + (poll_mgr \<times> sys)" where
  "poll_loop vo 0 i mode (m, s) = Inr (m, s)"
| "poll_loop vo (Suc k) i mode (m, s) =
     (let d = pm_table m ! i in
      if pd_done (descs s d) then poll_loop vo k (Suc i) mode (m, s)
      else
        (let s = upd_desc d (\<lambda>r. r\<lparr>pd_done := True\<rparr>) s;
             mode = event_mode mode (pd_mode (descs s d)) (pfd_revents (pm_fds m ! i));
             s = upd_desc d (\<lambda>r. r\<lparr>pd_mode := mode\<rparr>) s in
         andthen (poll_wakeup vo d (m, s)) (poll_loop vo k (Suc i) mode)))"

definition set_revents :: "u32 list \<Rightarrow> poll_mgr \<Rightarrow> poll_mgr" where
  "set_revents revs m = m\<lparr>pm_fds := map (\<lambda>i. if i < length revs then (pm_fds m ! i)\<lparr>pfd_revents := revs ! i\<rparr> else pm_fds m ! i)
     [0..<length (pm_fds m)]\<rparr>"

definition poll_polling :: "nat option \<Rightarrow> u32 list option \<Rightarrow> poll_mgr \<times> sys \<Rightarrow> c_err + (bool \<times> poll_mgr \<times> sys)" where
  "poll_polling vo answer = (\<lambda>(m, s).
     if pm_size m = 0 then Inr (False, m, s)
     else (case answer of
         None \<Rightarrow> Inr (False, m, s)
       | Some revs \<Rightarrow>
           let n = pm_size m; m = set_revents revs m in
           if pm_mutex m then Inl SelfDeadlock
           else andthen (poll_loop vo n 0 0 (m\<lparr>pm_mutex := True\<rparr>, s)) (\<lambda>(m, s). Inr (True, m\<lparr>pm_mutex := False\<rparr>, s))))"

section \<open>The table is well-formed\<close>

definition registered :: "poll_mgr \<Rightarrow> addr list" where
  "registered m = take (pm_size m) (pm_table m)"

definition pm_ok :: "poll_mgr \<Rightarrow> bool" where
  "pm_ok m \<longleftrightarrow> 0 < pm_cap m \<and> length (pm_table m) = pm_cap m \<and> length (pm_fds m) = pm_cap m \<and> pm_size m \<le> pm_cap m \<and>
     distinct (registered m) \<and> (\<forall>i<pm_size m. pm_ids m (pm_table m ! i) = i)"

lemma length_registered [simp]: "pm_ok m \<Longrightarrow> length (registered m) = pm_size m"
  by (simp add: registered_def pm_ok_def)

lemma nth_registered [simp]: "i < pm_size m \<Longrightarrow> registered m ! i = pm_table m ! i"
  by (simp add: registered_def)

lemma poll_init_ok: "0 < n \<Longrightarrow> pm_ok (poll_init n)"
  by (simp add: pm_ok_def poll_init_def registered_def)

lemma poll_grow_ok: "pm_ok m \<Longrightarrow> pm_ok (poll_grow m) \<and> registered (poll_grow m) = registered m \<and> pm_size (poll_grow m) < pm_cap (poll_grow m) \<and>
    pm_mutex (poll_grow m) = pm_mutex m \<and> pm_size (poll_grow m) = pm_size m"
  by (auto simp: pm_ok_def poll_grow_def registered_def nth_append)

lemma poll_add_ok:
  assumes "pm_ok m" "\<not> pm_mutex m" "d \<notin> set (registered m)"
  obtains m' where "poll_add d s m = Inr m'" "pm_ok m'" "registered m' = registered m @ [d]" "\<not> pm_mutex m'"
proof -
  let ?g = "poll_grow m"
  note g = poll_grow_ok [OF assms(1)]
  have t: "take (Suc (pm_size ?g)) ((pm_table ?g)[pm_size ?g := d]) = registered m @ [d]"
    using g by (auto simp: pm_ok_def registered_def take_Suc_conv_app_nth)
  have "pm_table ?g ! i \<noteq> d" if "i < pm_size ?g" for i
    using assms(3) g that by (metis length_registered nth_mem nth_registered)
  then show ?thesis using g t assms(2,3) 
    by (intro that [of "the (case poll_add d s m of Inr m' \<Rightarrow> Some m' | _ \<Rightarrow> None)"])
       (auto simp: poll_add_def Let_def pm_ok_def registered_def nth_list_update less_Suc_eq)
qed

text \<open>Removing from a list by moving the last element.\<close>

lemma swap_remove:
  assumes "distinct xs" "k < length xs"
  shows "distinct (butlast (xs[k := last xs])) \<and> set (butlast (xs[k := last xs])) = set xs - {xs ! k}"
proof (cases xs rule: rev_cases)
  case (snoc ys z)
  show ?thesis
  proof (cases "k = length ys")
    case True
    then show ?thesis using snoc assms(1) by simp
  next
    case False
    then have "k < length ys" using snoc assms(2) by simp
    then show ?thesis using snoc assms(1) by (auto simp: list_update_append nth_append set_update_distinct intro: distinct_list_update)
  qed
qed (use assms in simp)

text \<open>Removing a registered descriptor moves the last one into its place and touches no other place.\<close>

lemma poll_rem_ok:
  assumes "pm_ok m" "d \<in> set (registered m)"
  shows "pm_ok (poll_rem d m)" "set (registered (poll_rem d m)) = set (registered m) - {d}"
    "pm_ids m d < pm_size m" "pm_table m ! pm_ids m d = d"
proof -
  obtain k where k: "k < pm_size m" "pm_table m ! k = d" using assms by (metis in_set_conv_nth length_registered nth_registered)
  then have id: "pm_ids m d = k" using assms(1) by (auto simp: pm_ok_def)
  then show "pm_ids m d < pm_size m" "pm_table m ! pm_ids m d = d" using k by simp_all
  have "registered m \<noteq> []" using k(1) length_registered [OF assms(1)] by auto
  then have ne: "pm_table m ! (pm_size m - 1) = last (registered m)"
    using k assms(1) last_conv_nth [of "registered m"] length_registered [OF assms(1)] nth_registered [of "pm_size m - 1" m] by auto
  have "registered (poll_rem d m) = butlast ((registered m)[k := last (registered m)])"
    using k assms(1) ne id by (simp add: registered_def poll_rem_def Let_def pm_ok_def butlast_take take_update_swap [symmetric])
  with swap_remove [of "registered m" k] assms(1) k
  have r: "distinct (registered (poll_rem d m))" "set (registered (poll_rem d m)) = set (registered m) - {d}"
    by (auto simp: pm_ok_def registered_def)
  then show "set (registered (poll_rem d m)) = set (registered m) - {d}" by simp
  have ids: "pm_ids (poll_rem d m) (pm_table (poll_rem d m) ! i) = i" if "i < pm_size m - 1" for i
  proof (cases "i = k")
    case True
    then show ?thesis using k assms(1) id by (simp add: poll_rem_def Let_def pm_ok_def)
  next
    case False
    have "pm_table m ! i \<noteq> pm_table m ! (pm_size m - 1)"
      using assms(1) that nth_eq_iff_index_eq [of "registered m" i "pm_size m - 1"] by (auto simp: pm_ok_def registered_def)
    then show ?thesis using False k assms(1) id that by (simp add: poll_rem_def Let_def pm_ok_def)
  qed
  then show "pm_ok (poll_rem d m)" using assms(1) r(1) by (auto simp: pm_ok_def poll_rem_def Let_def)
qed

section \<open>The loop against the table it started with\<close>

text \<open>The reference: wake the waiters of a fixed list of descriptors with their events, one after the other.\<close>

fun wake_each :: "nat option \<Rightarrow> (addr \<times> u32) list \<Rightarrow> u32 \<Rightarrow> sys \<Rightarrow> c_err + sys" where
  "wake_each vo [] mode s = Inr s"
| "wake_each vo ((d, ev) # evs) mode s =
     (if pd_done (descs s d) then wake_each vo evs mode s
      else
        (let mode = event_mode mode (pd_mode (descs s d)) ev;
             s = upd_desc d (\<lambda>r. r\<lparr>pd_done := True, pd_mode := mode\<rparr>) s in
         if locks s d then Inl SelfDeadlock
         else (case pd_wait (descs s d) of
             None \<Rightarrow> Inl AssertFail
           | Some w \<Rightarrow> andthen (vpu_ready vo w False s) (wake_each vo evs mode))))"

lemma upd_desc_twice: "upd_desc d f (upd_desc d g s) = upd_desc d (f \<circ> g) s"
  by (simp add: upd_desc_def)

lemma upd_desc_sel [simp]: "descs (upd_desc d f s) e = (if e = d then f (descs s d) else descs s e)" "locks (upd_desc d f s) = locks s"
  by (simp_all add: upd_desc_def)

lemma release_acquired_at: "\<not> locks s d \<Longrightarrow> lock_release_at d (s\<lparr>locks := (locks s)(d := True)\<rparr>) = s"
  by (simp add: lock_release_at_def fun_upd_idem)

lemma poll_wakeup_eq:
  "poll_wakeup vo d (m, s) = (if locks s d then Inl SelfDeadlock else case pd_wait (descs s d) of
     None \<Rightarrow> Inl AssertFail | Some w \<Rightarrow> andthen (vpu_ready vo w False s) (\<lambda>s. Inr (poll_rem d m, s)))"
  by (simp add: poll_wakeup_def lock_acquire_at_def release_acquired_at Let_def split: option.split)

text \<open>The descriptors that the pass will wake.\<close>

definition to_wake :: "sys \<Rightarrow> addr list \<Rightarrow> addr set" where
  "to_wake s ds = {d \<in> set ds. \<not> pd_done (descs s d)}"

text \<open>A descriptor that the loop finds at a place is registered there or, moved, at an earlier one.\<close>

lemma place_before:
  assumes "pm_ok m" "d \<in> set (registered m)" "pm_table m ! i = d"
  shows "pm_ids m d \<le> i"
proof (cases "i < pm_size m")
  case True
  then show ?thesis using assms(1,3) by (auto simp: pm_ok_def)
next
  case False
  then show ?thesis using poll_rem_ok(3) [OF assms(1,2)] by simp
qed

lemma poll_rem_later:
  assumes "pm_ids m d \<le> i" "i < j"
  shows "pm_table (poll_rem d m) ! j = pm_table m ! j" "pm_fds (poll_rem d m) ! j = pm_fds m ! j"
  using assms by (simp_all add: poll_rem_def Let_def)

lemma poll_rem_sel [simp]: "pm_cap (poll_rem d m) = pm_cap m" "pm_size (poll_rem d m) = pm_size m - 1" "pm_mutex (poll_rem d m) = pm_mutex m"
  by (simp_all add: poll_rem_def Let_def)

lemma poll_loop_wakes_each:
  assumes "pm_ok m" "distinct ds" "length evs = length ds" "i + length ds \<le> pm_cap m" "pm_size m \<le> i + length ds"
    and "\<forall>j<length ds. pm_table m ! (i + j) = ds ! j \<and> pfd_revents (pm_fds m ! (i + j)) = evs ! j"
    and "to_wake s ds \<subseteq> set (registered m)"
  shows "\<exists>m'. poll_loop vo (length ds) i mode (m, s) = andthen (wake_each vo (zip ds evs) mode s) (\<lambda>s'. Inr (m', s')) \<and>
     (\<forall>s'. wake_each vo (zip ds evs) mode s = Inr s' \<longrightarrow>
        pm_ok m' \<and> set (registered m') = set (registered m) - to_wake s ds \<and> pm_mutex m' = pm_mutex m)"
  using assms
proof (induction ds arbitrary: evs i mode m s)
  case Nil
  then show ?case by (auto simp: to_wake_def)
next
  case (Cons d ds)
  obtain ev evs' where evs: "evs = ev # evs'" using Cons.prems(3) by (cases evs) auto
  have here: "pm_table m ! i = d" "pfd_revents (pm_fds m ! i) = ev" using Cons.prems(6) evs by force+
  have rest: "\<forall>j<length ds. pm_table m ! (Suc i + j) = ds ! j \<and> pfd_revents (pm_fds m ! (Suc i + j)) = evs' ! j"
    using Cons.prems(6) evs by force
  have len: "length evs' = length ds" "Suc i + length ds \<le> pm_cap m" "pm_size m \<le> Suc i + length ds" "distinct ds" "d \<notin> set ds"
    using Cons.prems(2-5) evs by auto
  show ?case
  proof (cases "pd_done (descs s d)")
    case True
    then have w: "to_wake s (d # ds) = to_wake s ds" by (auto simp: to_wake_def)
    from Cons.IH [OF Cons.prems(1) len(4,1-3) rest, of s mode] Cons.prems(7) show ?thesis
      using True here evs w by (simp add: Let_def)
  next
    case False
    define mode' where "mode' = event_mode mode (pd_mode (descs s d)) ev"
    define s1 where "s1 = upd_desc d (\<lambda>r. r\<lparr>pd_done := True, pd_mode := mode'\<rparr>) s"
    have reg: "d \<in> set (registered m)" using Cons.prems(7) False by (auto simp: to_wake_def)
    note rem = poll_rem_ok [OF Cons.prems(1) reg]
    have le: "pm_ids m d \<le> i" by (rule place_before [OF Cons.prems(1) reg here(1)])
    have loop: "poll_loop vo (length (d # ds)) i mode (m, s) = andthen (poll_wakeup vo d (m, s1)) (poll_loop vo (length ds) (Suc i) mode')"
      using False here by (simp add: Let_def upd_desc_twice o_def s1_def mode'_def)
    show ?thesis
    proof (cases "\<not> locks s d \<and> (\<exists>w s2. pd_wait (descs s d) = Some w \<and> vpu_ready vo w False s1 = Inr s2)")
      case True
      then obtain w s2 where s2: "\<not> locks s d" "pd_wait (descs s d) = Some w" "vpu_ready vo w False s1 = Inr s2" by blast
      have d2: "descs s2 e = descs s e" if "e \<noteq> d" for e using vpu_ready_frame [OF s2(3)] that by (simp add: s1_def)
      have tw: "to_wake s2 ds = to_wake s ds" "to_wake s (d # ds) = insert d (to_wake s ds)" "d \<notin> to_wake s ds"
        using len(5) d2 False by (auto simp: to_wake_def) (metis+)
      have r: "\<forall>j<length ds. pm_table (poll_rem d m) ! (Suc i + j) = ds ! j \<and> pfd_revents (pm_fds (poll_rem d m) ! (Suc i + j)) = evs' ! j"
        using rest poll_rem_later [OF le] by simp
      have "to_wake s2 ds \<subseteq> set (registered (poll_rem d m))" using Cons.prems(7) tw rem(2) by auto
      moreover have "Suc i + length ds \<le> pm_cap (poll_rem d m)" "pm_size (poll_rem d m) \<le> Suc i + length ds" using len(2,3) by simp_all
      ultimately obtain m' where
        m': "poll_loop vo (length ds) (Suc i) mode' (poll_rem d m, s2) = andthen (wake_each vo (zip ds evs') mode' s2) (\<lambda>s'. Inr (m', s'))"
        "\<forall>s'. wake_each vo (zip ds evs') mode' s2 = Inr s' \<longrightarrow>
           pm_ok m' \<and> set (registered m') = set (registered (poll_rem d m)) - to_wake s2 ds \<and> pm_mutex m' = pm_mutex m"
        using Cons.IH [OF rem(1) len(4,1) _ _ r, of s2 mode'] by auto
      have "wake_each vo (zip (d # ds) evs) mode s = wake_each vo (zip ds evs') mode' s2"
        using False s2 evs by (simp add: Let_def s1_def mode'_def)
      then show ?thesis using loop m' s2 tw rem(2) by (auto simp: poll_wakeup_eq s1_def)
    next
      case False
      then show ?thesis using loop evs \<open>\<not> pd_done (descs s d)\<close>
        by (cases "vpu_ready vo (the (pd_wait (descs s d))) False s1")
           (auto simp: poll_wakeup_eq s1_def mode'_def Let_def split: option.splits)
    qed
  qed
qed

section \<open>The two back ends\<close>

text \<open>The state without what only the \<open>epoll\<close> back end keeps, its counts of references and of registered descriptors.\<close>

definition uncounted :: "refmem \<Rightarrow> sys \<Rightarrow> sys" where
  "uncounted r s = s\<lparr>rmem := r, num_op := 0\<rparr>"

definition strip :: "refmem \<Rightarrow> c_err + sys \<Rightarrow> c_err + sys" where
  "strip r x = andthen x (\<lambda>s. Inr (uncounted r s))"

lemma strip_simps [simp]: "strip r (Inl e) = Inl e" "strip r (Inr s) = Inr (uncounted r s)"
  by (simp_all add: strip_def)

lemma uncounted_sel [simp]:
  "descs (uncounted r s) = descs s" "locks (uncounted r s) = locks s" "cos (uncounted r s) = cos s" "xt_index (uncounted r s) = xt_index s"
  "uncounted r (upd_desc d f s) = upd_desc d f (uncounted r s)" "uncounted r (netpoll_rem d s) = uncounted r s"
  by (simp_all add: uncounted_def upd_desc_def netpoll_rem_def)

lemma uncounted_moves:
  "upd_co t f (uncounted r s) = uncounted r (upd_co t f s)" "inc_ready p (uncounted r s) = uncounted r (inc_ready p s)"
  "(uncounted r s)\<lparr>total_iowait := k\<rparr> = uncounted r (s\<lparr>total_iowait := k\<rparr>)" "total_iowait (uncounted r s) = total_iowait s"
  "vpu_wakeup_one (uncounted r s) = uncounted r (vpu_wakeup_one s)"
  by (simp_all add: uncounted_def sched_simps vpu_wakeup_one_def)

lemma enqueue_uncounted: "enqueue vo w p (uncounted r s) = strip r (enqueue vo w p s)"
  by (cases "runqput (xt (vpus s (the vo)) p) w (gxt s p)")
     (auto simp: enqueue_def uncounted_def sched_simps split: option.split)

lemma vpu_ready_uncounted: "vpu_ready vo w False (uncounted r s) = strip r (vpu_ready vo w False s)"
  by (cases "enqueue vo w (co_prio (cos s w)) (upd_co w (\<lambda>c. c\<lparr>co_status := READY\<rparr>) s)")
     (simp_all add: vpu_ready_plain uncounted_moves enqueue_uncounted Let_def)

lemma netpoll_wakeup_uncounted:
  "strip r (netpoll_wakeup vo d s) = (if locks s d then Inl SelfDeadlock else case pd_wait (descs s d) of
     None \<Rightarrow> Inl AssertFail | Some w \<Rightarrow> vpu_ready vo w False (uncounted r s))"
proof -
  have "uncounted r (lock_release_at d (netpoll_rem d (s\<lparr>locks := (locks s)(d := True)\<rparr>))) = uncounted r s" if "\<not> locks s d"
    using that by (simp add: uncounted_def lock_release_at_def netpoll_rem_def fun_upd_idem)
  moreover have "descs (lock_release_at d (netpoll_rem d t)) = descs t" for t by (simp add: lock_release_at_def netpoll_rem_def)
  ultimately show ?thesis
    by (simp add: netpoll_wakeup_def lock_acquire_at_def Let_def vpu_ready_uncounted [symmetric] split: option.split)
qed

lemma andthen_strip: "andthen (strip r x) g = andthen x (\<lambda>y. g (uncounted r y))" "strip r (andthen x h) = andthen x (\<lambda>y. strip r (h y))"
  by (cases x; simp)+

lemma poll_events_uncounted: "strip r (poll_events vo evs mode s) = wake_each vo evs mode (uncounted r s)"
proof (induction evs arbitrary: mode s)
  case (Cons e evs)
  obtain d ev where e: "e = (d, ev)" by fastforce
  define mode' where "mode' = event_mode mode (pd_mode (descs s d)) ev"
  define s1 where "s1 = upd_desc d (\<lambda>r. r\<lparr>pd_done := True, pd_mode := mode'\<rparr>) s"
  show ?case
  proof (cases "pd_done (descs s d)")
    case True
    then show ?thesis using Cons.IH by (simp add: e)
  next
    case False
    then have "strip r (poll_events vo (e # evs) mode s) =
        andthen (strip r (netpoll_wakeup vo d s1)) (wake_each vo evs mode')"
      by (simp add: e Let_def upd_desc_twice o_def s1_def mode'_def andthen_strip Cons.IH)
    also have "\<dots> = wake_each vo (e # evs) mode (uncounted r s)"
      unfolding netpoll_wakeup_uncounted using False by (simp add: e Let_def s1_def mode'_def split: option.split)
    finally show ?thesis .
  qed
qed simp

lemma wake_each_uncounted: "strip r (wake_each vo evs mode s) = wake_each vo evs mode (uncounted r s)"
proof (induction evs arbitrary: mode s)
  case (Cons e evs)
  obtain d ev where e: "e = (d, ev)" by fastforce
  define mode' where "mode' = event_mode mode (pd_mode (descs s d)) ev"
  define s1 where "s1 = upd_desc d (\<lambda>r. r\<lparr>pd_done := True, pd_mode := mode'\<rparr>) s"
  have s1: "uncounted r s1 = upd_desc d (\<lambda>r. r\<lparr>pd_done := True, pd_mode := mode'\<rparr>) (uncounted r s)" by (simp add: s1_def)
  have "strip r (andthen (vpu_ready vo w False s1) (wake_each vo evs mode')) =
      andthen (vpu_ready vo w False (uncounted r s1)) (wake_each vo evs mode')" for w
    by (simp add: vpu_ready_uncounted andthen_strip Cons.IH)
  then show ?case using Cons.IH [of mode s] by (simp add: e Let_def s1 s1_def mode'_def split: option.split)
qed simp

lemma set_revents_ok:
  assumes "pm_ok m" "length revs = pm_size m"
  shows "pm_ok (set_revents revs m)" "registered (set_revents revs m) = registered m" "pm_table (set_revents revs m) = pm_table m"
    "pm_size (set_revents revs m) = pm_size m" "pm_cap (set_revents revs m) = pm_cap m" "pm_mutex (set_revents revs m) = pm_mutex m"
    "j < pm_size m \<Longrightarrow> pfd_revents (pm_fds (set_revents revs m) ! j) = revs ! j"
  using assms by (auto simp: pm_ok_def set_revents_def registered_def)

lemma pm_ok_mutex [simp]: "pm_ok (m\<lparr>pm_mutex := b\<rparr>) = pm_ok m" "registered (m\<lparr>pm_mutex := b\<rparr>) = registered m"
  by (simp_all add: pm_ok_def registered_def)

lemma poll_polling_eq:
  assumes "pm_ok m" "\<not> pm_mutex m" "pm_size m \<noteq> 0" "length revs = pm_size m"
  obtains m' where "poll_polling vo (Some revs) (m, s) = andthen (wake_each vo (zip (registered m) revs) 0 s) (\<lambda>s'. Inr (True, m', s'))"
    "\<forall>s'. wake_each vo (zip (registered m) revs) 0 s = Inr s' \<longrightarrow> pm_ok m' \<and> set (registered m') = {d \<in> set (registered m). pd_done (descs s d)}"
proof -
  note sr = set_revents_ok [OF assms(1,4)]
  let ?m = "(set_revents revs m)\<lparr>pm_mutex := True\<rparr>"
  have l: "length (registered m) = pm_size m" by (rule length_registered [OF assms(1)])
  have "\<exists>m'. poll_loop vo (length (registered m)) 0 0 (?m, s) = andthen (wake_each vo (zip (registered m) revs) 0 s) (\<lambda>s'. Inr (m', s')) \<and>
     (\<forall>s'. wake_each vo (zip (registered m) revs) 0 s = Inr s' \<longrightarrow>
        pm_ok m' \<and> set (registered m') = set (registered ?m) - to_wake s (registered m) \<and> pm_mutex m' = pm_mutex ?m)"
    using sr assms(1,4) l by (intro poll_loop_wakes_each) (auto simp: pm_ok_def to_wake_def)
  then obtain m' where m': "poll_loop vo (pm_size m) 0 0 (?m, s) = andthen (wake_each vo (zip (registered m) revs) 0 s) (\<lambda>s'. Inr (m', s'))"
    "\<forall>s'. wake_each vo (zip (registered m) revs) 0 s = Inr s' \<longrightarrow> pm_ok m' \<and> set (registered m') = set (registered m) - to_wake s (registered m)"
    using l sr(2) by auto
  show ?thesis
  proof (rule that [of "m'\<lparr>pm_mutex := False\<rparr>"])
    show "poll_polling vo (Some revs) (m, s) = andthen (wake_each vo (zip (registered m) revs) 0 s) (\<lambda>s'. Inr (True, m'\<lparr>pm_mutex := False\<rparr>, s'))"
      using assms(2,3) m'(1) sr(6) by (simp add: poll_polling_def Let_def andthen_assoc)
  qed (use m'(2) in \<open>auto simp: to_wake_def\<close>)
qed

text \<open>
  Every descriptor of the table is woken by every pass that finds anything, ready or not: the loop never asks whether a descriptor has
  an event.
\<close>

lemma poll_wakes_everybody:
  assumes "pm_ok m" "\<not> pm_mutex m" "pm_size m \<noteq> 0" "length revs = pm_size m" "sched_inv s" "waiters_ok s (set (registered m))"
    and "\<And>v. vo = Some v \<Longrightarrow> v < xt_index s"
  shows "\<exists>m' s'. poll_polling vo (Some revs) (m, s) = Inr (True, m', s') \<and>
     (\<forall>d\<in>set (registered m). \<forall>w. \<not> pd_done (descs s d) \<and> pd_wait (descs s d) = Some w \<longrightarrow> co_status (cos s' w) = READY)"
proof -
  let ?evs = "zip (registered m) revs"
  have f: "fst ` set ?evs = set (registered m)"
    using assms(4) length_registered [OF assms(1)] by (metis list.set_map map_fst_zip)
  from poll_events_ok [OF assms(5,6), of ?evs vo 0] f assms(7) obtain s1 where s1: "poll_events vo ?evs 0 s = Inr s1"
    "\<forall>t. co_status (cos s1 t) = (if Some t \<in> (\<lambda>d. pd_wait (descs s d)) ` pending s (set (registered m)) then READY else co_status (cos s t))"
    by auto
  obtain m' where m': "poll_polling vo (Some revs) (m, s) = andthen (wake_each vo ?evs 0 s) (\<lambda>s'. Inr (True, m', s'))"
    by (rule poll_polling_eq [OF assms(1-4)])
  have "strip (rmem s) (wake_each vo ?evs 0 s) = strip (rmem s) (poll_events vo ?evs 0 s)"
    by (simp add: wake_each_uncounted poll_events_uncounted)
  then obtain s' where s': "wake_each vo ?evs 0 s = Inr s'" "uncounted (rmem s) s' = uncounted (rmem s) s1"
    using s1(1) by (cases "wake_each vo ?evs 0 s") auto
  have "cos s' = cos s1" using arg_cong [OF s'(2), of cos] by simp
  moreover have "poll_polling vo (Some revs) (m, s) = Inr (True, m', s')" using m' s'(1) by simp
  moreover have "co_status (cos s1 w) = READY" if "d \<in> set (registered m)" "\<not> pd_done (descs s d)" "pd_wait (descs s d) = Some w" for d w
    using s1(2) that by (force simp: pending_def)
  ultimately show ?thesis by metis
qed

section \<open>Properties\<close>

text \<open>
  Claim C30. A pass of the \<open>poll\<close> back end is equivalent to a pass over the table it started with. Although each wake-up moves the last
  descriptor into the place of the woken one while the loop runs, every descriptor registered at the start is visited exactly
  once, in order and with its own events, and those that were not done are taken out of the table. Apart from reference counts the effect, failures
  included, is that of the \<open>epoll\<close> back end on the same descriptors and events.
\<close>

theorem poll_pass_equivalent:
  assumes "pm_ok m" "\<not> pm_mutex m" "pm_size m \<noteq> 0" "length revs = pm_size m"
  shows "\<exists>m'. poll_polling vo (Some revs) (m, s) =
       andthen (wake_each vo (zip (registered m) revs) 0 s) (\<lambda>s'. Inr (True, m', s')) \<and>
     strip r (wake_each vo (zip (registered m) revs) 0 s) = strip r (poll_events vo (zip (registered m) revs) 0 s) \<and>
     (\<forall>s'. wake_each vo (zip (registered m) revs) 0 s = Inr s' \<longrightarrow>
        pm_ok m' \<and> set (registered m') = {d \<in> set (registered m). pd_done (descs s d)})"
proof -
  have "strip r (wake_each vo (zip (registered m) revs) 0 s) = strip r (poll_events vo (zip (registered m) revs) 0 s)"
    by (simp add: wake_each_uncounted poll_events_uncounted)
  moreover obtain m' where "poll_polling vo (Some revs) (m, s) = andthen (wake_each vo (zip (registered m) revs) 0 s) (\<lambda>s'. Inr (True, m', s'))"
    "\<forall>s'. wake_each vo (zip (registered m) revs) 0 s = Inr s' \<longrightarrow> pm_ok m' \<and> set (registered m') = {d \<in> set (registered m). pd_done (descs s d)}"
    by (rule poll_polling_eq [OF assms, of vo s])
  ultimately show ?thesis by blast
qed

text \<open>Two descriptors are registered and only the first is readable; the pass still goes over both and empties the table.\<close>

definition example_mgr :: poll_mgr where
  "example_mgr = \<lparr>pm_cap = 2, pm_size = 2, pm_fds = [no_pollfd, no_pollfd], pm_table = [50, 51], pm_ids = (\<lambda>d. if d = 50 then 0 else 1), pm_mutex = False\<rparr>"

theorem poll_pass_equivalent_witness:
  "\<exists>m'. poll_polling (Some 1) (Some [EPOLLIN, 0]) (example_mgr, example_sys) =
     andthen (wake_each (Some 1) [(50, EPOLLIN), (51, 0)] 0 example_sys) (\<lambda>s'. Inr (True, m', s'))"
proof -
  have "pm_ok example_mgr" by (auto simp: pm_ok_def example_mgr_def registered_def less_2_cases_iff)
  moreover have z: "zip (registered example_mgr) [EPOLLIN, 0] = [(50, EPOLLIN), (51, 0)]" and "\<not> pm_mutex example_mgr" "pm_size example_mgr = 2"
    by (simp_all add: example_mgr_def registered_def)
  ultimately show ?thesis using poll_pass_equivalent [of example_mgr "[EPOLLIN, 0]" "Some 1" example_sys] unfolding z by fastforce
qed

end
