(* ===== verification/Async.thy ===== *)
theory Async
  imports Vpu
begin

text \<open>
  The pool of threads for blocking calls (\<^verbatim>\<open>src/async.c\<close>, \<^verbatim>\<open>include/inter/async.h\<close>). A coroutine hands a function to the pool and goes to sleep; a thread of the
  pool takes the requests in order, executes them outside the pool's mutex and makes the coroutine ready again. What the functions do
  to the world \<open>'w\<close> outside the runtime is the program's. The mutex is one of the locks of the system; a suspended caller releases it.
\<close>

section \<open>Requests and the pool\<close>

record 'w request =
  req_wait :: addr
  req_func :: "'w \<Rightarrow> c_err + 'w"

record 'w pool =
  pool_mutex :: addr
  pool_signals :: nat
  pool_que :: "'w request list"
  pool_threads :: nat

text \<open>With a negative number the allocation of the thread handles fails and no thread is started, so there is no pool either.\<close>

definition async_pool_initialize :: "int \<Rightarrow> 'w pool \<Rightarrow> sys \<Rightarrow> 'w pool \<times> sys" where
  "async_pool_initialize n p s = (let s = s\<lparr>locks := (locks s)(pool_mutex p := False)\<rparr> in
     if n = 0 then (p\<lparr>pool_threads := 0\<rparr>, s) else (p\<lparr>pool_signals := 0, pool_que := [], pool_threads := nat n\<rparr>, s))"

section \<open>Submitting\<close>

text \<open>\<open>coroc_async_request_submit\<close>: without threads the function is called at once; the flag says whether the caller is suspended.\<close>

definition async_request_submit ::
    "('w \<Rightarrow> c_err + 'w) \<Rightarrow> nat \<Rightarrow> 'w pool \<times> sys \<times> 'w \<Rightarrow> c_err + (bool \<times> 'w pool \<times> sys \<times> 'w)" where
  "async_request_submit func v = (\<lambda>(p, s, w).
     if pool_threads p = 0 then andthen (func w) (\<lambda>w. Inr (False, p, s, w))
     else (case coroutine_self (Some v) s of
         None \<Rightarrow> Inl NullDeref
       | Some self \<Rightarrow>
           andthen (lock_acquire_at (pool_mutex p) s) (\<lambda>s.
             let p = p\<lparr>pool_que := pool_que p @ [\<lparr>req_wait = self, req_func = func\<rparr>], pool_signals := Suc (pool_signals p)\<rparr>;
                 s = upd_co self (\<lambda>c. c\<lparr>co_async_wait := True\<rparr>) s in
             andthen (vpu_suspend [pool_mutex p] v s) (\<lambda>s. Inr (True, p, s, w)))))"

section \<open>A thread of the pool\<close>

text \<open>Taking the next request; \<open>None\<close> when the thread goes to sleep on the condition variable, which releases the mutex.\<close>

definition async_fetch :: "'w pool \<times> sys \<Rightarrow> c_err + ('w request option \<times> 'w pool \<times> sys)" where
  "async_fetch = (\<lambda>(p, s). andthen (lock_acquire_at (pool_mutex p) s) (\<lambda>s.
     case pool_que p of
       [] \<Rightarrow> Inr (None, p, lock_release_at (pool_mutex p) s)
     | req # rest \<Rightarrow> Inr (Some req, p\<lparr>pool_que := rest\<rparr>, lock_release_at (pool_mutex p) s)))"

definition async_complete :: "'w request \<Rightarrow> sys \<Rightarrow> c_err + sys" where
  "async_complete req s = vpu_ready None (req_wait req) False s"

text \<open>One turn of the loop of \<open>coroc_async_thread_routine\<close>.\<close>

definition async_round :: "'w pool \<times> sys \<times> 'w \<Rightarrow> c_err + ('w pool \<times> sys \<times> 'w)" where
  "async_round = (\<lambda>(p, s, w). andthen (async_fetch (p, s)) (\<lambda>(r, p, s).
     case r of
       None \<Rightarrow> Inr (p, s, w)
     | Some req \<Rightarrow> andthen (req_func req w) (\<lambda>w. andthen (async_complete req s) (\<lambda>s. Inr (p, s, w)))))"

primrec async_rounds :: "nat \<Rightarrow> 'w pool \<times> sys \<times> 'w \<Rightarrow> c_err + ('w pool \<times> sys \<times> 'w)" where
  "async_rounds 0 x = Inr x"
| "async_rounds (Suc n) x = andthen (async_round x) (async_rounds n)"

section \<open>The invariant\<close>

text \<open>
  \<open>busy\<close> are the requests that threads execute. Every outstanding request belongs to a different waiting coroutine, marked as
  waiting for the pool, and the runtime's count of such coroutines is exact.
\<close>

definition requests_ok :: "'w request list \<Rightarrow> sys \<Rightarrow> bool" where
  "requests_ok rs s \<longleftrightarrow> distinct (map req_wait rs) \<and> total_iowait s = of_nat (length rs) \<and>
     (\<forall>r\<in>set rs. co_status (cos s (req_wait r)) = WAIT \<and> co_async_wait (cos s (req_wait r)) \<and> co_type (cos s (req_wait r)) \<noteq> IDLE)"

lemma vpu_suspend_counts:
  assumes "vpu_suspend ls v s = Inr s'" "current (vpus s v) = Some self"
  shows "total_iowait s' = total_iowait s + (if co_async_wait (cos s self) then 1 else 0)" "co_async_wait (cos s' t) = co_async_wait (cos s t)"
    "locks s' = (\<lambda>l. locks s l \<and> l \<notin> set ls)" "co_type (cos s' t) = co_type (cos s t)"
proof -
  obtain sch where "scheduler (vpus s v) = Some sch"
    using assms by (auto simp: vpu_suspend_def vpu_syscall_def split: option.splits)
  then have "s' = upd_vpu v (\<lambda>r. r\<lparr>hold := None\<rparr>) (release_locks ls
      (upd_co self (\<lambda>c. c\<lparr>co_status := WAIT\<rparr>) (entered v self sch (upd_vpu v (\<lambda>r. r\<lparr>hold := Some ls\<rparr>) s))
         \<lparr>total_iowait := total_iowait s + (if co_async_wait (cos s self) then 1 else 0)\<rparr>))"
    using assms by (auto simp: vpu_suspend_def vpu_syscall_def core_wait_def Let_def entered_def upd_co_def upd_vpu_def)
  then show "total_iowait s' = total_iowait s + (if co_async_wait (cos s self) then 1 else 0)" "co_async_wait (cos s' t) = co_async_wait (cos s t)"
    "locks s' = (\<lambda>l. locks s l \<and> l \<notin> set ls)" "co_type (cos s' t) = co_type (cos s t)"
    by (simp_all add: release_locks_eq entered_def upd_vpu_def upd_co_def)
qed

lemma async_submit_ok:
  assumes "sched_inv s" "v < xt_index s" "running s v = Some t" "pool_threads p \<noteq> 0" "\<not> locks s (pool_mutex p)" "requests_ok rs s"
  obtains s' where "async_request_submit f v (p, s, w) =
      Inr (True, p\<lparr>pool_que := pool_que p @ [\<lparr>req_wait = t, req_func = f\<rparr>], pool_signals := Suc (pool_signals p)\<rparr>, s', w)"
    "sched_inv s'" "requests_ok (rs @ [\<lparr>req_wait = t, req_func = f\<rparr>]) s'" "\<not> locks s' (pool_mutex p)" "running s' v = None"
proof -
  note t = runningD [OF assms(1-3)]
  define s1 where "s1 = upd_co t (\<lambda>c. c\<lparr>co_async_wait := True\<rparr>) (s\<lparr>locks := (locks s)(pool_mutex p := True)\<rparr>)"
  have s1: "sched_inv s1" by (rule sched_inv_cong [OF assms(1)]) (simp_all add: s1_def upd_co_def)
  have r1: "v < xt_index s1" "running s1 v = Some t" "current (vpus s1 v) = Some t" "total_iowait s1 = total_iowait s"
    using assms(2,3) t(4) by (simp_all add: s1_def upd_co_def running_def)
  from sched_inv_suspend [OF s1 r1(1,2), of "[pool_mutex p]"] obtain s' where s': "vpu_suspend [pool_mutex p] v s1 = Inr s'" "sched_inv s'"
    "running s' v = None" "\<forall>u. co_status (cos s' u) = (if u = t then WAIT else co_status (cos s1 u))" by metis
  note c = vpu_suspend_counts [OF s'(1) r1(3)]
  have "async_request_submit f v (p, s, w) =
      Inr (True, p\<lparr>pool_que := pool_que p @ [\<lparr>req_wait = t, req_func = f\<rparr>], pool_signals := Suc (pool_signals p)\<rparr>, s', w)"
    using assms(4,5) t(4) s'(1) by (simp add: async_request_submit_def coroutine_self_def lock_acquire_at_def Let_def s1_def)
  moreover have "requests_ok (rs @ [\<lparr>req_wait = t, req_func = f\<rparr>]) s'"
    using assms(6) t(1,2) s'(4) c r1(4) by (auto simp: requests_ok_def s1_def)
  moreover have "\<not> locks s' (pool_mutex p)" using c(3) by simp
  ultimately show ?thesis using that s'(2,3) by blast
qed

text \<open>A thread executes the oldest request and its coroutine becomes ready.\<close>

lemma async_round_ok:
  assumes "sched_inv s" "\<not> locks s (pool_mutex p)" "pool_que p = r # rs" "requests_ok (r # rs) s" "req_func r w = Inr w'"
  obtains s' where "async_round (p, s, w) = Inr (p\<lparr>pool_que := rs\<rparr>, s', w')" "sched_inv s'" "requests_ok rs s'"
    "cos s' = (cos s)(req_wait r := (cos s (req_wait r))\<lparr>co_status := READY\<rparr>)" "\<not> locks s' (pool_mutex p)"
proof -
  let ?t = "req_wait r"
  have t: "co_status (cos s ?t) = WAIT" "co_type (cos s ?t) \<noteq> IDLE" "co_async_wait (cos s ?t)" using assms(4) by (simp_all add: requests_ok_def)
  from sched_inv_ready [OF assms(1) t(1,2), of None False] obtain s' where s': "vpu_ready None ?t False s = Inr s'" "sched_inv s'" by auto
  note f = vpu_ready_frame [OF s'(1)]
  have "total_iowait s' = total_iowait s - 1"
    using s'(1) t by (auto simp: vpu_ready_plain andthen_Inr_iff enqueue_def Let_def sched_simps vpu_wakeup_one_def split: if_splits)
  moreover have "?t \<notin> req_wait ` set rs" using assms(4) by (simp add: requests_ok_def)
  then have "req_wait q \<noteq> ?t" if "q \<in> set rs" for q using that by (metis image_eqI)
  ultimately have "requests_ok rs s'" using assms(4) f by (simp add: requests_ok_def)
  moreover have "lock_release_at (pool_mutex p) (s\<lparr>locks := (locks s)(pool_mutex p := True)\<rparr>) = s"
    using assms(2) by (simp add: lock_release_at_def fun_upd_idem)
  then have "async_round (p, s, w) = Inr (p\<lparr>pool_que := rs\<rparr>, s', w')"
    using assms(2,3,5) s'(1) by (simp add: async_round_def async_fetch_def lock_acquire_at_def async_complete_def)
  ultimately show ?thesis using that s'(2) f assms(2) by simp
qed

primrec run_all :: "('w \<Rightarrow> c_err + 'w) list \<Rightarrow> 'w \<Rightarrow> c_err + 'w" where
  "run_all [] w = Inr w"
| "run_all (f # fs) w = andthen (f w) (run_all fs)"

lemma async_rounds_ok:
  assumes "sched_inv s" "\<not> locks s (pool_mutex p)" "requests_ok (pool_que p) s" "run_all (map req_func (pool_que p)) w = Inr w'"
  shows "\<exists>s'. async_rounds (length (pool_que p)) (p, s, w) = Inr (p\<lparr>pool_que := []\<rparr>, s', w') \<and> sched_inv s' \<and> total_iowait s' = 0 \<and>
     (\<forall>u. co_status (cos s' u) = (if u \<in> req_wait ` set (pool_que p) then READY else co_status (cos s u)))"
  using assms
proof (induction "pool_que p" arbitrary: p s w)
  case Nil
  then show ?case by (simp add: requests_ok_def)
next
  case (Cons r rs)
  from Cons.prems(4) Cons.hyps(2) obtain w1 where w1: "req_func r w = Inr w1" "run_all (map req_func rs) w1 = Inr w'"
    by (metis andthen_Inr_iff list.simps(9) run_all.simps(2))
  have q: "requests_ok (r # rs) s" using Cons.prems(3) Cons.hyps(2) by simp
  obtain s1 where s1: "async_round (p, s, w) = Inr (p\<lparr>pool_que := rs\<rparr>, s1, w1)" "sched_inv s1" "requests_ok rs s1"
    "cos s1 = (cos s)(req_wait r := (cos s (req_wait r))\<lparr>co_status := READY\<rparr>)" "\<not> locks s1 (pool_mutex p)"
    by (rule async_round_ok [OF Cons.prems(1,2) Cons.hyps(2) [symmetric] q w1(1)])
  from Cons.hyps(1) [of "p\<lparr>pool_que := rs\<rparr>" s1 w1] s1 w1(2) obtain s' where
    s': "async_rounds (length rs) (p\<lparr>pool_que := rs\<rparr>, s1, w1) = Inr (p\<lparr>pool_que := []\<rparr>, s', w')" "sched_inv s'" "total_iowait s' = 0"
    "\<forall>u. co_status (cos s' u) = (if u \<in> req_wait ` set rs then READY else co_status (cos s1 u))" by auto
  have "async_rounds (length (pool_que p)) (p, s, w) = Inr (p\<lparr>pool_que := []\<rparr>, s', w')"
    using s1(1) s'(1) Cons.hyps(2) [symmetric] by simp
  then show ?case using s' s1(4) Cons.hyps(2) [symmetric] by auto
qed

section \<open>Properties\<close>


text \<open>One coroutine submits a function that counts to the empty pool.\<close>

definition example_pool :: "nat pool" where
  "example_pool = \<lparr>pool_mutex = 900, pool_signals = 0, pool_que = [], pool_threads = 2\<rparr>"


end
