(* ===== verification/Net.thy ===== *)
theory Net
  imports Prelude
begin

text \<open>
  Sockets and addresses (\<^verbatim>\<open>src/net.c\<close>). Parsing of numeric addresses, with \<open>strtoul\<close> of the C library as the standard defines it, is modelled on strings. The
  functions that make connections are modelled by their answer and the list of system calls they make; what the calls answer is an argument.
\<close>

section \<open>\<open>strtoul\<close> with base 0\<close>

definition is_space :: "char \<Rightarrow> bool" where
  "is_space c \<longleftrightarrow> c = CHR '' '' \<or> (9 \<le> (of_char c :: nat) \<and> (of_char c :: nat) \<le> 13)"

definition digit_of :: "char \<Rightarrow> nat option" where
  "digit_of c = (let n = (of_char c :: nat) in
     if 48 \<le> n \<and> n \<le> 57 then Some (n - 48)
     else if 97 \<le> n \<and> n \<le> 122 then Some (n - 87)
     else if 65 \<le> n \<and> n \<le> 90 then Some (n - 55) else None)"

definition is_digit :: "nat \<Rightarrow> char \<Rightarrow> bool" where
  "is_digit base c \<longleftrightarrow> (case digit_of c of None \<Rightarrow> False | Some d \<Rightarrow> d < base)"

fun digits :: "nat \<Rightarrow> nat \<Rightarrow> string \<Rightarrow> nat \<times> string" where
  "digits base acc [] = (acc, [])"
| "digits base acc (c # cs) = (if is_digit base c then digits base (base * acc + the (digit_of c)) cs else (acc, c # cs))"

text \<open>The base from the prefix: \<open>0x\<close> before a hexadecimal digit, \<open>0\<close>, or none.\<close>

definition base_prefix :: "string \<Rightarrow> nat \<times> string" where
  "base_prefix p = (case p of
       CHR ''0'' # x # h # rest \<Rightarrow> if (x = CHR ''x'' \<or> x = CHR ''X'') \<and> is_digit 16 h then (16, h # rest) else (8, p)
     | CHR ''0'' # rest \<Rightarrow> (8, p)
     | _ \<Rightarrow> (10, p))"

definition sign_prefix :: "string \<Rightarrow> bool \<times> string" where
  "sign_prefix p = (case p of
       CHR ''-'' # rest \<Rightarrow> (True, rest)
     | CHR ''+'' # rest \<Rightarrow> (False, rest)
     | _ \<Rightarrow> (False, p))"

text \<open>The value saturates at \<open>ULONG_MAX\<close> and is negated after a minus sign; without a digit it is \<open>0\<close> and nothing is consumed.\<close>

definition strtoul :: "string \<Rightarrow> u64 \<times> string" where
  "strtoul p = (let (neg, q) = sign_prefix (dropWhile is_space p); (base, q) = base_prefix q in
     case q of
       [] \<Rightarrow> (0, p)
     | c # cs \<Rightarrow>
         if \<not> is_digit base c then (0, p)
         else (let (n, rest) = digits base 0 q in
               (if n \<ge> 2 ^ 64 then - 1 else if neg then - of_nat n else of_nat n, rest)))"

section \<open>Numeric addresses\<close>

text \<open>The array \<open>addr\<close>: a byte that was not assigned is \<open>None\<close>.\<close>

type_synonym addr4 = "u8 option list"

datatype parse_res = Refused | Parsed nat addr4

text \<open>The loop: \<open>i\<close> components have been read. \<open>x\<close> is an \<open>int\<close>, so the value is cut to 32 bits before it is compared.\<close>

fun parse_loop :: "nat \<Rightarrow> nat \<Rightarrow> string \<Rightarrow> addr4 \<Rightarrow> parse_res" where
  "parse_loop 0 i p a = Parsed i a"
| "parse_loop (Suc k) i [] a = Parsed i a"
| "parse_loop (Suc k) i (c # cs) a =
     (case strtoul (c # cs) of (v, q) \<Rightarrow>
        let x = (ucast v :: u32) in
        if sint x < 0 \<or> sint x > 256 then Refused
        else (case q of
            [] \<Rightarrow> parse_loop k (Suc i) [] (a[i := Some (ucast x)])
          | d # q' \<Rightarrow> if d \<noteq> CHR ''.'' then Refused else parse_loop k (Suc i) q' (a[i := Some (ucast x)])))"

definition the_byte :: "u8 option \<Rightarrow> c_err + u8" where
  "the_byte b = (case b of None \<Rightarrow> Inl Uninit | Some x \<Rightarrow> Inr x)"

text \<open>Filling in the missing components by the class of the address; a class C address is not touched.\<close>

definition fill_class :: "nat \<Rightarrow> nat \<Rightarrow> addr4 \<Rightarrow> addr4 option" where
  "fill_class cls i a =
     (if cls = 0 \<or> cls = 1 then
        (if i = 3 then Some (a[3 := a ! 2, 2 := a ! 1, 1 := Some 0])
         else if i = 2 then Some (a[3 := a ! 1, 2 := Some 0, 1 := Some 0])
         else if i \<noteq> 4 then None else Some a)
      else if cls = 2 then
        (if i = 3 then Some (a[3 := a ! 2, 2 := Some 0]) else if i \<noteq> 4 then None else Some a)
      else Some a)"

definition read_all :: "addr4 \<Rightarrow> c_err + u8 list" where
  "read_all a = (if None \<in> set a then Inl Uninit else Inr (map the a))"

definition parseip :: "string \<Rightarrow> c_err + u8 list option" where
  "parseip name = (case parse_loop 4 0 name [None, None, None, None] of
       Refused \<Rightarrow> Inr None
     | Parsed i a \<Rightarrow> andthen (the_byte (a ! 0)) (\<lambda>b.
         case fill_class (unat (drop_bit 6 b)) i a of
           None \<Rightarrow> Inr None
         | Some a \<Rightarrow> andthen (read_all a) (\<lambda>ip. Inr (Some ip))))"

text \<open>\<open>host\<close> is the answer of \<open>gethostbyname\<close>.\<close>

definition net_lookup :: "(string \<Rightarrow> u8 list option) \<Rightarrow> string \<Rightarrow> c_err + u8 list option" where
  "net_lookup host name = andthen (parseip name) (\<lambda>r. case r of Some ip \<Rightarrow> Inr (Some ip) | None \<Rightarrow> Inr (host name))"

section \<open>Printing an address\<close>

definition digit_char :: "nat \<Rightarrow> char" where
  "digit_char d = char_of (48 + d)"

fun decimal :: "nat \<Rightarrow> string" where
  "decimal n = (if n < 10 then [digit_char n] else decimal (n div 10) @ [digit_char (n mod 10)])"

declare decimal.simps [simp del]

text \<open>The string that \<open>coroc_net_timed_accept\<close> writes for its caller; \<open>snprintf\<close> cuts it to 15 characters.\<close>

definition print_ip :: "u8 list \<Rightarrow> string" where
  "print_ip ip = take 15 (decimal (unat (ip ! 0)) @ ''.'' @ decimal (unat (ip ! 1)) @ ''.'' @ decimal (unat (ip ! 2)) @ ''.'' @ decimal (unat (ip ! 3)))"

section \<open>Connections\<close>

text \<open>The system calls with an effect on descriptors, in the order in which they are made.\<close>

datatype oscall =
    Opened int
  | Closed int
  | Nonblocking int
  | Option_set int
  | Bound int "u8 list" u16
  | Listening int int
  | Connecting int "u8 list" u16
  | Waited int

text \<open>
  What the system answers: the descriptor of \<open>socket\<close> or \<open>accept4\<close>, negative for an error; whether \<open>getsockopt\<close>, \<open>bind\<close>, \<open>connect\<close> (or
  \<open>EINPROGRESS\<close>) and \<open>getpeername\<close> succeed; the mode that a timed wait answers; the pending error of the socket; the address of the peer.
\<close>

record answers =
  ans_fd :: int
  ans_sockopt :: bool
  ans_bind :: bool
  ans_connect :: bool
  ans_wait :: u32
  ans_peername :: bool
  ans_error :: int
  ans_peer :: "u8 list"
  ans_port :: u16

definition htons :: "int \<Rightarrow> u16" where
  "htons port = of_int port"

definition ECONNREFUSED :: int where "ECONNREFUSED = 111"

text \<open>
  A server that is \<open>NULL\<close> or \<open>*\<close> leaves the address zero. The backlog of \<open>listen\<close> is the port. \<open>announce_at\<close> is the part of the function after
  the address is known.
\<close>

definition announce_at :: "answers \<Rightarrow> bool \<Rightarrow> int \<Rightarrow> u8 list \<Rightarrow> int \<times> oscall list" where
  "announce_at a istcp port ip = (let fd = ans_fd a in
     if fd < 0 then (- 1, [])
     else
       (let tr = Opened fd # (if istcp \<and> ans_sockopt a then [Option_set fd] else []) in
        if \<not> ans_bind a then (- 1, tr @ [Closed fd])
        else (fd, tr @ [Bound fd ip (htons port)] @ (if istcp then [Listening fd port] else []) @ [Nonblocking fd])))"

definition net_announce ::
    "(string \<Rightarrow> u8 list option) \<Rightarrow> answers \<Rightarrow> bool \<Rightarrow> string option \<Rightarrow> int \<Rightarrow> c_err + (int \<times> oscall list)" where
  "net_announce host a istcp server port =
     (if server = None \<or> server = Some ''*'' then Inr (announce_at a istcp port [0, 0, 0, 0])
      else andthen (net_lookup host (the server))
        (\<lambda>ip. case ip of None \<Rightarrow> Inr (- 1, []) | Some ip \<Rightarrow> Inr (announce_at a istcp port ip)))"

text \<open>The descriptor of \<open>accept4\<close> is non-blocking from the start. The caller may ask for the peer's address and port.\<close>

definition net_timed_accept :: "answers \<Rightarrow> int \<Rightarrow> int \<Rightarrow> int \<times> oscall list \<times> string \<times> u16" where
  "net_timed_accept a fd usec =
     (if usec > 0 \<and> ans_wait a = 0 then (- 1, [Waited fd], [], 0)
      else
        (let cfd = ans_fd a in
         if cfd < 0 then (- 1, [Waited fd], [], 0)
         else (cfd, [Waited fd, Opened cfd, Nonblocking cfd, Option_set cfd], print_ip (ans_peer a), ans_port a)))"

definition net_accept :: "answers \<Rightarrow> int \<Rightarrow> int \<times> oscall list \<times> string \<times> u16" where
  "net_accept a fd = net_timed_accept a fd 0"

text \<open>After the lookup; the last component is \<open>errno\<close> when the function sets it.\<close>

definition dial_to :: "answers \<Rightarrow> bool \<Rightarrow> int \<Rightarrow> int \<Rightarrow> u8 list \<Rightarrow> int \<times> oscall list \<times> int option" where
  "dial_to a istcp port usec ip = (let fd = ans_fd a in
     if fd < 0 then (- 1, [], None)
     else
       (let tr = [Opened fd, Nonblocking fd] @ (if istcp then [] else [Option_set fd]) @ [Connecting fd ip (htons port)] in
        if \<not> ans_connect a then (- 1, tr @ [Closed fd], None)
        else if usec > 0 \<and> ans_wait a = 0 then (- 1, tr @ [Waited fd, Closed fd], None)
        else if ans_peername a then (fd, tr @ [Waited fd], None)
        else (- 1, tr @ [Waited fd, Closed fd], Some (if ans_error a = 0 then ECONNREFUSED else ans_error a))))"

definition net_timed_dial ::
    "(string \<Rightarrow> u8 list option) \<Rightarrow> answers \<Rightarrow> bool \<Rightarrow> string \<Rightarrow> int \<Rightarrow> int \<Rightarrow> c_err + (int \<times> oscall list \<times> int option)" where
  "net_timed_dial host a istcp server port usec = andthen (net_lookup host server)
     (\<lambda>ip. case ip of None \<Rightarrow> Inr (- 1, [], None) | Some ip \<Rightarrow> Inr (dial_to a istcp port usec ip))"

definition net_dial :: "(string \<Rightarrow> u8 list option) \<Rightarrow> answers \<Rightarrow> bool \<Rightarrow> string \<Rightarrow> int \<Rightarrow> c_err + (int \<times> oscall list \<times> int option)" where
  "net_dial host a istcp server port = net_timed_dial host a istcp server port 0"

text \<open>The descriptors a run of calls leaves open.\<close>

fun open_fds :: "oscall list \<Rightarrow> int set" where
  "open_fds [] = {}"
| "open_fds (c # cs) = (case c of Opened fd \<Rightarrow> if Closed fd \<in> set cs then open_fds cs else insert fd (open_fds cs) | _ \<Rightarrow> open_fds cs)"

section \<open>Parsing what was printed\<close>

lemma digit_of_char [simp]: "d < 10 \<Longrightarrow> digit_of (digit_char d) = Some d"
  by (simp add: digit_of_def Let_def digit_char_def)

lemma digit_of_dot [simp]: "digit_of CHR ''.'' = None"
  by (simp add: digit_of_def)

definition value_of :: "nat \<Rightarrow> nat \<Rightarrow> string \<Rightarrow> nat" where
  "value_of base acc cs = fold (\<lambda>c a. base * a + the (digit_of c)) cs acc"

lemma digits_append:
  "\<forall>c\<in>set cs. is_digit base c \<Longrightarrow> digits base acc (cs @ rest) = digits base (value_of base acc cs) rest"
  by (induction cs arbitrary: acc) (auto simp: value_of_def)

lemma decimal_digits: "\<forall>c\<in>set (decimal n). \<exists>d::nat. d < 10 \<and> c = digit_char d"
proof (induction n rule: decimal.induct)
  case (1 n)
  show ?case
  proof (cases "n < 10")
    case True
    then show ?thesis by (subst decimal.simps) auto
  next
    case False
    moreover have "\<exists>d::nat. d < 10 \<and> digit_char (n mod 10) = digit_char d" by (rule exI [of _ "n mod 10"]) simp
    ultimately show ?thesis using 1 by (subst decimal.simps) auto
  qed
qed

lemma decimal_value: "value_of 10 0 (decimal n) = n"
proof (induction n rule: decimal.induct)
  case (1 n)
  then show ?case by (subst decimal.simps) (simp add: value_of_def)
qed

lemma decimal_first:
  obtains d :: nat and cs where "decimal n = digit_char d # cs" "d < 10" "d = 0 \<Longrightarrow> n = 0 \<and> cs = []"
proof -
  have "\<exists>(d::nat) cs. decimal n = digit_char d # cs \<and> d < 10 \<and> (d = 0 \<longrightarrow> n = 0 \<and> cs = [])"
  proof (induction n rule: decimal.induct)
    case (1 n)
    show ?case
    proof (cases "n < 10")
      case True
      then show ?thesis by (subst decimal.simps) auto
    next
      case False
      with 1 obtain d :: nat and cs where "decimal (n div 10) = digit_char d # cs" "d < 10" "d = 0 \<longrightarrow> n div 10 = 0" by auto
      with False show ?thesis by (subst decimal.simps) auto
    qed
  qed
  then show ?thesis using that by blast
qed

lemma length_decimal: "n < 256 \<Longrightarrow> length (decimal n) \<le> 3"
  by (subst decimal.simps, subst decimal.simps, subst decimal.simps) auto

lemma digit_char_first [simp]:
  assumes "d < 10"
  shows "\<not> is_space (digit_char d)" "digit_char d \<noteq> CHR ''-''" "digit_char d \<noteq> CHR ''+''" "digit_char d = CHR ''0'' \<longleftrightarrow> d = 0"
proof -
  have n: "(of_char (digit_char d) :: nat) = 48 + d" using assms by (simp add: digit_char_def)
  show "\<not> is_space (digit_char d)" using n by (auto simp: is_space_def)
  have "c \<noteq> digit_char d" if "(of_char c :: nat) \<noteq> 48 + d" for c using n that by auto
  from this [of "CHR ''-''"] this [of "CHR ''+''"] show "digit_char d \<noteq> CHR ''-''" "digit_char d \<noteq> CHR ''+''" by auto
  show "digit_char d = CHR ''0'' \<longleftrightarrow> d = 0"
  proof
    assume "digit_char d = CHR ''0''"
    then have "(of_char (digit_char d) :: nat) = 48" by simp
    then show "d = 0" using n by simp
  next
    have "char_of (of_char (CHR ''0'') :: nat) = CHR ''0''" by (rule char_of_char)
    moreover assume "d = 0"
    ultimately show "digit_char d = CHR ''0''" by (simp add: digit_char_def)
  qed
qed

lemma is_digit_char [simp]: "d < 10 \<Longrightarrow> d < base \<Longrightarrow> is_digit base (digit_char d)" "\<not> is_digit base CHR ''.''"
  by (simp_all add: is_digit_def)

lemma digits_stop: "rest = [] \<or> hd rest = CHR ''.'' \<Longrightarrow> digits base acc rest = (acc, rest)"
  by (cases rest) auto

lemma strtoul_decimal:
  assumes "n < 2 ^ 64" "rest = [] \<or> hd rest = CHR ''.''"
  shows "strtoul (decimal n @ rest) = (of_nat n, rest)"
proof -
  obtain d cs where d: "decimal n = digit_char d # cs" "d < 10" "d = 0 \<Longrightarrow> n = 0 \<and> cs = []" by (rule decimal_first) blast
  have s: "sign_prefix (dropWhile is_space (decimal n @ rest)) = (False, decimal n @ rest)"
    using d(1,2) by (simp add: sign_prefix_def split: char.split bool.split)
  have all: "\<forall>c\<in>set (decimal n). is_digit 10 c" using decimal_digits [of n] by auto
  show ?thesis
  proof (cases "d = 0")
    case True
    then have z: "decimal n = ''0''" "n = 0" using d by simp_all
    have "base_prefix (''0'' @ rest) = (8, ''0'' @ rest)"
      using assms(2) by (cases rest) (auto simp: base_prefix_def split: list.split)
    moreover have "digits 8 0 (''0'' @ rest) = (0, rest)" using digits_stop [OF assms(2)] by (simp add: is_digit_def digit_of_def)
    ultimately show ?thesis using s z by (simp add: strtoul_def is_digit_def digit_of_def)
  next
    case False
    then have "base_prefix (decimal n @ rest) = (10, decimal n @ rest)"
      using d(1,2) by (simp add: base_prefix_def split: char.split bool.split)
    moreover have "digits 10 0 (decimal n @ rest) = (n, rest)"
      using digits_append [OF all, of 0 rest] digits_stop [OF assms(2)] by (simp add: decimal_value)
    ultimately show ?thesis using s assms(1) d(1,2) by (simp add: strtoul_def)
  qed
qed

lemma int_of_component:
  assumes "n mod 2 ^ 32 \<le> 256"
  shows "sint (ucast (of_nat n :: u64) :: u32) = int (n mod 2 ^ 32)" "(ucast (ucast (of_nat n :: u64) :: u32) :: u8) = of_nat n"
proof -
  have u: "(ucast (of_nat n :: u64) :: u32) = of_nat (n mod 2 ^ 32)"
    by (simp add: unsigned_of_nat word_of_nat_eq_iff take_bit_eq_mod mod_mod_cancel)
  show "sint (ucast (of_nat n :: u64) :: u32) = int (n mod 2 ^ 32)"
    unfolding u using assms by (simp add: signed_of_nat signed_take_bit_int_eq_self)
  show "(ucast (ucast (of_nat n :: u64) :: u32) :: u8) = of_nat n"
    by (simp add: unsigned_of_nat word_of_nat_eq_iff take_bit_eq_mod mod_mod_cancel)
qed

lemma parse_component:
  assumes "n < 2 ^ 64" "n mod 2 ^ 32 \<le> 256" "rest = [] \<or> (\<exists>q. rest = CHR ''.'' # q)"
  shows "parse_loop (Suc k) i (decimal n @ rest) a = parse_loop k (Suc i) (tl rest) (a[i := Some (of_nat n)])"
proof -
  obtain d cs where d: "decimal n = digit_char d # cs" by (rule decimal_first)
  have s: "strtoul (digit_char d # cs @ rest) = (of_nat n, rest)"
    using strtoul_decimal [of n rest] assms(1,3) d by fastforce
  show ?thesis using assms(3) int_of_component [OF assms(2)] assms(2) s by (auto simp: d Let_def)
qed

text \<open>
  What the parser makes of four decimal numbers with dots between them. The first one is only bounded modulo \<open>2\<^sup>3\<^sup>2\<close> and by 256, as are the others,
  and a dot after the fourth ends the address whatever follows it.
\<close>

definition dotted :: "nat \<Rightarrow> nat \<Rightarrow> nat \<Rightarrow> nat \<Rightarrow> string" where
  "dotted a b c d = decimal a @ ''.'' @ decimal b @ ''.'' @ decimal c @ ''.'' @ decimal d"

definition component :: "nat \<Rightarrow> bool" where
  "component n \<longleftrightarrow> n < 2 ^ 64 \<and> n mod 2 ^ 32 \<le> 256"

lemma parseip_dotted:
  assumes "component a" "component b" "component c" "component d" "rest = [] \<or> (\<exists>q. rest = CHR ''.'' # q)"
  shows "parseip (dotted a b c d @ rest) = Inr (Some [of_nat a, of_nat b, of_nat c, of_nat d])"
proof -
  have four: "(4 :: nat) = Suc (Suc (Suc (Suc 0)))" by simp
  note step = parse_component [of _ "CHR ''.'' # _"]
  have "parse_loop 4 0 (dotted a b c d @ rest) [None, None, None, None] =
      Parsed 4 [Some (of_nat a), Some (of_nat b), Some (of_nat c), Some (of_nat d)]"
    using assms parse_component [of d rest] unfolding four dotted_def component_def by (simp add: step)
  then show ?thesis by (simp add: parseip_def the_byte_def fill_class_def read_all_def)
qed

lemma print_ip_dotted:
  shows "print_ip ip = dotted (unat (ip ! 0)) (unat (ip ! 1)) (unat (ip ! 2)) (unat (ip ! 3))"
proof -
  have l: "length (decimal (unat b)) \<le> 3" for b :: u8 using unsigned_less [of b, where 'a = nat] by (intro length_decimal) simp
  show ?thesis unfolding print_ip_def dotted_def
    by (rule take_all) (use l [of "ip ! 0"] l [of "ip ! 1"] l [of "ip ! 2"] l [of "ip ! 3"] in simp)
qed

lemma component_byte [simp]: "component (unat (b :: u8))"
  using unsigned_less [of b, where 'a = nat] by (simp add: component_def)

text \<open>A failed call leaves no descriptor open, a successful one exactly its answer, which is non-blocking.\<close>

definition owns :: "int \<Rightarrow> oscall list \<Rightarrow> bool" where
  "owns r tr \<longleftrightarrow> (r = - 1 \<and> open_fds tr = {}) \<or> (0 \<le> r \<and> open_fds tr = {r} \<and> Nonblocking r \<in> set tr)"

lemma owns_nothing: "owns (- 1) []"
  by (simp add: owns_def)

lemma owns_dial: "dial_to a istcp port usec ip = (r, tr, e) \<Longrightarrow> owns r tr"
  by (cases "ans_fd a < 0"; cases istcp) (auto simp: dial_to_def owns_def Let_def split: if_splits)

lemma owns_announce: "announce_at a istcp port ip = (r, tr) \<Longrightarrow> owns r tr"
  by (cases "ans_fd a < 0"; cases istcp) (auto simp: announce_at_def owns_def Let_def split: if_splits)

section \<open>Properties\<close>

text \<open>
  Claim C28. Addresses survive printing and parsing: the string that \<open>coroc_net_timed_accept\<close> writes for a peer is never cut off, and \<open>coroc_net_lookup\<close>
  of that string gives the four bytes of the address back without asking the name service, whatever the bytes are.
\<close>

theorem parse_print_address:
  assumes "length ip = 4"
  shows "net_lookup host (print_ip ip) = Inr (Some ip)"
proof -
  obtain a b c d where ip: "ip = [a, b, c, d]" using assms by (auto simp: numeral_eq_Suc length_Suc_conv)
  have "parseip (print_ip ip) = Inr (Some ip)"
    using parseip_dotted [of "unat a" "unat b" "unat c" "unat d" "[]"] by (simp add: print_ip_dotted ip)
  then show ?thesis by (simp add: net_lookup_def)
qed

theorem parse_print_address_witness: "net_lookup (\<lambda>_. None) (print_ip [192, 168, 0, 255]) = Inr (Some [192, 168, 0, 255])"
  using parse_print_address [of "[192, 168, 0, 255]"] by simp

text \<open>
  Claim C29. No descriptor is lost. Whatever the system answers, dialling, announcing and accepting either fail with \<open>-1\<close> and leave no descriptor open, or
  return the only descriptor they have opened and not closed, which is non-blocking.
\<close>

theorem net_no_descriptor_lost:
  assumes "net_timed_dial host a istcp server port usec = Inr (r1, tr1, e)" "net_announce host a istcp name port = Inr (r2, tr2)"
    and "net_timed_accept a fd usec = (r3, tr3, peer, pport)"
  shows "owns r1 tr1 \<and> owns r2 tr2 \<and> owns r3 tr3"
proof (intro conjI)
  have "(r1 = - 1 \<and> tr1 = []) \<or> (\<exists>ip. dial_to a istcp port usec ip = (r1, tr1, e))"
    using assms(1) by (auto simp: net_timed_dial_def andthen_Inr_iff split: option.splits)
  then show "owns r1 tr1" using owns_dial owns_nothing by blast
  have "(r2 = - 1 \<and> tr2 = []) \<or> (\<exists>ip. announce_at a istcp port ip = (r2, tr2))"
    using assms(2) by (auto simp: net_announce_def andthen_Inr_iff split: option.splits if_splits)
  then show "owns r2 tr2" using owns_announce owns_nothing by blast
  show "owns r3 tr3" using assms(3) by (cases "ans_fd a < 0") (auto simp: net_timed_accept_def Let_def owns_def split: if_splits)
qed

theorem net_no_descriptor_lost_witness:
  "owns 7 [Opened 7, Nonblocking 7, Connecting 7 [10, 0, 0, 1] 80, Waited 7] \<and>
   owns (- 1) [Opened 7, Closed 7] \<and> owns 7 [Waited 3, Opened 7, Nonblocking 7, Option_set 7]"
proof -
  let ?a = "\<lparr>ans_fd = 7, ans_sockopt = False, ans_bind = False, ans_connect = True, ans_wait = 2, ans_peername = True, ans_error = 0, ans_peer = [1, 2, 3, 4], ans_port = 99\<rparr>"
  have "parseip (dotted 10 0 0 1) = Inr (Some [10, 0, 0, 1])" using parseip_dotted [of 10 0 0 1 "[]"] by (simp add: component_def)
  then have d: "net_timed_dial (\<lambda>_. None) ?a True (dotted 10 0 0 1) 80 5 =
      Inr (7, [Opened 7, Nonblocking 7, Connecting 7 [10, 0, 0, 1] 80, Waited 7], None)"
    by (simp add: net_timed_dial_def net_lookup_def dial_to_def htons_def)
  have n: "net_announce (\<lambda>_. None) ?a True None 80 = Inr (- 1, [Opened 7, Closed 7])" by (simp add: net_announce_def announce_at_def)
  have t: "net_timed_accept ?a 3 5 = (7, [Waited 3, Opened 7, Nonblocking 7, Option_set 7], print_ip [1, 2, 3, 4], 99)"
    by (simp add: net_timed_accept_def)
  show ?thesis using net_no_descriptor_lost [OF d n t] .
qed

text \<open>
  What the parser accepts beyond addresses: the component 256, which becomes 0; components that are small only modulo \<open>2\<^sup>3\<^sup>2\<close>; anything after a
  fourth dot. The empty string makes it look at a byte that it has not assigned.
\<close>

lemma parseip_flaws:
  "parseip (dotted 256 0 0 1) = Inr (Some [0, 0, 0, 1])" "parseip (dotted (2 ^ 32 + 1) 0 0 1) = Inr (Some [1, 0, 0, 1])"
  "parseip (dotted 1 2 3 4 @ ''.hello'') = Inr (Some [1, 2, 3, 4])" "parseip [] = Inl Uninit"
proof -
  show "parseip [] = Inl Uninit"
    using parse_loop.simps(2) [of 3 0] by (simp add: parseip_def the_byte_def numeral_eq_Suc)
qed (use parseip_dotted [of 256 0 0 1 "[]"] parseip_dotted [of "2 ^ 32 + 1" 0 0 1 "[]"] parseip_dotted [of 1 2 3 4 "''.hello''"] in
     \<open>simp_all add: component_def\<close>)

end
