(* ===== verification/Api.thy ===== *)
theory Api
  imports Timer Message
begin

text \<open>
  The operations of the CoroC language (\<^verbatim>\<open>include/libcoroc.h\<close>), which are macros over the functions of the library: sending and receiving
  values and counted references, adding references to a select set, releasing references, allocating counted objects, and the timers of the
  language. A variable is a memory cell; a variable of a reference type holds \<open>RefE\<close>. A macro that blocks has its remaining
  part as an operation of its own, as the functions below it have.
\<close>

section \<open>Channels\<close>

datatype api_out = ApiRet bool sys | ApiAsleep sys

definition answer :: "(chan_code \<Rightarrow> bool) \<Rightarrow> chan_out \<Rightarrow> api_out" where
  "answer P out = (case out of Ret r s \<Rightarrow> ApiRet (P r) s | Suspended s \<Rightarrow> ApiAsleep s)"

definition CoroC_Chan_Send :: "nat option \<Rightarrow> addr \<Rightarrow> ptr \<Rightarrow> addr \<Rightarrow> sys \<Rightarrow> c_err + api_out" where
  "CoroC_Chan_Send vo c p q s = andthen (chan_send vo c p True q s) (\<lambda>out. Inr (answer (\<lambda>r. r \<noteq> CHAN_CLOSED) out))"

definition CoroC_Chan_Recv :: "nat option \<Rightarrow> ptr \<Rightarrow> ptr \<Rightarrow> addr \<Rightarrow> sys \<Rightarrow> c_err + api_out" where
  "CoroC_Chan_Recv vo c p q s = andthen (chan_recv vo c p True q s) (\<lambda>out. Inr (answer (\<lambda>r. r \<noteq> CHAN_CLOSED) out))"

text \<open>The two blocking macros end alike after a wake-up.\<close>

definition CoroC_Chan_awaken :: "addr \<Rightarrow> addr \<Rightarrow> sys \<Rightarrow> c_err + (bool \<times> sys)" where
  "CoroC_Chan_awaken c q s = andthen (chan_awaken c q s) (\<lambda>(r, s). Inr (r \<noteq> CHAN_CLOSED, s))"

definition CoroC_Chan_Send_NB :: "nat option \<Rightarrow> addr \<Rightarrow> ptr \<Rightarrow> addr \<Rightarrow> sys \<Rightarrow> c_err + api_out" where
  "CoroC_Chan_Send_NB vo c p q s = andthen (chan_send vo c p False q s) (\<lambda>out. Inr (answer (\<lambda>r. r = CHAN_SUCCESS) out))"

definition CoroC_Chan_Recv_NB :: "nat option \<Rightarrow> ptr \<Rightarrow> ptr \<Rightarrow> addr \<Rightarrow> sys \<Rightarrow> c_err + api_out" where
  "CoroC_Chan_Recv_NB vo c p q s = andthen (chan_recv vo c p False q s) (\<lambda>out. Inr (answer (\<lambda>r. r = CHAN_SUCCESS) out))"

text \<open>\<open>__temp\<close> is a variable of the macro's own block, at the address \<open>t\<close>.\<close>

definition CoroC_Chan_SendExpr :: "nat option \<Rightarrow> addr \<Rightarrow> addr \<Rightarrow> elem \<Rightarrow> addr \<Rightarrow> sys \<Rightarrow> c_err + api_out" where
  "CoroC_Chan_SendExpr vo c t x q s = CoroC_Chan_Send vo c (Some t) q (s\<lparr>mem := (mem s)(t := x)\<rparr>)"

definition CoroC_Chan_SendExpr_NB :: "nat option \<Rightarrow> addr \<Rightarrow> addr \<Rightarrow> elem \<Rightarrow> addr \<Rightarrow> sys \<Rightarrow> c_err + api_out" where
  "CoroC_Chan_SendExpr_NB vo c t x q s = CoroC_Chan_Send_NB vo c (Some t) q (s\<lparr>mem := (mem s)(t := x)\<rparr>)"

section \<open>References\<close>

definition read_ref :: "addr \<Rightarrow> sys \<Rightarrow> c_err + ptr" where
  "read_ref r s = (case mem s r of RefE p \<Rightarrow> Inr p | _ \<Rightarrow> Inl BadPointer)"

text \<open>\<open>__coroc_refcnt_get\<close> does not test its argument.\<close>

definition ref_get :: "addr \<Rightarrow> sys \<Rightarrow> c_err + sys" where
  "ref_get r s = andthen (read_ref r s) (\<lambda>p. case p of
     None \<Rightarrow> Inl NullDeref | Some x \<Rightarrow> Inr (s\<lparr>rmem := refcnt_get x (rmem s)\<rparr>))"

definition ref_put :: "addr \<Rightarrow> sys \<Rightarrow> c_err + (bool \<times> sys)" where
  "ref_put r s = andthen (read_ref r s) (\<lambda>p. case refcnt_put p (rmem s) of (b, m) \<Rightarrow> Inr (b, s\<lparr>rmem := m\<rparr>))"

definition put_unless :: "bool \<Rightarrow> addr \<Rightarrow> sys \<Rightarrow> c_err + (bool \<times> sys)" where
  "put_unless ok r s = (if ok then Inr (True, s) else andthen (ref_put r s) (\<lambda>(b, s). Inr (False, s)))"

definition CoroC_Chan_SendRef :: "nat option \<Rightarrow> addr \<Rightarrow> addr \<Rightarrow> addr \<Rightarrow> sys \<Rightarrow> c_err + api_out" where
  "CoroC_Chan_SendRef vo c r q s = andthen (ref_get r s)
     (\<lambda>s. andthen (chan_send vo c (Some r) True q s)
        (\<lambda>out. case out of
           Ret code s \<Rightarrow> andthen (put_unless (code \<noteq> CHAN_CLOSED) r s) (\<lambda>(ok, s). Inr (ApiRet ok s))
         | Suspended s \<Rightarrow> Inr (ApiAsleep s)))"

definition CoroC_Chan_SendRef_awaken :: "addr \<Rightarrow> addr \<Rightarrow> addr \<Rightarrow> sys \<Rightarrow> c_err + (bool \<times> sys)" where
  "CoroC_Chan_SendRef_awaken c r q s = andthen (chan_awaken c q s) (\<lambda>(code, s). put_unless (code \<noteq> CHAN_CLOSED) r s)"

definition CoroC_Chan_SendRef_NB :: "nat option \<Rightarrow> addr \<Rightarrow> addr \<Rightarrow> addr \<Rightarrow> sys \<Rightarrow> c_err + api_out" where
  "CoroC_Chan_SendRef_NB vo c r q s = andthen (ref_get r s)
     (\<lambda>s. andthen (chan_send vo c (Some r) False q s)
        (\<lambda>out. case out of
           Ret code s \<Rightarrow> andthen (put_unless (code = CHAN_SUCCESS) r s) (\<lambda>(ok, s). Inr (ApiRet ok s))
         | Suspended s \<Rightarrow> Inr (ApiAsleep s)))"

text \<open>The old reference of the variable is dropped first.\<close>

definition CoroC_Chan_RecvRef :: "nat option \<Rightarrow> ptr \<Rightarrow> addr \<Rightarrow> addr \<Rightarrow> sys \<Rightarrow> c_err + api_out" where
  "CoroC_Chan_RecvRef vo c r q s = andthen (ref_put r s) (\<lambda>(b, s). CoroC_Chan_Recv vo c (Some r) q s)"

definition CoroC_Chan_RecvRef_NB :: "nat option \<Rightarrow> ptr \<Rightarrow> addr \<Rightarrow> addr \<Rightarrow> sys \<Rightarrow> c_err + api_out" where
  "CoroC_Chan_RecvRef_NB vo c r q s = andthen (ref_put r s) (\<lambda>(b, s). CoroC_Chan_Recv_NB vo c (Some r) q s)"

definition CoroC_Select_SendRef :: "addr \<Rightarrow> addr \<Rightarrow> chan_set \<Rightarrow> sys \<Rightarrow> c_err + (chan_set \<times> sys)" where
  "CoroC_Select_SendRef c r cset s = andthen (ref_get r s) (chan_set_send c (Some r) cset)"

definition CoroC_Select_RecvRef :: "nat option \<Rightarrow> ptr \<Rightarrow> addr \<Rightarrow> chan_set \<Rightarrow> sys \<Rightarrow> c_err + (chan_set \<times> sys)" where
  "CoroC_Select_RecvRef vo c r cset s = andthen (ref_put r s) (\<lambda>(b, s). chan_set_recv vo c (Some r) cset s)"

text \<open>The macro answers the active channel only; \<open>active\<close> stays \<open>NULL\<close> for an empty set.\<close>

datatype api_select = Active ptr chan_set sys | SelectAsleep chan_set sys

definition CoroC_Select :: "nat option \<Rightarrow> chan_set \<Rightarrow> bool \<Rightarrow> addr list \<Rightarrow> sys \<Rightarrow> c_err + api_select" where
  "CoroC_Select vo cset block qs s = andthen (chan_set_select vo cset block qs s)
     (\<lambda>out. case out of
        SelRet r active cset s \<Rightarrow> Inr (Active active cset s)
      | SelEmpty \<Rightarrow> Inr (Active None cset s)
      | SelSuspended cset s \<Rightarrow> Inr (SelectAsleep cset s))"

text \<open>\<open>__CoroC_Task_Release\<close> and \<open>__CoroC_Chan_Release\<close> are the same code.\<close>

definition CoroC_Release :: "addr \<Rightarrow> sys \<Rightarrow> c_err + sys" where
  "CoroC_Release r s = andthen (ref_put r s) (\<lambda>(b, s). Inr (if b then s\<lparr>mem := (mem s)(r := RefE None)\<rparr> else s))"

primrec refcnt_put_array_at :: "addr list \<Rightarrow> sys \<Rightarrow> c_err + sys" where
  "refcnt_put_array_at [] s = Inr s"
| "refcnt_put_array_at (r # rs) s = andthen (ref_put r s) (\<lambda>(b, s). refcnt_put_array_at rs s)"

text \<open>\<open>calloc\<close> gives the object at \<open>x\<close> with a count of 0; what its release handler does is not state.\<close>

definition CoroC_New :: "addr \<Rightarrow> sys \<Rightarrow> ptr \<times> sys" where
  "CoroC_New x s = (Some x, s\<lparr>rmem := refcnt_get x ((rmem s)\<lparr>rc_count := (rc_count (rmem s))(x := 0)\<rparr>)\<rparr>)"

text \<open>Objects without a destructor of the user's: \<open>free\<close> is the release handler.\<close>

definition CoroC_New_Basic :: "addr \<Rightarrow> sys \<Rightarrow> ptr \<times> sys" where
  "CoroC_New_Basic x s = (Some x, s\<lparr>rmem := refcnt_get x ((rmem s)\<lparr>rc_count := (rc_count (rmem s))(x := 0)\<rparr>)\<rparr>)"

text \<open>Assignment between variables, and of an expression that holds a reference already, to the variable \<open>d\<close>.\<close>

definition refcnt_assign_at :: "addr \<Rightarrow> ptr \<Rightarrow> sys \<Rightarrow> c_err + (ptr \<times> sys)" where
  "refcnt_assign_at d src s = andthen (read_ref d s) (\<lambda>p. case refcnt_assign p src (rmem s) of
     (p', m) \<Rightarrow> Inr (p', s\<lparr>mem := (mem s)(d := RefE p'), rmem := m\<rparr>))"

definition refcnt_assign_expr_at :: "addr \<Rightarrow> ptr \<Rightarrow> sys \<Rightarrow> c_err + (ptr \<times> sys)" where
  "refcnt_assign_expr_at d src s = andthen (read_ref d s) (\<lambda>p. case refcnt_assign_expr p src (rmem s) of
     (p', m) \<Rightarrow> Inr (p', s\<lparr>mem := (mem s)(d := RefE p'), rmem := m\<rparr>))"

text \<open>\<open>t\<close> is the address of the new coroutine.\<close>

definition CoroC_Spawn :: "addr \<Rightarrow> ptr \<Rightarrow> ptr \<Rightarrow> nat \<Rightarrow> ptr \<Rightarrow> nat option \<Rightarrow> sys \<Rightarrow> c_err + sys" where
  "CoroC_Spawn t f a p cb vo s = coroutine_allocate t f a NORMAL p cb vo s"

text \<open>\<open>__temp\<close> lives at the address \<open>t\<close>, in a block that ends with the macro; the set keeps the address.\<close>

definition CoroC_Select_SendExpr :: "addr \<Rightarrow> addr \<Rightarrow> elem \<Rightarrow> chan_set \<Rightarrow> sys \<Rightarrow> c_err + (chan_set \<times> sys)" where
  "CoroC_Select_SendExpr c t x cset s = chan_set_send c (Some t) cset (s\<lparr>mem := (mem s)(t := x)\<rparr>)"

section \<open>Messages and timers\<close>

definition CoroC_Task_Send :: "nat option \<Rightarrow> addr \<Rightarrow> ptr \<Rightarrow> int \<Rightarrow> ptr \<Rightarrow> addr \<Rightarrow> addr \<Rightarrow> sys \<Rightarrow> c_err + chan_out" where
  "CoroC_Task_Send vo task b n tmp m q s = andthen (read_ref task s) (\<lambda>p. case p of
     None \<Rightarrow> Inl NullDeref | Some t \<Rightarrow> msg_send vo t b n tmp m q s)"

definition CoroC_Task_Recv :: "nat option \<Rightarrow> ptr \<Rightarrow> int \<Rightarrow> addr \<Rightarrow> addr \<Rightarrow> sys \<Rightarrow> c_err + msg_out" where
  "CoroC_Task_Recv vo b n m q s = msg_recv vo b n True m q s"

definition CoroC_Task_Recv_NB :: "nat option \<Rightarrow> ptr \<Rightarrow> int \<Rightarrow> addr \<Rightarrow> addr \<Rightarrow> sys \<Rightarrow> c_err + msg_out" where
  "CoroC_Task_Recv_NB vo b n m q s = msg_recv vo b n False m q s"

text \<open>The timer itself is the answer, at the address \<open>t\<close>. The period of a ticker is cut to 32 bits when the ticker is allocated.\<close>

definition CoroC_Timer_At :: "nat option \<Rightarrow> addr \<Rightarrow> addr \<Rightarrow> addr \<Rightarrow> u64 \<Rightarrow> addr \<Rightarrow> elem list \<Rightarrow> u64 \<Rightarrow> tmgr \<Rightarrow> sys \<Rightarrow> c_err + timer_out" where
  "CoroC_Timer_At vo dm entry q now t store at m s =
     (case timer_allocate t 0 None store m s of (m, s) \<Rightarrow> timer_at (\<lambda>f s. Inr s) vo dm entry q now t at m s)"

definition CoroC_Timer_After ::
    "nat option \<Rightarrow> addr \<Rightarrow> addr \<Rightarrow> addr \<Rightarrow> u64 \<Rightarrow> u64 \<Rightarrow> addr \<Rightarrow> elem list \<Rightarrow> u64 \<Rightarrow> tmgr \<Rightarrow> sys \<Rightarrow> c_err + timer_out" where
  "CoroC_Timer_After vo dm entry q t0 now t store after m s =
     (case timer_allocate t 0 None store m s of (m, s) \<Rightarrow> timer_after (\<lambda>f s. Inr s) vo dm entry q t0 now t after m s)"

definition CoroC_Ticker ::
    "nat option \<Rightarrow> addr \<Rightarrow> addr \<Rightarrow> addr \<Rightarrow> u64 \<Rightarrow> u64 \<Rightarrow> addr \<Rightarrow> elem list \<Rightarrow> u64 \<Rightarrow> tmgr \<Rightarrow> sys \<Rightarrow> c_err + timer_out" where
  "CoroC_Ticker vo dm entry q t0 now t store period m s =
     (case timer_allocate t (ucast period) None store m s of (m, s) \<Rightarrow> timer_after (\<lambda>f s. Inr s) vo dm entry q t0 now t period m s)"

definition CoroC_Stop :: "addr \<Rightarrow> tmgr \<Rightarrow> sys \<Rightarrow> c_err + (int \<times> tmgr \<times> sys)" where
  "CoroC_Stop t m s = timer_stop t m s"


section \<open>The references of a program\<close>

text \<open>
  A program holds the references in its variables and those in its channels: stored ones, and those of senders that wait, who have taken
  a reference for the receiver already. \<open>V\<close> are the variables that hold a counted reference; the variable of a receiver that
  waits is not one of them.
\<close>

primrec refs_of :: "elem \<Rightarrow> addr multiset" where
  "refs_of (Raw bs) = {#}"
| "refs_of (MsgE n p) = {#}"
| "refs_of (RefE p) = mset (opt_list p)"

definition held :: "addr set \<Rightarrow> addr \<Rightarrow> sys \<Rightarrow> addr multiset" where
  "held V c s = (\<Sum>a\<in>V. refs_of (mem s a)) + sum_list (map refs_of (pipe s c))"

abbreviation cell :: "sys \<Rightarrow> addr \<Rightarrow> addr" where
  "cell s q \<equiv> the (qm_itembuf (quanta s q))"

definition ref_shape :: "addr set \<Rightarrow> addr \<Rightarrow> sys \<Rightarrow> bool" where
  "ref_shape V c s \<longleftrightarrow> sched_inv s \<and> chan_ok s c \<and> finite V \<and> \<not> locks s c \<and>
     cell s ` set (pending_senders s c) \<subseteq> V \<and> cell s ` set (waiting_receivers s c) \<inter> V = {} \<and>
     distinct (map (cell s) (waiting_receivers s c)) \<and> (waiting_receivers s c = [] \<or> pipe s c = [])"

definition ref_inv :: "addr set \<Rightarrow> addr \<Rightarrow> sys \<Rightarrow> bool" where
  "ref_inv V c s \<longleftrightarrow> ref_shape V c s \<and> refs_ok (held V c s) (rmem s)"

lemma rmem_frame [simp]:
  "live (s\<lparr>rmem := m\<rparr>) = live s" "pending_senders (s\<lparr>rmem := m\<rparr>) c = pending_senders s c"
  "waiting_receivers (s\<lparr>rmem := m\<rparr>) c = waiting_receivers s c" "pipe (s\<lparr>rmem := m\<rparr>) c = pipe s c"
  "chan_ok (s\<lparr>rmem := m\<rparr>) c = chan_ok s c" "held V c (s\<lparr>rmem := m\<rparr>) = held V c s"
  "ref_shape V c (s\<lparr>rmem := m\<rparr>) = ref_shape V c s"
proof -
  show l: "live (s\<lparr>rmem := m\<rparr>) = live s" by (simp add: fun_eq_iff live_def)
  then show p: "pending_senders (s\<lparr>rmem := m\<rparr>) c = pending_senders s c" "waiting_receivers (s\<lparr>rmem := m\<rparr>) c = waiting_receivers s c"
    by (simp_all add: pending_senders_def waiting_receivers_def)
  have "sent_value (s\<lparr>rmem := m\<rparr>) = sent_value s" by (simp add: fun_eq_iff sent_value_def)
  with p show i: "pipe (s\<lparr>rmem := m\<rparr>) c = pipe s c" by (simp add: pipe_def)
  show k: "chan_ok (s\<lparr>rmem := m\<rparr>) c = chan_ok s c" using l by (simp add: chan_ok_def que_ok_def)
  show "held V c (s\<lparr>rmem := m\<rparr>) = held V c s" using i by (simp add: held_def)
  show "ref_shape V c (s\<lparr>rmem := m\<rparr>) = ref_shape V c s" using p i k by (simp add: ref_shape_def)
qed

lemma held_write:
  assumes "finite V" "d \<notin> V" "mem s' = (mem s)(d := x)"
  shows "held (insert d V) c s' = (\<Sum>a\<in>V. refs_of (mem s a)) + refs_of x + sum_list (map refs_of (pipe s' c))"
proof -
  have "(\<Sum>a\<in>V. refs_of (((mem s)(d := x)) a)) = (\<Sum>a\<in>V. refs_of (mem s a))" using assms(2) by (intro sum.cong) auto
  then show ?thesis using assms by (simp add: held_def)
qed

lemma held_minus:
  assumes "finite V" "r \<in> V"
  shows "held V c s = held (V - {r}) c s + refs_of (mem s r)"
  using assms by (simp add: held_def sum.remove [OF assms])

text \<open>Sending and receiving do not touch the counts.\<close>

primrec out_sys :: "chan_out \<Rightarrow> sys" where
  "out_sys (Ret r s) = s"
| "out_sys (Suspended s) = s"

lemma block_on_rmem: "block_on vo c b q f s = Inr out \<Longrightarrow> rmem (out_sys out) = rmem s"
  by (auto simp: block_on_def andthen_Inr_iff Let_def upd_quantum_def upd_chan_def dest!: vpu_suspend_frame split: option.splits)

lemma claim_or_same: "fetch_quantum qs s = (qp, rest, s') \<Longrightarrow> rmem s' = rmem s"
  by (auto simp: fetch_quantum_eq split: list.splits)

lemma chan_send_locked_rmem: "chan_send_locked vo c b block q s = Inr out \<Longrightarrow> rmem (out_sys out) = rmem s"
  by (auto simp: chan_send_locked_def Let_def andthen_Inr_iff upd_chan_def
      dest!: block_on_rmem claim_or_same vpu_ready_frame split: if_splits option.splits prod.splits)

lemma chan_recv_locked_rmem: "chan_recv_locked vo c b block q s = Inr out \<Longrightarrow> rmem (out_sys out) = rmem s"
  by (auto simp: chan_recv_locked_def Let_def andthen_Inr_iff upd_chan_def
      dest!: block_on_rmem claim_or_same vpu_ready_frame split: if_splits option.splits prod.splits)

lemma with_chan_lock_rmem:
  assumes "with_chan_lock c f s = Inr out" "\<And>s out. f s = Inr out \<Longrightarrow> rmem (out_sys out) = rmem s"
  shows "rmem (out_sys out) = rmem s"
proof (cases "lock_acquire_at c s")
  case (Inr s1)
  then have r: "rmem s1 = rmem s" by (auto simp: lock_acquire_at_def split: if_splits)
  show ?thesis
  proof (cases "f s1")
    case (Inr o1)
    with assms(2) [OF this] assms(1) \<open>lock_acquire_at c s = Inr s1\<close> r show ?thesis
      by (cases o1) (auto simp: with_chan_lock_def lock_release_at_def)
  qed (use assms(1) Inr in \<open>simp add: with_chan_lock_def\<close>)
qed (use assms(1) in \<open>simp add: with_chan_lock_def\<close>)

lemma chan_send_rmem: "chan_send vo c b block q s = Inr out \<Longrightarrow> rmem (out_sys out) = rmem s"
  using with_chan_lock_rmem chan_send_locked_rmem unfolding chan_send_def by blast

lemma chan_recv_rmem: "chan_recv vo c b block q s = Inr out \<Longrightarrow> rmem (out_sys out) = rmem s"
  using with_chan_lock_rmem chan_recv_locked_rmem unfolding chan_recv_def by (fastforce split: option.splits)

section \<open>Sending a reference\<close>

definition next_cells :: "addr \<Rightarrow> sys \<Rightarrow> addr set" where
  "next_cells c s = (case waiting_receivers s c of [] \<Rightarrow> {} | p # ps \<Rightarrow> {cell s p})"

lemma pipe_Nil_iff: "pipe s c = [] \<longleftrightarrow> contents (chans s c) = [] \<and> pending_senders s c = []"
  by (simp add: pipe_def)

lemma held_in: "finite V \<Longrightarrow> r \<in> V \<Longrightarrow> mem s r = RefE (Some x) \<Longrightarrow> x \<in># held V c s"
  using held_minus [of V r c s] by simp

lemma shape_deliver:
  assumes I: "ref_shape V c s" "v < xt_index s" and p: "waiting_receivers s c = p # ps"
  shows "\<exists>s'. chan_send (Some v) c (Some r) block q s = Inr (Ret CHAN_SUCCESS s') \<and> rmem s' = rmem s \<and>
    ref_shape (insert (cell s p) V) c s' \<and> held (insert (cell s p) V) c s' = held V c s + refs_of (mem s r)"
proof -
  have I': "sched_inv s" "chan_ok s c" "\<not> locks s c" "finite V" "cell s p \<notin> V" "pipe s c = []"
    "distinct (map (cell s) (p # ps))" "cell s ` set ps \<inter> V = {}"
    using I(1) p by (auto simp: ref_shape_def)
  have "p \<in> set (waiting_receivers s c)" using p by simp
  then have "p \<in> set (recv_que (chans s c))" by (simp add: waiting_receivers_def)
  then obtain d where d: "qm_itembuf (quanta s p) = Some d" using I'(2) by (auto simp: chan_ok_def que_ok_def)
  have vo: "\<forall>w. Some v = Some w \<longrightarrow> w < xt_index s" using I(2) by simp
  from send_to_receiver [OF I'(1-3) vo p d, of r block q] obtain s' where s':
    "chan_send (Some v) c (Some r) block q s = Inr (Ret CHAN_SUCCESS s')" "mem s' = (mem s)(d := mem s r)"
    "chans s' c = (chans s c)\<lparr>recv_que := recv_que (chans s' c)\<rparr>" "waiting_receivers s' c = ps"
    "pending_senders s' c = pending_senders s c" "quanta s' = quanta s" "sched_inv s'" "locks s' = locks s" "chan_ok s' c" "chan_frame c s s'"
    by blast
  from s'(3) have "contents (chans s' c) = contents (chans s c)" by (metis contents_queues(1))
  then have e: "pipe s' c = []" "pending_senders s' c = []" using I'(6) s'(5) by (simp_all add: pipe_Nil_iff)
  have "ref_shape (insert d V) c s'"
    using I' s' e d by (auto simp: ref_shape_def)
  moreover have "held (insert d V) c s' = held V c s + refs_of (mem s r)"
    using held_write [OF I'(4) _ s'(2), of c] I'(5,6) e d by (simp add: held_def)
  moreover have "rmem s' = rmem s" using s'(10) by (simp add: chan_frame_def)
  ultimately show ?thesis using s'(1) d by auto
qed

lemma shape_store:
  assumes I: "ref_shape V c s" and p: "waiting_receivers s c = []" "\<not> ch_close (chans s c)" "has_room (chans s c)"
  shows "\<exists>s'. chan_send vo c (Some r) block q s = Inr (Ret CHAN_SUCCESS s') \<and> rmem s' = rmem s \<and>
    ref_shape V c s' \<and> held V c s' = held V c s + refs_of (mem s r)"
proof -
  have I': "sched_inv s" "chan_ok s c" "\<not> locks s c" using I by (simp_all add: ref_shape_def)
  from send_stored [OF I' p, of vo r block q] obtain s' where s': "chan_send vo c (Some r) block q s = Inr (Ret CHAN_SUCCESS s')"
    "mem s' = mem s" "quanta s' = quanta s" "contents (chans s' c) = contents (chans s c) @ [mem s r]"
    "send_que (chans s' c) = send_que (chans s c)" "recv_que (chans s' c) = []" "cos s' = cos s" "sched_inv s'" "locks s' = locks s"
    "chan_ok s' c" "chan_frame c s s'" by metis
  have w: "pending_senders s' c = pending_senders s c" "waiting_receivers s' c = []" "sent_value s' = sent_value s"
    using s'(2,3,5-7) by (simp_all add: pending_senders_def waiting_receivers_def live_def [abs_def] sent_value_def fun_eq_iff)
  have "held V c s' = held V c s + refs_of (mem s r)" using s'(2,4) w by (simp add: held_def pipe_def)
  moreover have "ref_shape V c s'" using I s' w by (simp add: ref_shape_def)
  ultimately show ?thesis using s'(1,11) by (auto simp: chan_frame_def)
qed

lemma shape_send_block:
  assumes I: "ref_shape V c s" "r \<in> V" and v: "v < xt_index s" "running s v = Some self"
    and p: "waiting_receivers s c = []" "\<not> ch_close (chans s c)" "\<not> has_room (chans s c)"
    and q: "q \<notin> set (send_que (chans s c))" "self \<notin> (\<lambda>x. qm_co (quanta s x)) ` set (send_que (chans s c))"
  shows "\<exists>s'. chan_send (Some v) c (Some r) True q s = Inr (Suspended s') \<and> running s' v = None \<and>
    ref_shape V c s' \<and> held V c s' = held V c s + refs_of (mem s r)"
proof -
  have I': "sched_inv s" "chan_ok s c" "\<not> locks s c" using I by (simp_all add: ref_shape_def)
  from send_blocks [OF I' v p(3,1,2) q, of r] obtain s' where s': "chan_send (Some v) c (Some r) True q s = Inr (Suspended s')" "sched_inv s'"
    "chan_ok s' c" "\<not> locks s' c" "running s' v = None" "mem s' = mem s" "quanta s' = (quanta s)(q := quantum_init c self (Some r) False)"
    "pending_senders s' c = pending_senders s c @ [q]" "waiting_receivers s' c = []" "contents (chans s' c) = contents (chans s c)"
    by metis
  have "q \<notin> set (pending_senders s c)" using q(1) by (simp add: pending_senders_def)
  then have w: "map (sent_value s') (pending_senders s c) = map (sent_value s) (pending_senders s c)" "sent_value s' q = mem s r"
    "cell s' ` set (pending_senders s c) = cell s ` set (pending_senders s c)" "cell s' q = r"
    using s'(6,7) by (auto simp: sent_value_def quantum_init_def)
  then have "pipe s' c = pipe s c @ [mem s r]" using s'(8,10) by (simp only: pipe_def map_append list.map append_assoc)
  then have "held V c s' = held V c s + refs_of (mem s r)" using s'(6) by (simp add: held_def)
  moreover have "ref_shape V c s'" using I s' w by (simp add: ref_shape_def)
  ultimately show ?thesis using s'(1,5) by blast
qed

lemma shape_drop_dead:
  assumes "ref_shape V c s"
  shows "waiting_receivers s c = [] \<Longrightarrow> ref_shape V c (upd_chan c (\<lambda>ch. ch\<lparr>recv_que := []\<rparr>) s) \<and>
      held V c (upd_chan c (\<lambda>ch. ch\<lparr>recv_que := []\<rparr>) s) = held V c s"
    "pending_senders s c = [] \<Longrightarrow> ref_shape V c (upd_chan c (\<lambda>ch. ch\<lparr>send_que := []\<rparr>) s) \<and>
      held V c (upd_chan c (\<lambda>ch. ch\<lparr>send_que := []\<rparr>) s) = held V c s"
proof -
  let ?a = "upd_chan c (\<lambda>ch. ch\<lparr>recv_que := []\<rparr>) s" and ?b = "upd_chan c (\<lambda>ch. ch\<lparr>send_que := []\<rparr>) s"
  have i: "chan_ok ?a c" "chan_ok ?b c" "sched_inv ?a" "sched_inv ?b" "\<not> locks ?a c" "\<not> locks ?b c"
    using assms chan_ok_drop_dead [of s c] by (simp_all add: ref_shape_def upd_chan_def)
  have l: "live ?a = live s" "live ?b = live s" "sent_value ?a = sent_value s" "sent_value ?b = sent_value s"
    by (simp_all add: fun_eq_iff live_def sent_value_def upd_chan_def)
  have w: "pending_senders ?a c = pending_senders s c" "waiting_receivers ?a c = []" "pending_senders ?b c = []"
    "waiting_receivers ?b c = waiting_receivers s c" "pipe ?a c = pipe s c" "pipe ?b c = contents (chans s c)"
    by (simp_all add: pending_senders_def waiting_receivers_def pipe_def l) (simp_all add: upd_chan_def contents_queues)
  have c: "quanta ?a = quanta s" "quanta ?b = quanta s" "mem ?a = mem s" "mem ?b = mem s" by (simp_all add: upd_chan_def)
  show "ref_shape V c ?a \<and> held V c ?a = held V c s" if "waiting_receivers s c = []"
    using assms i that by (simp add: ref_shape_def held_def w c)
  show "ref_shape V c ?b \<and> held V c ?b = held V c s" if "pending_senders s c = []"
    using assms i that by (simp add: ref_shape_def held_def w c) (simp add: pipe_def)
qed

lemma send_ref_exact:
  assumes I: "ref_inv V c s" "r \<in> V" "mem s r = RefE (Some x)" "Suc (count (held V c s) x) < 2 ^ 32"
    and v: "v < xt_index s" "running s v = Some self"
    and q: "q \<notin> set (send_que (chans s c))" "self \<notin> (\<lambda>x. qm_co (quanta s x)) ` set (send_que (chans s c))"
  shows "\<exists>out. CoroC_Chan_SendRef (Some v) c r q s = Inr out \<and>
    (case out of
       ApiRet ok s' \<Rightarrow> ref_inv (if ok then V \<union> next_cells c s else V) c s' \<and> (ok \<longleftrightarrow> waiting_receivers s c \<noteq> [] \<or> \<not> ch_close (chans s c))
     | ApiAsleep s' \<Rightarrow> ref_inv V c s' \<and> running s' v = None)"
proof -
  define s1 where "s1 = s\<lparr>rmem := refcnt_get x (rmem s)\<rparr>"
  have sh: "ref_shape V c s1" and ok: "refs_ok (held V c s) (rmem s)" and fin: "finite V"
    using I(1) by (auto simp: ref_inv_def s1_def ref_shape_def)
  have get: "refs_ok (add_mset x (held V c s)) (rmem s1)"
    using refs_ok_get [OF ok held_in [OF fin I(2,3)] I(4)] by (simp add: s1_def)
  have g: "ref_get r s = Inr s1" using I(3) by (simp add: ref_get_def read_ref_def s1_def)
  have s1: "mem s1 = mem s" "waiting_receivers s1 c = waiting_receivers s c" "held V c s1 = held V c s" "chans s1 = chans s"
    "quanta s1 = quanta s" "xt_index s1 = xt_index s" "running s1 v = Some self" using v by (simp_all add: s1_def)
  have fin2: "ref_inv W c s'" if "ref_shape W c s'" "held W c s' = held V c s1 + refs_of (mem s1 r)" "rmem s' = rmem s1" for W s'
    using that get I(3) by (simp add: ref_inv_def s1)
  show ?thesis
  proof (cases "waiting_receivers s c")
    case (Cons p ps)
    from shape_deliver [OF sh _ Cons [folded s1(2)], of v r True q] v(1) obtain s' where
      s': "chan_send (Some v) c (Some r) True q s1 = Inr (Ret CHAN_SUCCESS s')" "rmem s' = rmem s1" "ref_shape (insert (cell s p) V) c s'"
        "held (insert (cell s p) V) c s' = held V c s1 + refs_of (mem s1 r)" by (auto simp: s1)
    have "V \<union> next_cells c s = insert (cell s p) V" using Cons by (simp add: next_cells_def)
    with fin2 [OF s'(3,4,2)] s'(1) g Cons show ?thesis by (simp add: CoroC_Chan_SendRef_def put_unless_def)
  next
    case Nil
    then have n: "V \<union> next_cells c s = V" by (simp add: next_cells_def)
    note Nil1 = Nil [folded s1(2)]
    consider (closed) "ch_close (chans s c)" | (room) "\<not> ch_close (chans s c)" "has_room (chans s c)"
      | (full) "\<not> ch_close (chans s c)" "\<not> has_room (chans s c)" by blast
    then show ?thesis
    proof cases
      case closed
      let ?s = "upd_chan c (\<lambda>ch. ch\<lparr>recv_que := []\<rparr>) s1"
      have "store_inv (chans s1 c)" "\<not> locks s1 c" using sh by (simp_all add: ref_shape_def chan_ok_def)
      from send_nobody_eq [OF this Nil1, of "Some v" r True q] closed
      have snd: "chan_send (Some v) c (Some r) True q s1 = Inr (Ret CHAN_CLOSED ?s)" by (simp add: Let_def s1)
      have "refs_ok (held V c s) (snd (refcnt_put (Some x) (rmem s1)))"
        using refs_ok_put [OF get, of x] by simp
      moreover have "ref_put r ?s = Inr (fst (refcnt_put (Some x) (rmem s1)), ?s\<lparr>rmem := snd (refcnt_put (Some x) (rmem s1))\<rparr>)"
        using I(3) by (simp add: ref_put_def read_ref_def upd_chan_def s1 split: prod.splits)
      ultimately show ?thesis
        using shape_drop_dead(1) [OF sh Nil1] snd g closed Nil by (simp add: CoroC_Chan_SendRef_def put_unless_def ref_inv_def s1(3))
    next
      case room
      from shape_store [OF sh Nil1, of "Some v" r True q] room obtain s' where
        "chan_send (Some v) c (Some r) True q s1 = Inr (Ret CHAN_SUCCESS s')" "rmem s' = rmem s1" "ref_shape V c s'"
          "held V c s' = held V c s1 + refs_of (mem s1 r)" by (auto simp: s1)
      with fin2 [of V s'] g room n show ?thesis by (simp add: CoroC_Chan_SendRef_def put_unless_def)
    next
      case full
      from shape_send_block [OF sh I(2) _ s1(7) Nil1] v(1) full q obtain s' where
        s': "chan_send (Some v) c (Some r) True q s1 = Inr (Suspended s')" "running s' v = None" "ref_shape V c s'"
          "held V c s' = held V c s1 + refs_of (mem s1 r)" unfolding s1 by blast
      with fin2 [of V s'] chan_send_rmem [OF s'(1)] g show ?thesis by (simp add: CoroC_Chan_SendRef_def)
    qed
  qed
qed

section \<open>Receiving a reference\<close>

lemma shape_take:
  assumes I: "ref_shape U c s" "r \<notin> U" "\<forall>v. vo = Some v \<longrightarrow> v < xt_index s" and p: "pipe s c = y # ys"
  shows "\<exists>s'. chan_recv vo (Some c) (Some r) block q s = Inr (Ret CHAN_SUCCESS s') \<and> rmem s' = rmem s \<and> mem s' r = y \<and>
    ref_shape (insert r U) c s' \<and> held (insert r U) c s' = held U c s"
proof -
  have I': "sched_inv s" "chan_ok s c" "\<not> locks s c" "finite U" "waiting_receivers s c = []"
    using I(1) p by (simp_all add: ref_shape_def)
  have d: "qm_itembuf (quanta s x) \<noteq> Some r" if "x \<in> set (pending_senders s c)" for x
    using I(1,2) that by (force simp: ref_shape_def)
  obtain s' where s': "chan_recv vo (Some c) (Some r) block q s = Inr (Ret CHAN_SUCCESS s')" "mem s' = (mem s)(r := y)" "pipe s' c = ys"
    "sched_inv s'" "chan_ok s' c" "locks s' = locks s" "quanta s' = quanta s" "waiting_receivers s' c = waiting_receivers s c"
    "set (pending_senders s' c) \<subseteq> set (pending_senders s c)" "rmem s' = rmem s"
    using recv_oldest [OF I'(1-3) I(3) p d, of block q] by blast
  have "held (insert r U) c s' = held U c s"
    using held_write [OF I'(4) I(2) s'(2), of c] s'(3) p by (simp add: held_def)
  moreover have "ref_shape (insert r U) c s'"
    using I' I(1) s' by (auto simp: ref_shape_def)
  ultimately show ?thesis using s'(1,2,10) by auto
qed

lemma shape_recv_block:
  assumes I: "ref_shape U c s" "r \<notin> U" "r \<notin> cell s ` set (waiting_receivers s c)" and v: "v < xt_index s" "running s v = Some self"
    and p: "pipe s c = []" "\<not> ch_close (chans s c)"
    and q: "q \<notin> set (recv_que (chans s c))" "self \<notin> (\<lambda>x. qm_co (quanta s x)) ` set (recv_que (chans s c))"
  shows "\<exists>s'. chan_recv (Some v) (Some c) (Some r) True q s = Inr (Suspended s') \<and> running s' v = None \<and>
    ref_shape U c s' \<and> held U c s' = held U c s"
proof -
  have I': "sched_inv s" "chan_ok s c" "\<not> locks s c" "contents (chans s c) = []" "pending_senders s c = []"
    using I p by (simp_all add: ref_shape_def pipe_Nil_iff)
  from recv_blocks [OF I'(1-3) v I'(4,5) p(2) q, of r] obtain s' where
    s': "chan_recv (Some v) (Some c) (Some r) True q s = Inr (Suspended s')" "sched_inv s'"
    "chan_ok s' c" "\<not> locks s' c" "running s' v = None" "mem s' = mem s" "quanta s' = (quanta s)(q := quantum_init c self (Some r) False)"
    "waiting_receivers s' c = waiting_receivers s c @ [q]" "pending_senders s' c = []" "contents (chans s' c) = []"
    by metis
  have "q \<notin> set (waiting_receivers s c)" using q(1) by (simp add: waiting_receivers_def)
  then have w: "map (cell s') (waiting_receivers s c) = map (cell s) (waiting_receivers s c)" "cell s' q = r"
    using s'(7) by (auto simp: quantum_init_def)
  from w(1) have w': "cell s' ` set (waiting_receivers s c) = cell s ` set (waiting_receivers s c)" by (metis set_map)
  have wd: "distinct (map (cell s') (waiting_receivers s c))" unfolding w(1) using I(1) by (simp add: ref_shape_def)
  have "pipe s' c = []" using s'(9,10) by (simp add: pipe_Nil_iff)
  then have "held U c s' = held U c s" "ref_shape U c s'"
    using I s'(2-4,6,8,9) p(1) w(2) w' wd by (simp_all add: held_def ref_shape_def)
  then show ?thesis using s'(1,5) by blast
qed

lemma recv_ref_exact:
  assumes I: "ref_inv V c s" "r \<in> V" "mem s r = RefE p" "r \<notin> cell s ` set (pending_senders s c)"
    and v: "v < xt_index s" "running s v = Some self"
    and q: "q \<notin> set (recv_que (chans s c))" "self \<notin> (\<lambda>x. qm_co (quanta s x)) ` set (recv_que (chans s c))"
  shows "\<exists>out. CoroC_Chan_RecvRef (Some v) (Some c) r q s = Inr out \<and>
    (case out of
       ApiRet ok s' \<Rightarrow> ref_inv (if ok then V else V - {r}) c s' \<and> ok = (pipe s c \<noteq> []) \<and> mem s' r = (if ok then hd (pipe s c) else RefE p)
     | ApiAsleep s' \<Rightarrow> ref_inv (V - {r}) c s' \<and> running s' v = None)"
proof -
  define s1 where "s1 = s\<lparr>rmem := snd (refcnt_put p (rmem s))\<rparr>"
  have fin: "finite V" and ok: "refs_ok (held V c s) (rmem s)" using I(1) by (auto simp: ref_inv_def ref_shape_def)
  have g: "ref_put r s = Inr (fst (refcnt_put p (rmem s)), s1)" using I(3) by (simp add: ref_put_def read_ref_def s1_def split: prod.splits)
  have s1: "mem s1 = mem s" "pipe s1 c = pipe s c" "held U c s1 = held U c s" "chans s1 = chans s" "quanta s1 = quanta s"
    "waiting_receivers s1 c = waiting_receivers s c" "xt_index s1 = xt_index s" "running s1 v = Some self" for U using v by (simp_all add: s1_def)
  have sh: "ref_shape (V - {r}) c s1" "r \<notin> cell s ` set (waiting_receivers s c)"
    using I by (auto simp: ref_inv_def ref_shape_def s1_def)
  have h: "held V c s = held (V - {r}) c s + mset (opt_list p)" using held_minus [OF fin I(2), of c s] I(3) by simp
  have put: "refs_ok (held (V - {r}) c s) (rmem s1)"
  proof (cases p)
    case (Some x)
    with refs_ok_put [OF ok, of x] h show ?thesis by (simp add: s1_def)
  qed (use ok h in \<open>simp add: s1_def refcnt_put_def\<close>)
  show ?thesis
  proof (cases "pipe s c")
    case (Cons y ys)
    from shape_take [OF sh(1) _ _ Cons [folded s1(2)], of r "Some v" True q] v(1) obtain s' where
      "chan_recv (Some v) (Some c) (Some r) True q s1 = Inr (Ret CHAN_SUCCESS s')" "rmem s' = rmem s1" "mem s' r = y"
      "ref_shape (insert r (V - {r})) c s'" "held (insert r (V - {r})) c s' = held (V - {r}) c s1" by (auto simp: s1)
    moreover have "insert r (V - {r}) = V" using I(2) by blast
    ultimately show ?thesis using g put Cons
      by (simp add: CoroC_Chan_RecvRef_def CoroC_Chan_Recv_def answer_def ref_inv_def s1(3))
  next
    case Nil
    show ?thesis
    proof (cases "ch_close (chans s c)")
      case True
      let ?s = "upd_chan c (\<lambda>ch. ch\<lparr>send_que := []\<rparr>) s1"
      have e: "contents (chans s1 c) = []" "pending_senders s1 c = []" "store_inv (chans s1 c)" "\<not> locks s1 c"
        using Nil [folded s1(2)] sh(1) by (simp_all add: pipe_Nil_iff ref_shape_def chan_ok_def)
      from recv_nothing_eq [OF e(3,4,1,2), of "Some v" "Some r" True q] True
      have "chan_recv (Some v) (Some c) (Some r) True q s1 = Inr (Ret CHAN_CLOSED ?s)" by (simp add: Let_def s1)
      moreover have "mem ?s = mem s" "rmem ?s = rmem s1" by (simp_all add: upd_chan_def s1)
      ultimately show ?thesis using shape_drop_dead(2) [OF sh(1) e(2)] g put Nil I(3)
        by (simp add: CoroC_Chan_RecvRef_def CoroC_Chan_Recv_def answer_def ref_inv_def s1(3))
    next
      case False
      from shape_recv_block [OF sh(1) _ _ _ s1(8) Nil [folded s1(2)]] sh(2) v(1) False q obtain s' where
        s': "chan_recv (Some v) (Some c) (Some r) True q s1 = Inr (Suspended s')" "running s' v = None" "ref_shape (V - {r}) c s'"
          "held (V - {r}) c s' = held (V - {r}) c s1" unfolding s1 by blast
      with chan_recv_rmem [OF s'(1)] g put show ?thesis
        by (simp add: CoroC_Chan_RecvRef_def CoroC_Chan_Recv_def answer_def ref_inv_def s1(3))
    qed
  qed
qed

text \<open>
  A receive that finds nothing has dropped the reference of its variable but leaves the pointer: when it was the last reference, the
  variable names a released object.
\<close>

lemma recv_ref_nb_dangles:
  assumes I: "ref_inv V c s" "r \<in> V" "mem s r = RefE (Some x)" and x: "count (held V c s) x = 1" and e: "pipe s c = []"
  shows "\<exists>s'. CoroC_Chan_RecvRef_NB vo (Some c) r q s = Inr (ApiRet False s') \<and> mem s' r = RefE (Some x) \<and> x \<in> set (rc_released (rmem s'))"
proof -
  let ?s = "s\<lparr>rmem := snd (refcnt_put (Some x) (rmem s))\<rparr>"
  have i: "refs_ok (held V c s) (rmem s)" "finite V" "store_inv (chans s c)" "\<not> locks s c" "contents (chans s c) = []" "pending_senders s c = []"
    using I(1) e by (auto simp: ref_inv_def ref_shape_def chan_ok_def pipe_Nil_iff)
  have "x \<notin># held V c s - {#x#}" using x by (simp add: not_in_iff)
  with refs_ok_put [OF i(1) held_in [OF i(2) I(2,3)]] have "x \<in> set (rc_released (rmem ?s))" by simp
  moreover have "ref_put r s = Inr (fst (refcnt_put (Some x) (rmem s)), ?s)"
    using I(3) by (simp add: ref_put_def read_ref_def split: prod.splits)
  moreover have "chan_recv vo (Some c) (Some r) False q ?s =
      Inr (Ret (if ch_close (chans s c) then CHAN_CLOSED else CHAN_BUSY) (upd_chan c (\<lambda>ch. ch\<lparr>send_que := []\<rparr>) ?s))"
    using recv_nothing_eq [of ?s c vo "Some r" False q] i(3-6) by (simp add: Let_def)
  ultimately show ?thesis using I(3)
    by (auto simp: CoroC_Chan_RecvRef_NB_def CoroC_Chan_Recv_NB_def answer_def upd_chan_def)
qed

text \<open>Selecting does not give back the references that the cases took, whichever case is chosen.\<close>

lemma select_try_rmem: "select_try vo es ret s = Inr (ret', active, s') \<Longrightarrow> rmem s' = rmem s"
proof (induction es arbitrary: ret s)
  case (Cons e es)
  obtain out where out: "(case e of SendCase c b \<Rightarrow> chan_send_locked vo c b False 0 s | RecvCase c b \<Rightarrow> chan_recv_locked vo c b False 0 s) = Inr out"
    using Cons.prems by (auto simp: andthen_Inr_iff)
  then have r: "rmem (out_sys out) = rmem s" by (auto dest: chan_send_locked_rmem chan_recv_locked_rmem split: scase.splits)
  show ?case
  proof (cases out)
    case (Ret code s1)
    with Cons.prems out r Cons.IH [of "Some code" s1] show ?thesis by (auto split: if_splits)
  qed (use Cons.prems out in simp)
qed simp

lemma select_send_ref_leaks:
  assumes "CoroC_Select_SendRef c r cset s = Inr (cset', s1)" "mem s r = RefE (Some x)"
    and "CoroC_Select vo cset' False qs s1 = Inr (Active active cset'' s2)"
  shows "rc_count (rmem s2) x = rc_count (rmem s) x + 1"
proof -
  have "rmem s1 = refcnt_get x (rmem s)"
    using assms(1,2) by (auto simp: CoroC_Select_SendRef_def ref_get_def read_ref_def chan_set_send_def upd_chan_def split: if_splits)
  moreover have acq: "rmem s' = rmem s" if "acquire_all ls s = Inr s'" for ls s s'
    using that by (induction ls arbitrary: s) (auto simp: andthen_Inr_iff lock_acquire_at_def split: if_splits)
  have "rmem s2 = rmem s1"
    using assms(3) by (auto simp: CoroC_Select_def chan_set_select_def andthen_Inr_iff lock_chain_acquire_def lock_chain_release_def
        release_locks_eq Let_def dest!: acq select_try_rmem split: if_splits)
  ultimately show ?thesis by (simp add: refcnt_get_def)
qed

text \<open>Assigning a variable moves the reference count with it, unless an object that only the variable holds is assigned to itself.\<close>

lemma put_get_counts:
  assumes "refs_ok R m" "y \<in># R" "Suc (count R y) < 2 ^ 32"
    and "\<forall>x. p = Some x \<longrightarrow> x \<in># R \<and> (y = x \<longrightarrow> 1 < count R x)"
  shows "refs_ok (add_mset y (R - mset (opt_list p))) (refcnt_get y (snd (refcnt_put p m)))"
proof (cases p)
  case None
  then show ?thesis using refs_ok_get [OF assms(1-3)] by (simp add: refcnt_put_def)
next
  case (Some x)
  have r: "refs_ok (R - {#x#}) (snd (refcnt_put (Some x) m))" using refs_ok_put [OF assms(1)] assms(4) Some by blast
  have "y \<in># R - {#x#}" "Suc (count (R - {#x#}) y) < 2 ^ 32"
    using assms(2-4) Some by (auto simp: in_diff_count)
  then show ?thesis using refs_ok_get [OF r] Some by simp
qed

lemma assign_counts:
  assumes "refs_ok R (rmem s)" "mem s d = RefE p" "\<forall>x. p = Some x \<longrightarrow> x \<in># R"
    and "\<forall>y. src = Some y \<longrightarrow> y \<in># R \<and> Suc (count R y) < 2 ^ 32 \<and> (p = Some y \<longrightarrow> 1 < count R y)"
  shows "\<exists>s'. refcnt_assign_at d src s = Inr (src, s') \<and> mem s' d = RefE src \<and>
    refs_ok (R - mset (opt_list p) + mset (opt_list src)) (rmem s')"
proof (cases src)
  case None
  have "refs_ok (R - mset (opt_list p)) (snd (refcnt_put p (rmem s)))"
    using assms(1,3) refs_ok_put [OF assms(1)] by (cases p) (auto simp: refcnt_put_def)
  then show ?thesis using None assms(2) by (simp add: refcnt_assign_at_def read_ref_def refcnt_assign_def Let_def)
next
  case (Some y)
  then have "refs_ok (add_mset y (R - mset (opt_list p))) (refcnt_get y (snd (refcnt_put p (rmem s))))"
    using assms by (intro put_get_counts) auto
  then show ?thesis using Some assms(2) by (simp add: refcnt_assign_at_def read_ref_def refcnt_assign_def Let_def)
qed

text \<open>
  Two send cases in a row with expressions, when the compiler gives both temporaries the same place: the first case now
  sends the value of the second.
\<close>

lemma select_send_expr_shared:
  assumes "CoroC_Select_SendExpr c t x cset s = Inr (cset1, s1)" "CoroC_Select_SendExpr c' t y cset1 s1 = Inr (cset2, s2)"
  shows "SendCase c (Some t) \<in> set (set_cases cset2)" "SendCase c' (Some t) \<in> set (set_cases cset2)" "mem s2 t = y"
  using assms by (auto simp: CoroC_Select_SendExpr_def chan_set_send_def upd_chan_def split: if_splits)

section \<open>Properties\<close>

text \<open>
  Claim C13. References that travel through a channel are counted exactly. As long as the count of every object is the number of variables, stored
  values and waiting senders that refer to it, sending a reference and receiving one keep it so. A send that delivers makes the receiver's
  variable one of the holders, a send to a closed channel gives its extra reference back, a send that blocks keeps it for the receiver.
  A receive takes over the reference of the oldest value and has dropped the one its variable held before; when it fails or blocks the
  variable is no longer a holder, although a failed receive leaves the old pointer in it.
\<close>

theorem references_exact:
  assumes "ref_inv V c s" "r \<in> V" "mem s r = RefE (Some x)" "Suc (count (held V c s) x) < 2 ^ 32"
    and "d \<in> V" "mem s d = RefE p" "d \<notin> cell s ` set (pending_senders s c)" "v < xt_index s" "running s v = Some self"
    and "q \<notin> set (send_que (chans s c))" "self \<notin> (\<lambda>x. qm_co (quanta s x)) ` set (send_que (chans s c))"
    and "q \<notin> set (recv_que (chans s c))" "self \<notin> (\<lambda>x. qm_co (quanta s x)) ` set (recv_que (chans s c))"
  shows "(\<exists>out. CoroC_Chan_SendRef (Some v) c r q s = Inr out \<and>
      (case out of
         ApiRet ok s' \<Rightarrow> ref_inv (if ok then V \<union> next_cells c s else V) c s' \<and> (ok \<longleftrightarrow> waiting_receivers s c \<noteq> [] \<or> \<not> ch_close (chans s c))
       | ApiAsleep s' \<Rightarrow> ref_inv V c s' \<and> running s' v = None)) \<and>
    (\<exists>out. CoroC_Chan_RecvRef (Some v) (Some c) d q s = Inr out \<and>
      (case out of
         ApiRet ok s' \<Rightarrow> ref_inv (if ok then V else V - {d}) c s' \<and> ok = (pipe s c \<noteq> []) \<and> mem s' d = (if ok then hd (pipe s c) else RefE p)
       | ApiAsleep s' \<Rightarrow> ref_inv (V - {d}) c s' \<and> running s' v = None))"
  using send_ref_exact [OF assms(1-4,8-11)] recv_ref_exact [OF assms(1,5-9,12,13)] by blast

text \<open>Variable 5 holds the only reference to object 50, variable 6 holds none; channel 7 has room for one value.\<close>

definition ref_sys :: sys where
  "ref_sys = chan_sys\<lparr>mem := (\<lambda>a. if a = 5 then RefE (Some 50) else RefE None),
     rmem := \<lparr>rc_count = (\<lambda>r. if r = 50 then 1 else 0), rc_released = []\<rparr>\<rparr>"

lemma ref_sys_ok: "ref_inv {5, 6} 7 ref_sys" "xt_index ref_sys = 2" "running ref_sys 0 = Some 1" "chans ref_sys = chans chan_sys"
  "held {5, 6} 7 ref_sys = {#50#}" "pending_senders ref_sys 7 = []" "mem ref_sys a = (if a = 5 then RefE (Some 50) else RefE None)"
  "waiting_receivers ref_sys 7 = []" "pipe ref_sys 7 = []"
proof -
  have l: "live ref_sys = live chan_sys" by (simp add: fun_eq_iff live_def ref_sys_def)
  then have w: "pending_senders ref_sys 7 = []" "waiting_receivers ref_sys 7 = []" "chan_ok ref_sys 7"
    using chan_sys_ok(7,8) [of 7] chan_sys_ok(2) [of 7]
    by (simp_all add: pending_senders_def waiting_receivers_def chan_ok_def que_ok_def ref_sys_def)
  have i: "sched_inv ref_sys" "\<not> locks ref_sys 7" using chan_sys_ok(1) chan_sys_ok(3) [of 7] by (simp_all add: ref_sys_def)
  have p: "pipe ref_sys 7 = []" using w(1) chan_sys_ok(6) [of 7] by (simp add: pipe_Nil_iff) (simp add: ref_sys_def)
  have h: "held {5, 6} 7 ref_sys = {#50#}" by (simp add: held_def p) (simp add: ref_sys_def)
  have "refs_ok {#50#} (rmem ref_sys)" by (auto simp: refs_ok_def ref_sys_def)
  then show "ref_inv {5, 6} 7 ref_sys" using w i p h by (simp add: ref_inv_def ref_shape_def)
  show "pending_senders ref_sys 7 = []" "waiting_receivers ref_sys 7 = []" "pipe ref_sys 7 = []" "held {5, 6} 7 ref_sys = {#50#}"
    by (fact w(1,2) p h)+
qed (use chan_sys_ok(4,5) in \<open>simp_all add: ref_sys_def\<close>)

theorem references_exact_witness:
  "(\<exists>out. CoroC_Chan_SendRef (Some 0) 7 5 20 ref_sys = Inr out \<and>
      (case out of ApiRet ok s' \<Rightarrow> ok \<and> ref_inv {5, 6} 7 s' | ApiAsleep s' \<Rightarrow> ref_inv {5, 6} 7 s')) \<and>
   (\<exists>out. CoroC_Chan_RecvRef (Some 0) (Some 7) 6 20 ref_sys = Inr out \<and>
      (case out of ApiRet ok s' \<Rightarrow> \<not> ok | ApiAsleep s' \<Rightarrow> ref_inv {5} 7 s' \<and> running s' 0 = None))"
proof -
  have n: "next_cells 7 ref_sys = {}" by (simp add: next_cells_def ref_sys_ok)
  have d: "{5, 6} - {6} = {5 :: nat}" by auto
  from references_exact [of "{5, 6}" 7 ref_sys 5 50 6 None 0 1 20] obtain o1 o2 where
    "CoroC_Chan_SendRef (Some 0) 7 5 20 ref_sys = Inr o1"
    "case o1 of ApiRet ok s' \<Rightarrow> ref_inv (if ok then {5, 6} \<union> next_cells 7 ref_sys else {5, 6}) 7 s' \<and>
         (ok \<longleftrightarrow> waiting_receivers ref_sys 7 \<noteq> [] \<or> \<not> ch_close (chans ref_sys 7))
       | ApiAsleep s' \<Rightarrow> ref_inv {5, 6} 7 s' \<and> running s' 0 = None"
    "CoroC_Chan_RecvRef (Some 0) (Some 7) 6 20 ref_sys = Inr o2"
    "case o2 of ApiRet ok s' \<Rightarrow> ref_inv (if ok then {5, 6} else {5, 6} - {6}) 7 s' \<and> ok = (pipe ref_sys 7 \<noteq> []) \<and>
         mem s' 6 = (if ok then hd (pipe ref_sys 7) else RefE None)
       | ApiAsleep s' \<Rightarrow> ref_inv ({5, 6} - {6}) 7 s' \<and> running s' 0 = None"
    by (auto simp: ref_sys_ok(1-7) chan_sys_ok)
  then show ?thesis by (cases o1; cases o2) (simp_all add: ref_sys_ok chan_sys_ok n d)
qed

end
