(* ===== verification/Boot.thy ===== *)
theory Boot
  imports Core_Sched Timer Async Net
begin

text \<open>
  Starting the runtime (\<^verbatim>\<open>src/boot.c\<close>, \<^verbatim>\<open>src/coroc_main.c\<close>): the number of VPUs and of pool threads from the arguments, the environment and the
  number of processors, then the initialisation of every part in the order of the source. The environment and the number of processors
  are arguments; \<open>strtol\<close> is that of the C standard, on 64 bits.
\<close>

section \<open>Numbers from the environment\<close>

text \<open>The value, and whether \<open>errno\<close> reports that it is out of range; a string that starts with no number is \<open>0\<close>.\<close>

definition strtol :: "string \<Rightarrow> int \<times> bool" where
  "strtol p = (let (neg, q) = sign_prefix (dropWhile is_space p); (base, q) = base_prefix q in
     case q of
       [] \<Rightarrow> (0, False)
     | c # cs \<Rightarrow>
         if \<not> is_digit base c then (0, False)
         else (let n = int (fst (digits base 0 q)); x = (if neg then - n else n) in
               if x < - (2 ^ 63) then (- (2 ^ 63), True) else if 2 ^ 63 \<le> x then (2 ^ 63 - 1, True) else (x, False)))"

definition to_int :: "int \<Rightarrow> int" where
  "to_int x = sint (word_of_int x :: u32)"

type_synonym env = "string \<Rightarrow> string option"

text \<open>The new value of \<open>*ret\<close> is the second component; it is written also when the function answers \<open>false\<close>.\<close>

definition env2int :: "env \<Rightarrow> string \<Rightarrow> int \<Rightarrow> bool \<times> int" where
  "env2int env name ret = (case env name of
       None \<Rightarrow> (False, ret)
     | Some v \<Rightarrow> (case strtol v of (x, erange) \<Rightarrow> (\<not> erange, to_int x)))"

section \<open>Booting\<close>

definition boot_np :: "env \<Rightarrow> int \<Rightarrow> int \<Rightarrow> int" where
  "boot_np env online np =
     (if np \<le> 0 then (let np = snd (env2int env ''TSC_NP'' np) in if np \<le> 0 then online else np) else np)"

definition boot_nasync :: "env \<Rightarrow> int \<Rightarrow> int \<Rightarrow> int" where
  "boot_nasync env np nasync =
     (if nasync \<le> 0
      then (case env2int env ''TSC_ASYNC'' nasync of
              (ok, n) \<Rightarrow> if \<not> ok then (if 1 < np then np div 2 else 1) else n)
      else nasync)"

record 'w runtime =
  rt_profile :: bool
  rt_timers :: tmgr
  rt_pool :: "'w pool"
  rt_sys :: sys

text \<open>
  \<open>m\<close> and \<open>sch\<close> give the addresses of the main coroutine and of the scheduler of each VPU. The function then enters \<open>clock_routine\<close> and does not
  return; this is the state in which it does so.
\<close>

definition coroc_boot :: "env \<Rightarrow> int \<Rightarrow> int \<Rightarrow> int \<Rightarrow> addr \<Rightarrow> addr \<Rightarrow> (nat \<Rightarrow> addr) \<Rightarrow> 'w runtime \<Rightarrow> c_err + 'w runtime" where
  "coroc_boot env online np nasync entry m sch rt =
     (let np = boot_np env online np; nasync = boot_nasync env np nasync;
          profile = snd (env2int env ''TSC_PROFILE'' 0);
          rt = rt\<lparr>rt_timers := intertimer_initialize (rt_timers rt)\<rparr>;
          (p, s) = async_pool_initialize nasync (rt_pool rt) (rt_sys rt) in
      andthen (vpu_initialize m (map sch [0..<nat np]) (Some entry) s)
        (\<lambda>s. Inr (rt\<lparr>rt_pool := p, rt_sys := s, rt_profile := (profile \<noteq> 0)\<rparr>)))"

definition coroc_main :: "env \<Rightarrow> int \<Rightarrow> addr \<Rightarrow> addr \<Rightarrow> (nat \<Rightarrow> addr) \<Rightarrow> 'w runtime \<Rightarrow> c_err + 'w runtime" where
  "coroc_main env online user_main m sch rt = coroc_boot env online 0 (- 1) user_main m sch rt"

section \<open>Facts\<close>

lemma to_int_bounds: "- (2 ^ 31) \<le> to_int x" "to_int x < 2 ^ 31"
  using sint_greater_eq [of "word_of_int x :: u32"] sint_less [of "word_of_int x :: u32"] by (simp_all add: to_int_def)

lemma env2int_bounds: "ret < 2 ^ 31 \<Longrightarrow> snd (env2int env name ret) < 2 ^ 31"
  using to_int_bounds by (auto simp: env2int_def split: option.splits prod.splits)

lemma boot_np_bounds:
  assumes "1 \<le> online" "online < 2 ^ 31" "np < 2 ^ 31"
  shows "1 \<le> boot_np env online np" "boot_np env online np < 2 ^ 31"
  using assms env2int_bounds [of np env "''TSC_NP''"] by (auto simp: boot_np_def Let_def)

text \<open>When one coroutine is ready and the global queue has it, the next pass of any VPU runs it.\<close>

lemma pass_runs_only:
  assumes inv: "sched_inv s" "v < xt_index s" "running s v = None"
    and q: "\<forall>t. co_status (cos s t) = READY \<longleftrightarrow> t = m" "\<forall>p<TSC_PRIO_NUM. queued s p = (if p = 3 then {#m#} else {#})"
    and g: "g_tasks (gxt s 3) = [m]"
  shows "\<exists>s'. sched_pass v (\<lambda>_. []) s = Inr (Some m, s') \<and> running s' v = Some m \<and> co_status (cos s' m) = RUNNING"
proof -
  have "size (queued s p) < 2 ^ 32" if "p < TSC_PRIO_NUM" for p using q(2) that by simp
  then have "\<exists>c s'. sched_pass v (\<lambda>_. []) s = Inr (c, s') \<and> running s' v = c \<and>
     (case c of None \<Rightarrow> \<forall>p<TSC_PRIO_NUM. local_tasks s v p = []
      | Some t \<Rightarrow> co_status (cos s t) = READY \<and> co_status (cos s' t) = RUNNING \<and>
         (\<forall>p<co_prio (cos s t). local_tasks s v p = []) \<and>
         (local_tasks s v (co_prio (cos s t)) \<noteq> [] \<longrightarrow> t = hd (local_tasks s v (co_prio (cos s t)))))"
    by (rule sched_pass_elects [OF inv])
  then obtain c s' where s': "sched_pass v (\<lambda>_. []) s = Inr (c, s')" "running s' v = c"
    "case c of None \<Rightarrow> \<forall>p<TSC_PRIO_NUM. local_tasks s v p = []
      | Some t \<Rightarrow> co_status (cos s t) = READY \<and> co_status (cos s' t) = RUNNING \<and>
         (\<forall>p<co_prio (cos s t). local_tasks s v p = []) \<and>
         (local_tasks s v (co_prio (cos s t)) \<noteq> [] \<longrightarrow> t = hd (local_tasks s v (co_prio (cos s t))))"
    by (elim exE conjE) (rule that)
  show ?thesis
  proof (cases c)
    case None
    with s'(3) have "local_tasks s v 3 = []" by simp
    then show ?thesis using g by (simp add: local_tasks_def)
  next
    case (Some t)
    then have r: "co_status (cos s t) = READY" "co_status (cos s' t) = RUNNING" using s'(3) by simp_all
    then have "t = m" using q(1) by blast
    then show ?thesis using s'(1,2) Some r(2) by auto
  qed
qed

section \<open>Properties\<close>

text \<open>
  Claim C31. Whatever the environment says, the runtime starts: there is at least one VPU and at most as many as an \<open>int\<close> counts, the scheduler's
  invariant holds, the main coroutine is the only coroutine, no timer is pending, the pool has the requested number of threads, half the number of
  VPUs by default. The first pass of whichever VPU is first runs the main coroutine.
\<close>

theorem boot_starts_main:
  assumes int: "1 \<le> online" "online < 2 ^ 31" "np < 2 ^ 31" and n: "n = nat (boot_np env online np)"
    and a: "inj_on sch {..<n}" "m \<notin> sch ` {..<n}"
    and fresh: "\<And>t. co_status (cos (rt_sys rt) t) \<noteq> READY \<and> co_status (cos (rt_sys rt) t) \<noteq> RUNNING \<and> co_status (cos (rt_sys rt) t) \<noteq> WAIT"
    and arrays: "\<And>v p. v < n \<Longrightarrow> p < TSC_PRIO_NUM \<Longrightarrow> length (runq (xt (vpus (rt_sys rt) v) p)) = TSC_TASK_NUM_PERPRIO"
    and v: "v < n"
  shows "\<exists>rt' s'. coroc_boot env online np nasync entry m sch rt = Inr rt' \<and>
     1 \<le> n \<and> n < 2 ^ 31 \<and> xt_index (rt_sys rt') = n \<and> (0 < np \<longrightarrow> n = nat np) \<and> sched_inv (rt_sys rt') \<and> coroutine_list (rt_sys rt') = [m] \<and>
     tm_size (rt_timers rt') = 0 \<and> placed (th (rt_timers rt')) 0 \<and> heap_ok (th (rt_timers rt')) 0 \<and>
     pool_threads (rt_pool rt') = (if 0 < nasync then nat nasync
        else if fst (env2int env ''TSC_ASYNC'' nasync) then nat (snd (env2int env ''TSC_ASYNC'' nasync)) else max 1 (n div 2)) \<and>
     sched_pass v (\<lambda>_. []) (rt_sys rt') = Inr (Some m, s') \<and> running s' v = Some m"
proof -
  let ?N = "boot_np env online np"
  have N: "1 \<le> ?N" "?N < 2 ^ 31" by (rule boot_np_bounds [OF int])+
  obtain p s where ps: "async_pool_initialize (boot_nasync env ?N nasync) (rt_pool rt) (rt_sys rt) = (p, s)" by fastforce
  then have s: "cos s = cos (rt_sys rt)" "vpus s = vpus (rt_sys rt)" and p: "pool_threads p = nat (boot_nasync env ?N nasync)"
    by (auto simp: async_pool_initialize_def Let_def split: if_splits)
  let ?schs = "map sch [0..<n]"
  have d: "distinct (m # ?schs)" "length ?schs < 2 ^ 32" using a N n by (auto simp: distinct_map atLeast0LessThan)
  have f: "co_status (cos s t) \<noteq> READY \<and> co_status (cos s t) \<noteq> RUNNING \<and> co_status (cos s t) \<noteq> WAIT" for t using fresh s(1) by simp
  have r: "length (runq (xt (vpus s w) q)) = TSC_TASK_NUM_PERPRIO" if "w < length ?schs" "q < TSC_PRIO_NUM" for w q
    using arrays [of w q] s(2) that by simp
  obtain s1 where s1: "vpu_initialize m ?schs (Some entry) s = Inr s1" "sched_inv s1" "xt_index s1 = length ?schs"
    "\<forall>v. running s1 v = None \<or> \<not> v < length ?schs" "g_tasks (gxt s1 3) = [m]" "coroutine_list s1 = [m]"
    "\<forall>t. co_status (cos s1 t) = READY \<longleftrightarrow> t = m" "\<forall>p<TSC_PRIO_NUM. queued s1 p = (if p = 3 then {#m#} else {#})"
    by (rule vpu_initialize_inv [OF d f r, of "Some entry"]) (assumption | rule that | rule allI)+
  have "running s1 v = None" "v < xt_index s1" using s1(3,4) v by auto
  with pass_runs_only [OF s1(2) _ _ s1(7,8,5)] obtain s' where s': "sched_pass v (\<lambda>_. []) s1 = Inr (Some m, s')" "running s' v = Some m" by blast
  have th: "placed (th (intertimer_initialize (rt_timers rt))) 0" "heap_ok (th (intertimer_initialize (rt_timers rt))) 0"
    "tm_size (intertimer_initialize (rt_timers rt)) = 0"
    by (simp_all add: intertimer_initialize_def placed_def heap_ok_def)
  have half: "nat (if 1 < ?N then ?N div 2 else 1) = max 1 (n div 2)" using N n by (auto simp: max_def nat_div_distrib)
  have pool: "pool_threads p = (if 0 < nasync then nat nasync
        else if fst (env2int env ''TSC_ASYNC'' nasync) then nat (snd (env2int env ''TSC_ASYNC'' nasync)) else max 1 (n div 2))"
    unfolding p boot_nasync_def half [symmetric] by (simp split: prod.split)
  let ?rt = "rt\<lparr>rt_timers := intertimer_initialize (rt_timers rt), rt_pool := p, rt_sys := s1, rt_profile := snd (env2int env ''TSC_PROFILE'' 0) \<noteq> 0\<rparr>"
  have "coroc_boot env online np nasync entry m sch rt = Inr ?rt"
    using ps s1(1) n by (simp add: coroc_boot_def Let_def)
  moreover have "1 \<le> n" "n < 2 ^ 31" "0 < np \<longrightarrow> n = nat np" using N n by (auto simp: boot_np_def)
  ultimately show ?thesis using s1(2,3,6) s' th pool by (intro exI [of _ ?rt] exI [of _ s']) simp
qed

text \<open>Without arguments and environment on a machine with four processors.\<close>

definition example_runtime :: "nat runtime" where
  "example_runtime = \<lparr>rt_profile = False,
     rt_timers = \<lparr>th = \<lparr>timers = [], tst = (\<lambda>_. \<lparr>tm_when = 0, tm_period = 0, tm_index = - 1, tm_func = SendTimer, tm_args = None, tm_owner = None\<rparr>)\<rparr>,
       tm_lock = 60, tm_note = False, tm_suspend = False, tm_cap = 0, tm_size = 0, tm_daemon = None\<rparr>,
     rt_pool = \<lparr>pool_mutex = 70, pool_signals = 0, pool_que = [], pool_threads = 0\<rparr>,
     rt_sys = example_sys\<lparr>cos := (\<lambda>t. example_co NORMAL EXIT 2)\<rparr>\<rparr>"

theorem boot_starts_main_witness:
  "\<exists>rt' s'. coroc_main (\<lambda>_. None) 4 5 1 (\<lambda>i. 100 + i) example_runtime = Inr rt' \<and> xt_index (rt_sys rt') = 4 \<and>
     pool_threads (rt_pool rt') = 2 \<and> sched_pass 3 (\<lambda>_. []) (rt_sys rt') = Inr (Some 1, s')"
proof -
  have "length (runq (xt (vpus (rt_sys example_runtime) v) p)) = TSC_TASK_NUM_PERPRIO" for v p
    by (simp add: example_runtime_def example_sys_def empty_ring_def)
  moreover have "co_status (cos (rt_sys example_runtime) t) \<noteq> READY \<and> co_status (cos (rt_sys example_runtime) t) \<noteq> RUNNING \<and>
      co_status (cos (rt_sys example_runtime) t) \<noteq> WAIT" for t
    by (simp add: example_runtime_def example_co_def)
  moreover have "nat (boot_np (\<lambda>_. None) 4 0) = 4" by (simp add: boot_np_def env2int_def)
  moreover have "1 \<notin> (\<lambda>i. 100 + i) ` {..<4 :: nat}" "inj_on (\<lambda>i :: nat. 100 + i) {..<4}" by (auto simp: inj_on_def)
  ultimately obtain rt' s' where "coroc_boot (\<lambda>_. None) 4 0 (- 1) 5 1 (\<lambda>i. 100 + i) example_runtime = Inr rt'"
    "xt_index (rt_sys rt') = 4" "pool_threads (rt_pool rt') = max 1 (4 div 2)" "sched_pass 3 (\<lambda>_. []) (rt_sys rt') = Inr (Some 1, s')"
    using boot_starts_main [of 4 0 4 "\<lambda>_. None" "\<lambda>i. 100 + i" 1 example_runtime 3 "- 1" 5] by (auto simp: env2int_def)
  then show ?thesis by (auto simp: coroc_main_def)
qed

text \<open>
  What the environment can do: a value that is not a number counts as 0, so a misspelt \<open>TSC_ASYNC\<close> turns the pool off; a value that is too large for an
  \<open>int\<close> is cut to 32 bits.
\<close>

lemma env_pitfalls:
  "env2int (\<lambda>_. Some ''many'') ''TSC_ASYNC'' n = (True, 0)" "boot_nasync (\<lambda>_. Some ''many'') np 0 = 0"
  "env2int (\<lambda>_. Some ''0x100000002'') ''TSC_NP'' n = (True, 2)"
proof -
  show a: "env2int (\<lambda>_. Some ''many'') ''TSC_ASYNC'' n = (True, 0)" for n
    by (simp add: env2int_def strtol_def is_space_def sign_prefix_def base_prefix_def is_digit_def digit_of_def to_int_def)
  show "boot_nasync (\<lambda>_. Some ''many'') np 0 = 0" by (simp add: boot_nasync_def a)
  show "env2int (\<lambda>_. Some ''0x100000002'') ''TSC_NP'' n = (True, 2)"
    by (simp add: env2int_def strtol_def is_space_def sign_prefix_def base_prefix_def is_digit_def digit_of_def to_int_def)
qed

end
