(* ===== verification/Clock.thy ===== *)
theory Clock
  imports Complex_Main Core_Sched
begin

text \<open>
  The clock thread (\<^verbatim>\<open>src/clock.c\<close>). Every half millisecond it signals the VPUs and polls the network, when time sharing is configured, and takes a
  sample of the system, when profiling is on. A VPU inside the scheduler has the signal masked, so its handler does not run. The state of
  the system at the beginning of each round is an argument, since all other threads run in between. The averages are real numbers: the
  rounding of \<open>double\<close> is not modelled.
\<close>

section \<open>Profiling\<close>

record profile =
  do_profile :: bool
  avg_alive :: real
  avg_idle :: real
  avg_ready :: real
  avg_total :: real
  avg_ready_pervpu :: "real list"

definition profiler_initialize :: "int \<Rightarrow> profile \<Rightarrow> profile" where
  "profiler_initialize p pr = pr\<lparr>do_profile := (p \<noteq> 0)\<rparr>"

definition AVG :: "real \<Rightarrow> u64 \<Rightarrow> u64 \<Rightarrow> real" where
  "AVG avg cur samples = (avg * real (unat samples) + real (unat cur)) / (real (unat samples) + 1)"

definition get_vpu_ready :: "vpu \<Rightarrow> u32" where
  "get_vpu_ready r = ucast (foldl (\<lambda>ready p.
       if runqhead (xt r p) < runqtail (xt r p) then ready + ucast (runqtail (xt r p) - runqhead (xt r p)) else ready)
     (0 :: u64) [0..<TSC_PRIO_NUM])"

definition profile_sample :: "u64 \<Rightarrow> sys \<Rightarrow> profile \<Rightarrow> profile" where
  "profile_sample samples s pr = pr\<lparr>
     avg_ready := AVG (avg_ready pr) (ucast (total_ready s)) samples,
     avg_total := AVG (avg_total pr) (of_nat (length (coroutine_list s))) samples,
     avg_alive := AVG (avg_alive pr) (ucast (alive s)) samples,
     avg_idle := AVG (avg_idle pr) (ucast (idle s)) samples,
     avg_ready_pervpu := map (\<lambda>v. AVG (avg_ready_pervpu pr ! v) (ucast (get_vpu_ready (vpus s v))) samples) [0..<xt_index s]\<rparr>"

text \<open>What \<open>coroc_profiler_print\<close> prints, line by line: the averages and the current values, with the VPU where there is one.\<close>

datatype report = Average string real | AverageVpu nat real | Current string nat | CurrentVpu nat nat

definition profiler_print :: "sys \<Rightarrow> profile \<Rightarrow> report list" where
  "profiler_print s pr =
     [Average ''alive vpu'' (avg_alive pr), Average ''idle vpu'' (avg_idle pr), Average ''total tasks'' (avg_total pr),
      Average ''total ready tasks'' (avg_ready pr)] @
     map (\<lambda>v. AverageVpu v (avg_ready_pervpu pr ! v)) [0..<xt_index s] @
     [Current ''alive vpu'' (unat (alive s)), Current ''idle vpu'' (unat (idle s)), Current ''total tasks'' (length (coroutine_list s)),
      Current ''total ready tasks'' (unat (total_ready s))] @
     map (\<lambda>v. CurrentVpu v (unat (get_vpu_ready (vpus s v)))) [0..<xt_index s]"

section \<open>The clock\<close>

definition clock_signal :: "nat \<Rightarrow> sys \<Rightarrow> c_err + sys" where
  "clock_signal v s = (if current (vpus s v) = scheduler (vpus s v) then Inr s else vpu_clock_handler v s)"

primrec clock_signals :: "nat list \<Rightarrow> sys \<Rightarrow> c_err + sys" where
  "clock_signals [] s = Inr s"
| "clock_signals (v # vs) s = andthen (clock_signal v s) (clock_signals vs)"

definition clock_round :: "bool \<Rightarrow> u64 \<Rightarrow> (addr \<times> u32) list \<Rightarrow> sys \<Rightarrow> profile \<Rightarrow> c_err + (report list \<times> profile \<times> sys)" where
  "clock_round timeshare samples events s pr =
     andthen (if timeshare
         then andthen (clock_signals [0..<xt_index s] s) (\<lambda>s. andthen (netpoll_polling None events s) (\<lambda>(b, s). Inr s))
         else Inr s)
       (\<lambda>s. if \<not> do_profile pr then Inr ([], pr, s)
            else (let pr = profile_sample samples s pr in
                  Inr (if samples mod 2000 = 0 then profiler_print s pr else [], pr, s)))"

text \<open>A run of \<open>clock_routine\<close>: for each round the events and the state it finds; the states after the rounds and the last averages.\<close>

fun clock_rounds :: "bool \<Rightarrow> u64 \<Rightarrow> ((addr \<times> u32) list \<times> sys) list \<Rightarrow> profile \<Rightarrow> c_err + (sys list \<times> profile)" where
  "clock_rounds timeshare samples [] pr = Inr ([], pr)"
| "clock_rounds timeshare samples ((ev, s) # rounds) pr =
     andthen (clock_round timeshare samples ev s pr)
       (\<lambda>(out, pr, s). andthen (clock_rounds timeshare (samples + 1) rounds pr) (\<lambda>(ss, pr). Inr (s # ss, pr)))"

definition clock_routine :: "bool \<Rightarrow> nat \<Rightarrow> ((addr \<times> u32) list \<times> sys) list \<Rightarrow> profile \<Rightarrow> c_err + (sys list \<times> profile)" where
  "clock_routine timeshare n rounds pr = clock_rounds timeshare 0 rounds (pr\<lparr>avg_ready_pervpu := replicate n 0\<rparr>)"

section \<open>Averages\<close>

definition mean :: "real list \<Rightarrow> real" where
  "mean xs = sum_list xs / real (length xs)"

lemma AVG_mean:
  assumes "length xs < 2 ^ 64"
  shows "AVG (mean xs) cur (of_nat (length xs)) = mean (xs @ [real (unat cur)])"
proof -
  have u: "unat (of_nat (length xs) :: u64) = length xs" using assms by (simp add: unsigned_of_nat take_bit_nat_eq_self)
  have "mean xs * real (length xs) = sum_list xs" by (cases "xs = []") (simp_all add: mean_def)
  then show ?thesis by (simp add: AVG_def mean_def u)
qed

text \<open>The averages are the means over the states \<open>ss\<close>.\<close>

definition averaged :: "nat \<Rightarrow> sys list \<Rightarrow> profile \<Rightarrow> bool" where
  "averaged n ss pr \<longleftrightarrow>
     avg_ready pr = mean (map (\<lambda>s. real (unat (total_ready s))) ss) \<and>
     avg_total pr = mean (map (\<lambda>s. real (length (coroutine_list s))) ss) \<and>
     avg_alive pr = mean (map (\<lambda>s. real (unat (alive s))) ss) \<and>
     avg_idle pr = mean (map (\<lambda>s. real (unat (idle s))) ss) \<and>
     avg_ready_pervpu pr = map (\<lambda>v. mean (map (\<lambda>s. real (unat (get_vpu_ready (vpus s v)))) ss)) [0..<n]"

lemma unat_ucast64 [simp]: "unat (ucast (w :: u32) :: u64) = unat w" "unat (ucast (h :: u16) :: u64) = unat h"
  by (simp_all add: unsigned_ucast_eq take_bit_nat_eq_self unsigned_less [of w, where 'a = nat, THEN less_trans]
      unsigned_less [of h, where 'a = nat, THEN less_trans])

lemma averaged_sample:
  assumes "averaged n ss pr" "length ss < 2 ^ 64" "xt_index s = n" "length (coroutine_list s) < 2 ^ 64"
  shows "averaged n (ss @ [s]) (profile_sample (of_nat (length ss)) s pr)"
proof -
  have "AVG (mean (map f ss)) cur (of_nat (length ss)) = mean (map f (ss @ [s]))" if "real (unat cur) = f s" for f cur
    using AVG_mean [of "map f ss" cur] assms(2) that by simp
  moreover have "unat (of_nat (length (coroutine_list s)) :: u64) = length (coroutine_list s)"
    using assms(4) by (simp add: unsigned_of_nat take_bit_nat_eq_self)
  ultimately show ?thesis using assms(1,3) by (simp add: averaged_def profile_sample_def del: of_nat_unat map_append)
qed

lemma clock_rounds_averaged:
  assumes "averaged n ss pr" "do_profile pr" "length ss + length rounds < 2 ^ 64"
    and "\<forall>s\<in>set (map snd rounds). xt_index s = n \<and> length (coroutine_list s) < 2 ^ 64"
  shows "\<exists>pr'. clock_rounds False (of_nat (length ss)) rounds pr = Inr (map snd rounds, pr') \<and> averaged n (ss @ map snd rounds) pr'"
  using assms
proof (induction rounds arbitrary: ss pr)
  case (Cons r rounds)
  obtain ev s where r: "r = (ev, s)" by fastforce
  let ?pr = "profile_sample (of_nat (length ss)) s pr"
  have "averaged n (ss @ [s]) ?pr" using averaged_sample [OF Cons.prems(1), of s] Cons.prems(3,4) r by simp
  moreover have "do_profile ?pr" using Cons.prems(2) by (simp add: profile_sample_def)
  moreover have "of_nat (length (ss @ [s])) = (of_nat (length ss) + 1 :: u64)" by simp
  ultimately obtain pr' where "clock_rounds False (of_nat (length ss) + 1) rounds ?pr = Inr (map snd rounds, pr')"
    "averaged n (ss @ map snd (r # rounds)) pr'"
    using Cons.IH [of "ss @ [s]" ?pr] Cons.prems(3,4) r by (auto simp: add.commute)
  then show ?case using Cons.prems(2) r by (simp add: clock_round_def Let_def)
qed simp

section \<open>Counting the ready tasks of a VPU\<close>

definition counted :: "p_task_que \<Rightarrow> nat" where
  "counted pq = (if runqhead pq < runqtail pq then rq_len pq else 0)"

lemma get_vpu_ready_counted:
  assumes "\<And>p. p < TSC_PRIO_NUM \<Longrightarrow> rq_inv (xt r p)"
  shows "unat (get_vpu_ready r) = (\<Sum>p<TSC_PRIO_NUM. counted (xt r p))"
proof -
  let ?f = "\<lambda>ready p. if runqhead (xt r p) < runqtail (xt r p) then ready + ucast (runqtail (xt r p) - runqhead (xt r p)) else (ready :: u64)"
  have c: "counted (xt r p) \<le> 512" if "p < TSC_PRIO_NUM" for p using assms [OF that] by (simp add: counted_def rq_inv_def)
  have b: "(\<Sum>p<k. counted (xt r p)) \<le> 512 * k" if "k \<le> TSC_PRIO_NUM" for k
    using that
  proof (induction k)
    case (Suc k)
    with c [of k] show ?case by simp
  qed simp
  have "unat (foldl ?f 0 [0..<k]) = (\<Sum>p<k. counted (xt r p))" if "k \<le> TSC_PRIO_NUM" for k
    using that
  proof (induction k)
    case (Suc k)
    then have IH: "unat (foldl ?f 0 [0..<k]) = (\<Sum>p<k. counted (xt r p))" by simp
    have "unat (foldl ?f 0 [0..<k]) + unat (ucast (runqtail (xt r k) - runqhead (xt r k)) :: u64) < 2 ^ 64"
      using IH b [of k] Suc.prems assms [of k] by (simp add: rq_inv_def rq_len_def)
    then show ?case using IH by (simp add: counted_def rq_len_def unat_word_ariths)
  qed simp
  from this [of TSC_PRIO_NUM] b [of TSC_PRIO_NUM] show ?thesis
    by (simp add: get_vpu_ready_def unsigned_ucast_eq take_bit_nat_eq_self)
qed

text \<open>
  The count is exact as long as no counter has wrapped around. A ring whose tail counter has wrapped and whose head counter has not
  contributes nothing, however many tasks it holds.
\<close>

lemma get_vpu_ready_exact:
  assumes "\<And>p. p < TSC_PRIO_NUM \<Longrightarrow> rq_inv (xt r p) \<and> runqhead (xt r p) \<le> runqtail (xt r p)"
  shows "unat (get_vpu_ready r) = (\<Sum>p<TSC_PRIO_NUM. length (rq_list (xt r p)))"
proof -
  have "counted (xt r p) = length (rq_list (xt r p))" if "p < TSC_PRIO_NUM" for p
    using assms [OF that] by (auto simp: counted_def rq_list_def rq_len_def read_slots_def)
  then show ?thesis using get_vpu_ready_counted [of r] assms by simp
qed

lemma get_vpu_ready_wrapped:
  assumes "\<And>p. p < TSC_PRIO_NUM \<Longrightarrow> rq_inv (xt r p) \<and> runqtail (xt r p) < runqhead (xt r p)"
  shows "get_vpu_ready r = 0" "\<And>p. p < TSC_PRIO_NUM \<Longrightarrow> rq_list (xt r p) \<noteq> []"
proof -
  have "counted (xt r p) = 0" if "p < TSC_PRIO_NUM" for p using assms [OF that] by (auto simp: counted_def)
  then have "unat (get_vpu_ready r) = 0" using get_vpu_ready_counted [of r] assms by simp
  then show "get_vpu_ready r = 0" by (simp add: unsigned_eq_0_iff)
  fix p
  assume "p < TSC_PRIO_NUM"
  then have "runqtail (xt r p) - runqhead (xt r p) \<noteq> 0" using assms [of p] by auto
  then have "rq_len (xt r p) \<noteq> 0" by (simp add: rq_len_def unsigned_eq_0_iff)
  then show "rq_list (xt r p) \<noteq> []" by (simp add: rq_list_def read_slots_def)
qed

section \<open>Time slices\<close>

definition ticked :: "nat \<Rightarrow> sys \<Rightarrow> sys" where
  "ticked v s = upd_vpu v (\<lambda>r. r\<lparr>ticks := ticks r + 1, watchdog := watchdog r + 1\<rparr>) s"

lemma ticked_ok:
  assumes "sched_inv s" "v < xt_index s" "running s v = Some t"
  shows "sched_inv (ticked v s)" "xt_index (ticked v s) = xt_index s" "running (ticked v s) = running s" "cos (ticked v s) = cos s"
    "watchdog (vpus (ticked v s) v) = watchdog (vpus s v) + 1"
    "clock_signal v s = (if watchdog (vpus s v) + 1 > 5 then vpu_syscall core_yield v (ticked v s) else Inr (ticked v s))"
proof -
  have "ticked v s = upd_vpu v (\<lambda>r. r\<lparr>watchdog := watchdog r + 1\<rparr>) (upd_vpu v (\<lambda>r. r\<lparr>ticks := ticks r + 1\<rparr>) s)"
    by (simp add: ticked_def upd_vpu_def)
  moreover have "current (vpus s v) \<noteq> scheduler (vpus s v)" using assms(3) by (auto simp: running_def)
  ultimately show "clock_signal v s = (if watchdog (vpus s v) + 1 > 5 then vpu_syscall core_yield v (ticked v s) else Inr (ticked v s))"
    by (simp add: clock_signal_def vpu_clock_handler_def Let_def)
  show "sched_inv (ticked v s)" by (rule sched_inv_cong [OF assms(1)]) (auto simp: ticked_def running_def)
qed (auto simp: ticked_def running_def upd_vpu_def fun_eq_iff)

lemma ticks_before_slice_ends:
  assumes "sched_inv s" "v < xt_index s" "running s v = Some t" "watchdog (vpus s v) = of_nat w" "w + k \<le> 5"
  shows "\<exists>s'. clock_signals (replicate k v) s = Inr s' \<and> sched_inv s' \<and> xt_index s' = xt_index s \<and> running s' v = Some t \<and>
    cos s' = cos s \<and> watchdog (vpus s' v) = of_nat (w + k)"
  using assms
proof (induction k arbitrary: s w)
  case (Suc k)
  note t = ticked_ok [OF Suc.prems(1-3)]
  have "watchdog (vpus s v) + 1 = of_nat (Suc w)" using Suc.prems(4) by simp
  moreover have "unat (of_nat (Suc w) :: u32) = Suc w" using Suc.prems(5) by (simp add: unsigned_of_nat take_bit_nat_eq_self del: of_nat_Suc)
  ultimately have "\<not> watchdog (vpus s v) + 1 > 5" using Suc.prems(5) by (simp add: word_less_nat_alt del: of_nat_Suc)
  moreover note \<open>watchdog (vpus s v) + 1 = of_nat (Suc w)\<close>
  ultimately show ?case using Suc.IH [of "ticked v s" "Suc w"] t Suc.prems by simp
qed auto

section \<open>Properties\<close>



text \<open>
  The profiler computes what it says. With profiling on, the averages after any number of rounds are the arithmetic means, over all rounds, of the number
  of ready tasks, of all tasks, of living and idle VPUs and of the counted tasks of each VPU, although only the last average and the
  number of samples are kept; the rounds leave the system as they find it.
\<close>

theorem profile_is_mean:
  assumes "do_profile pr" "avg_alive pr = 0" "avg_idle pr = 0" "avg_ready pr = 0" "avg_total pr = 0" "length rounds < 2 ^ 64"
    and "\<forall>s\<in>set (map snd rounds). xt_index s = n \<and> length (coroutine_list s) < 2 ^ 64"
  shows "\<exists>pr'. clock_routine False n rounds pr = Inr (map snd rounds, pr') \<and> averaged n (map snd rounds) pr'"
proof -
  have "replicate n 0 = map (\<lambda>v. 0 :: real) [0..<n]" by (simp add: map_replicate_const)
  then have "averaged n [] (pr\<lparr>avg_ready_pervpu := replicate n 0\<rparr>)" using assms(2-5) by (simp add: averaged_def mean_def)
  from clock_rounds_averaged [OF this, of rounds] assms(1,6,7) show ?thesis by (simp add: clock_routine_def)
qed

theorem profile_is_mean_witness:
  "\<exists>pr'. clock_routine False 2 [([], example_sys), ([], example_sys\<lparr>idle := 1\<rparr>)]
      (\<lparr>do_profile = True, avg_alive = 0, avg_idle = 0, avg_ready = 0, avg_total = 0, avg_ready_pervpu = []\<rparr>) =
    Inr ([example_sys, example_sys\<lparr>idle := 1\<rparr>], pr') \<and> averaged 2 [example_sys, example_sys\<lparr>idle := 1\<rparr>] pr'"
  using profile_is_mean [of "\<lparr>do_profile = True, avg_alive = 0, avg_idle = 0, avg_ready = 0, avg_total = 0, avg_ready_pervpu = []\<rparr>"
      "[([], example_sys), ([], example_sys\<lparr>idle := 1\<rparr>)]" 2] by (simp add: example_sys_def)

end
