(* ===== verification/Notify.thy ===== *)
theory Notify
  imports Async
begin

text \<open>
  Notifications (\<^verbatim>\<open>src/notify.c\<close>, \<^verbatim>\<open>include/inter/notify.h\<close>): sleeping until a key is set or a deadline passes. The loop of the sleeper is a function of what it
  observes after each return of the system call: the key and the clock. The race between the sleeper and those who wake it is a step
  relation, one step per access to the key.
\<close>

section \<open>Sleeping with a deadline\<close>

definition int64 :: "int \<Rightarrow> int" where
  "int64 x = sint (word_of_int x :: u64)"

text \<open>The argument of the futex call for \<open>ns\<close> nanoseconds: seconds and nanoseconds, or none.\<close>

definition futex_timespec :: "int \<Rightarrow> (int \<times> int) option" where
  "futex_timespec ns = (if ns < 0 then None else Some (ns div 1000000000, ns mod 1000000000))"

text \<open>
  \<open>obs\<close> lists the observations; the result says whether the key was set and which timeouts were given to the system call, \<open>None\<close> that the
  last call has not returned yet.
\<close>

fun tsleep_loop :: "int \<Rightarrow> int \<Rightarrow> (u32 \<times> int) list \<Rightarrow> (bool \<times> int list) option" where
  "tsleep_loop deadline ns [] = None"
| "tsleep_loop deadline ns ((key, now) # obs) =
     (if key \<noteq> 0 then Some (True, [ns])
      else if deadline \<le> now then Some (False, [ns])
      else map_option (\<lambda>(b, calls). (b, ns # calls)) (tsleep_loop deadline (int64 (deadline - now)) obs))"

definition tsleep :: "int \<Rightarrow> int \<Rightarrow> (u32 \<times> int) list \<Rightarrow> (bool \<times> int list) option" where
  "tsleep ns now obs = tsleep_loop (int64 (ns + now)) ns obs"

record note_world =
  nw_ns :: int
  nw_now :: int
  nw_obs :: "(u32 \<times> int) list"
  nw_calls :: "int list"

definition tsleep_call :: "note_world \<Rightarrow> c_err + note_world" where
  "tsleep_call w = (case tsleep (nw_ns w) (nw_now w) (nw_obs w) of
       None \<Rightarrow> Inl Diverges
     | Some (b, calls) \<Rightarrow> Inr (w\<lparr>nw_calls := nw_calls w @ calls\<rparr>))"

definition notify_tsleep :: "int \<Rightarrow> note_world \<Rightarrow> c_err + note_world" where
  "notify_tsleep ns w = (if 0 < ns then tsleep_call (w\<lparr>nw_ns := ns\<rparr>) else Inr w)"

definition notify_tsleep_u :: "int \<Rightarrow> nat \<Rightarrow> note_world pool \<times> sys \<times> note_world \<Rightarrow>
    c_err + (bool \<times> note_world pool \<times> sys \<times> note_world)" where
  "notify_tsleep_u ns v = (\<lambda>(p, s, w).
     if 0 < ns then async_request_submit tsleep_call v (p, s, w\<lparr>nw_ns := ns\<rparr>) else Inr (False, p, s, w))"

text \<open>\<open>nanosleep\<close> gets the time in seconds and nanoseconds; the call is a parameter.\<close>

definition nanosleep_request :: "u64 \<Rightarrow> int \<times> int" where
  "nanosleep_request ns = (int (unat (ns div 1000000000)), int (unat (ns mod 1000000000)))"

definition coroc_nanosleep :: "(int \<times> int \<Rightarrow> 'w \<Rightarrow> c_err + 'w) \<Rightarrow> u64 \<Rightarrow> nat \<Rightarrow> 'w pool \<times> sys \<times> 'w \<Rightarrow>
    c_err + (bool \<times> 'w pool \<times> sys \<times> 'w)" where
  "coroc_nanosleep os_nanosleep ns v = (\<lambda>(p, s, w).
     if ns = 0 then Inr (False, p, s, w) else async_request_submit (os_nanosleep (nanosleep_request ns)) v (p, s, w))"

section \<open>The sleeper and the wakers\<close>

datatype sleeper = Entering | Sleeping | Checking | Returned bool

datatype waker = Before | Won | After

record note_sys =
  n_key :: u32
  n_sleeper :: sleeper
  n_waker :: "nat \<Rightarrow> waker"

text \<open>The system call sleeps only while the key is 0; it may return at any time. The flag of the last rule says whether the deadline has passed.\<close>

inductive note_step :: "note_sys \<Rightarrow> note_sys \<Rightarrow> bool" where
  enter: "n_sleeper s = Entering \<Longrightarrow> note_step s (s\<lparr>n_sleeper := (if n_key s = 0 then Sleeping else Checking)\<rparr>)"
| return: "n_sleeper s = Sleeping \<Longrightarrow> note_step s (s\<lparr>n_sleeper := Checking\<rparr>)"
| check: "n_sleeper s = Checking \<Longrightarrow>
    note_step s (s\<lparr>n_sleeper := (if n_key s \<noteq> 0 then Returned True else if late then Returned False else Entering)\<rparr>)"
| cas: "n_waker s w = Before \<Longrightarrow>
    note_step s (if n_key s = 0 then s\<lparr>n_key := 1, n_waker := (n_waker s)(w := Won)\<rparr> else s\<lparr>n_waker := (n_waker s)(w := After)\<rparr>)"
| wake: "n_waker s w = Won \<Longrightarrow>
    note_step s (s\<lparr>n_waker := (n_waker s)(w := After), n_sleeper := (if n_sleeper s = Sleeping then Checking else n_sleeper s)\<rparr>)"

inductive_cases note_stepE: "note_step s s'"

definition note_start :: note_sys where
  "note_start = \<lparr>n_key = 0, n_sleeper = Entering, n_waker = (\<lambda>_. Before)\<rparr>"

definition note_inv :: "note_sys \<Rightarrow> bool" where
  "note_inv s \<longleftrightarrow> (n_sleeper s = Sleeping \<longrightarrow> n_key s = 0 \<or> (\<exists>w. n_waker s w = Won)) \<and>
     ((\<exists>w. n_waker s w \<noteq> Before) \<longleftrightarrow> n_key s \<noteq> 0) \<and> (\<forall>w w'. n_waker s w = Won \<and> n_waker s w' = Won \<longrightarrow> w = w') \<and>
     (n_sleeper s = Returned True \<longrightarrow> n_key s \<noteq> 0)"

lemma note_inv_step: "note_step s s' \<Longrightarrow> note_inv s \<Longrightarrow> note_inv s'"
proof (erule note_stepE, goal_cases)
  case (4 w)
  have "\<exists>x. x \<noteq> w \<and> n_waker s x = Won" if "\<exists>x. n_waker s x = Won" using that 4(3) by (metis waker.distinct(1))
  with 4 show ?case by (cases "n_key s = 0") (auto simp: note_inv_def)
next
  case (5 w)
  then show ?case by (auto simp: note_inv_def split: if_splits)
qed (auto simp: note_inv_def split: if_splits)

lemma note_inv_reachable:
  assumes "note_step\<^sup>*\<^sup>* note_start s"
  shows "note_inv s"
  using assms
proof (induction rule: rtranclp_induct)
  case base
  show ?case by (simp add: note_start_def note_inv_def)
qed (rule note_inv_step)

section \<open>Facts on the loop\<close>

lemma int64_id: "- (2 ^ 63) \<le> x \<Longrightarrow> x < 2 ^ 63 \<Longrightarrow> int64 x = x"
  by (simp add: int64_def signed_of_int signed_take_bit_int_eq_self)

definition decisive :: "int \<Rightarrow> u32 \<times> int \<Rightarrow> bool" where
  "decisive deadline ob \<longleftrightarrow> fst ob \<noteq> 0 \<or> deadline \<le> snd ob"

lemma tsleep_loop_eq:
  assumes "deadline < 2 ^ 63" "\<forall>ob\<in>set obs. 0 \<le> snd ob" "- (2 ^ 63) \<le> deadline"
  shows "tsleep_loop deadline ns obs = (case dropWhile (\<lambda>ob. \<not> decisive deadline ob) obs of
      [] \<Rightarrow> None
    | ob # rest \<Rightarrow> Some (fst ob \<noteq> 0, ns # map (\<lambda>ob. deadline - snd ob) (takeWhile (\<lambda>ob. \<not> decisive deadline ob) obs)))"
  using assms(2)
proof (induction obs arbitrary: ns)
  case (Cons ob obs)
  obtain key now where ob: "ob = (key, now)" by fastforce
  have "int64 (deadline - now) = deadline - now" if "now < deadline" using Cons.prems that assms(1) ob by (intro int64_id) simp_all
  then show ?case using Cons ob by (auto simp: decisive_def simp del: dropWhile_eq_Nil_conv split: list.split)
qed simp

section \<open>Properties\<close>

text \<open>
  A timed sleep ends for a reason and never sleeps past its deadline: it returns at the first observation that shows the key set or the deadline
  reached, and reports which; until then every further system call is given exactly the time that is left, which is positive. The
  timeout reaches the system as seconds and nanoseconds without loss.
\<close>

theorem tsleep_until_deadline:
  assumes "0 < ns" "0 \<le> now" "ns + now < 2 ^ 63" "\<forall>ob\<in>set obs. 0 \<le> snd ob"
  shows "(case dropWhile (\<lambda>ob. \<not> decisive (ns + now) ob) obs of
        [] \<Rightarrow> tsleep ns now obs = None
      | ob # rest \<Rightarrow> \<exists>calls. tsleep ns now obs = Some (fst ob \<noteq> 0, ns # calls) \<and>
          calls = map (\<lambda>ob. ns + now - snd ob) (takeWhile (\<lambda>ob. \<not> decisive (ns + now) ob) obs) \<and> (\<forall>c\<in>set calls. 0 < c)) \<and>
    (\<exists>sec nsec. futex_timespec ns = Some (sec, nsec) \<and> sec * 1000000000 + nsec = ns \<and> 0 \<le> nsec \<and> nsec < 1000000000)"
proof -
  have "int64 (ns + now) = ns + now" using assms by (intro int64_id) simp_all
  then have "tsleep ns now obs = (case dropWhile (\<lambda>ob. \<not> decisive (ns + now) ob) obs of
      [] \<Rightarrow> None
    | ob # rest \<Rightarrow> Some (fst ob \<noteq> 0, ns # map (\<lambda>ob. ns + now - snd ob) (takeWhile (\<lambda>ob. \<not> decisive (ns + now) ob) obs)))"
    using tsleep_loop_eq [of "ns + now" obs ns] assms by (simp add: tsleep_def)
  moreover have "0 < ns + now - snd ob" if "ob \<in> set (takeWhile (\<lambda>ob. \<not> decisive (ns + now) ob) obs)" for ob
    using set_takeWhileD [OF that] by (simp add: decisive_def)
  moreover have "ns div 1000000000 * 1000000000 + ns mod 1000000000 = ns" by simp
  ultimately show ?thesis using assms(1) by (auto simp: futex_timespec_def simp del: dropWhile_eq_Nil_conv split: list.split)
qed

theorem tsleep_until_deadline_witness:
  "tsleep 100 1000 [(0, 1040), (0, 1060), (0, 1105)] = Some (False, [100, 60, 40]) \<and> (\<exists>sec nsec. futex_timespec 100 = Some (sec, nsec) \<and>
     sec * 1000000000 + nsec = 100)"
  using tsleep_until_deadline [of 100 1000 "[(0, 1040), (0, 1060), (0, 1105)]"] by (auto simp: decisive_def)

text \<open>
  Claim C33. No notification is lost. However the steps of the sleeper and of any number of wakers interleave, once a call of \<open>coroc_notify_wakeup\<close> has returned the
  key is set, and a sleeper that is still asleep is about to be woken by the one waker who set the key; when no such waker is left, the sleeper is
  awake, and its next look at the key makes it return with the notification, whether or not the deadline has passed.
\<close>

theorem notification_not_lost:
  assumes "note_step\<^sup>*\<^sup>* note_start s" "n_waker s w = After"
  shows "n_key s \<noteq> 0 \<and>
    (n_sleeper s = Sleeping \<longrightarrow> (\<exists>!w'. n_waker s w' = Won) \<and>
       (\<forall>w'. n_waker s w' = Won \<longrightarrow> (\<exists>s'. note_step s s' \<and> n_waker s' w' = After \<and> n_sleeper s' = Checking))) \<and>
    (\<forall>s'. note_step s s' \<and> n_sleeper s' \<noteq> n_sleeper s \<longrightarrow>
       (n_sleeper s = Checking \<longrightarrow> n_sleeper s' = Returned True) \<and> (n_sleeper s \<noteq> Checking \<longrightarrow> n_sleeper s' = Checking))"
proof -
  have inv: "note_inv s" by (rule note_inv_reachable [OF assms(1)])
  then have k: "n_key s \<noteq> 0" using assms(2) unfolding note_inv_def by (metis waker.distinct(4))
  moreover have "\<exists>!w'. n_waker s w' = Won" if "n_sleeper s = Sleeping" using inv k that unfolding note_inv_def by metis
  moreover have "\<exists>s'. note_step s s' \<and> n_waker s' w' = After \<and> n_sleeper s' = Checking" if "n_sleeper s = Sleeping" "n_waker s w' = Won" for w'
    using note_step.wake [OF that(2)] that(1) by (intro exI) (auto intro: conjI)
  moreover have "(n_sleeper s = Checking \<longrightarrow> n_sleeper s' = Returned True) \<and> (n_sleeper s \<noteq> Checking \<longrightarrow> n_sleeper s' = Checking)"
    if "note_step s s'" "n_sleeper s' \<noteq> n_sleeper s" for s'
    using that k by (auto elim!: note_stepE split: if_splits)
  ultimately show ?thesis by blast
qed

theorem notification_not_lost_witness:
  "n_key (note_start\<lparr>n_key := 1, n_waker := (\<lambda>_. Before)(3 := After), n_sleeper := Checking\<rparr>) \<noteq> 0 \<and>
   note_step\<^sup>*\<^sup>* note_start (note_start\<lparr>n_key := 1, n_waker := (\<lambda>_. Before)(3 := After), n_sleeper := Checking\<rparr>)"
proof -
  let ?a = "note_start\<lparr>n_sleeper := Sleeping\<rparr>" and ?b = "note_start\<lparr>n_key := 1, n_waker := (\<lambda>_. Before)(3 := Won), n_sleeper := Sleeping\<rparr>"
    and ?c = "note_start\<lparr>n_key := 1, n_waker := (\<lambda>_. Before)(3 := After), n_sleeper := Checking\<rparr>"
  have "note_step note_start ?a" "note_step ?a ?b" "note_step ?b ?c"
    using note_step.enter [of note_start] note_step.cas [of ?a 3] note_step.wake [of ?b 3] by (simp_all add: note_start_def)
  then have r: "note_step\<^sup>*\<^sup>* note_start ?c" by (meson r_into_rtranclp rtranclp.rtrancl_into_rtrancl)
  show ?thesis using notification_not_lost [OF r, of 3] r by simp
qed

end
