(* ===== verification/Darwin.thy ===== *)
theory Darwin
  imports Context
begin

text \<open>
  What the library brings along for systems without it: \<open>makecontext\<close> on several processors (\<^verbatim>\<open>src/darwin/ucontext.c\<close> and the register files of
  \<^verbatim>\<open>include/inter/darwin\<close>), barriers and spin locks (\<^verbatim>\<open>src/darwin/pthread_barrier.c\<close>, \<^verbatim>\<open>pthread_spinlock.h\<close>) and the clock (\<^verbatim>\<open>time_.h\<close>). A machine context is a
  function from registers to words, the stack a function from addresses to words. Loading and saving registers is assembly code and
  not modelled.
\<close>

section \<open>Making contexts\<close>

datatype amd64_reg =
    ONSTACK | RDI | RSI | RDX | RCX | R8 | R9 | RAX | RBX | RBP | R10 | R11 | R12 | R13 | R14 | R15 | TRAPNO | ADDR | FLAGS | ERR
  | RIP | CS | RFLAGS | RSP | SS | LEN | FPFORMAT | OWNEDFP | FPSTATE nat | SPARE nat

text \<open>Any other number of arguments than two makes the function write to address 0.\<close>

definition makecontext_amd64 :: "u64 \<Rightarrow> u64 \<Rightarrow> u64 \<Rightarrow> u32 list \<Rightarrow> (u64 \<Rightarrow> u64) \<Rightarrow> c_err + ((amd64_reg \<Rightarrow> u64) \<times> (u64 \<Rightarrow> u64))" where
  "makecontext_amd64 stk sz func args m =
     (if length args \<noteq> 2 then Inl NullDeref
      else
        (let sp = stk + 8 * (sz div 8);
             sp = sp - 8 * of_nat (length args);
             sp = sp - sp mod 16;
             sp = sp - 8 in
         Inr ((\<lambda>_. 0)(RDI := scast (args ! 0), RSI := scast (args ! 1), RIP := func, RSP := sp), m(sp := 0))))"

datatype x86_reg =
    XONSTACK | GS | FS | ES | DS | EDI | ESI | EBP | ISP | EBX | EDX | ECX | EAX | XTRAPNO | XERR | EIP | XCS | EFLAGS | ESP | XSS
  | FPREGS nat | XSPARE nat

primrec store_args :: "u32 \<Rightarrow> u32 list \<Rightarrow> (u32 \<Rightarrow> u32) \<Rightarrow> (u32 \<Rightarrow> u32)" where
  "store_args a [] m = m"
| "store_args a (x # xs) m = store_args (a + 4) xs (m(a := x))"

definition makecontext_x86 :: "u32 \<Rightarrow> u32 \<Rightarrow> u32 \<Rightarrow> u32 list \<Rightarrow> (x86_reg \<Rightarrow> u32) \<Rightarrow> (u32 \<Rightarrow> u32) \<Rightarrow> (x86_reg \<Rightarrow> u32) \<times> (u32 \<Rightarrow> u32)" where
  "makecontext_x86 stk sz func args r m =
     (let sp = stk + 4 * (sz div 4);
          sp = sp - 4 * of_nat (length args);
          sp = sp - sp mod 16;
          m = store_args sp args m;
          sp = sp - 4 in
      (r(EIP := func, ESP := sp), m(sp := 0)))"

datatype power_reg = PC | CR | CTR | XER | SP | TOC | GR3 | GPR nat

definition makecontext_power :: "u32 \<Rightarrow> u32 \<Rightarrow> u32 \<Rightarrow> u32 list \<Rightarrow> (power_reg \<Rightarrow> u32) \<Rightarrow> c_err + (power_reg \<Rightarrow> u32)" where
  "makecontext_power stk sz func args r = (case args of
       [] \<Rightarrow> Inl Uninit
     | x # xs \<Rightarrow> (let tos = stk + 4 * (sz div 4); sp = tos - 4 * 16 in Inr (r(PC := func, SP := sp, GR3 := x))))"

text \<open>ARM and MIPS differ in the numbers of the registers only: \<open>first\<close> argument, stack pointer, link register.\<close>

definition makecontext_regs :: "nat \<Rightarrow> nat \<Rightarrow> nat \<Rightarrow> u32 \<Rightarrow> u32 \<Rightarrow> u32 \<Rightarrow> u32 list \<Rightarrow> (nat \<Rightarrow> u32) \<Rightarrow> nat \<Rightarrow> u32" where
  "makecontext_regs first spreg link stk sz func args r =
     (let sp = stk + 4 * (sz div 4);
          r = (\<lambda>i. if first \<le> i \<and> i < first + min 4 (length args) then args ! (i - first) else r i) in
      r(spreg := sp, link := func))"

definition makecontext_arm :: "u32 \<Rightarrow> u32 \<Rightarrow> u32 \<Rightarrow> u32 list \<Rightarrow> (nat \<Rightarrow> u32) \<Rightarrow> nat \<Rightarrow> u32" where
  "makecontext_arm = makecontext_regs 0 13 14"

definition makecontext_mips :: "u32 \<Rightarrow> u32 \<Rightarrow> u32 \<Rightarrow> u32 list \<Rightarrow> (nat \<Rightarrow> u32) \<Rightarrow> nat \<Rightarrow> u32" where
  "makecontext_mips = makecontext_regs 4 29 31"

text \<open>\<open>getcontext\<close> answers 0 when it has saved the context and 1 when the context is resumed later; \<open>set\<close> is \<open>setcontext\<close>.\<close>

definition swapcontext :: "('s \<Rightarrow> int \<times> 's) \<Rightarrow> ('s \<Rightarrow> 's) \<Rightarrow> 's \<Rightarrow> int \<times> 's" where
  "swapcontext getcontext setcontext s = (case getcontext s of (r, s) \<Rightarrow> (0, if r = 0 then setcontext s else s))"

section \<open>The stack of a new context\<close>

lemma unat_align: "unat (w - w mod 16) = unat w - unat w mod 16" if "16 < (2 :: nat) ^ LENGTH('a)" for w :: "'a :: len word"
proof -
  have n: "unat (16 :: 'a word) = 16" using that by (simp add: unat_numeral take_bit_nat_eq_self)
  have "w mod 16 \<le> w" by (simp add: word_le_nat_alt unat_mod_distrib n)
  then show ?thesis using that by (simp add: unat_sub unat_mod_distrib take_bit_nat_eq_self)
qed

lemma unat_whole_words:
  fixes stk sz k :: "'a :: len word"
  assumes "unat stk + unat sz < 2 ^ LENGTH('a)" "unat k \<noteq> 0"
  shows "unat (stk + k * (sz div k)) = unat stk + unat k * (unat sz div unat k)"
proof -
  have le: "unat k * (unat sz div unat k) \<le> unat sz" by simp
  have "unat (k * (sz div k)) = unat k * (unat sz div unat k)"
    using le assms(1) by (subst unat_mult_lem [THEN iffD1]) (simp_all add: unat_div_distrib order_le_less_trans [OF le])
  moreover from this have "unat stk + unat (k * (sz div k)) < 2 ^ LENGTH('a)" using le assms(1) by linarith
  ultimately show ?thesis by (simp add: unat_add_lem [THEN iffD1])
qed

lemma aligned_minus:
  fixes x k :: nat
  assumes "k \<le> x - x mod 16" "0 < k" "k < 16"
  shows "(x - x mod 16 - k) mod 16 = 16 - k"
proof -
  have "x - x mod 16 = 16 * (x div 16)" by (simp add: minus_mod_eq_mult_div)
  moreover from this obtain q where "x div 16 = Suc q" using assms(1,2) by (cases "x div 16") auto
  ultimately have "x - x mod 16 - k = 16 * q + (16 - k)" using assms(3) by simp
  then show ?thesis using assms(2) by simp
qed

lemma sp_amd64:
  fixes stk sz :: u64
  assumes "unat stk + unat sz < 2 ^ 64" "48 \<le> unat sz"
  defines "sp \<equiv> stk + 8 * (sz div 8) - 8 * of_nat 2"
  shows "unat stk \<le> unat (sp - sp mod 16 - 8)" "unat (sp - sp mod 16 - 8) + 24 \<le> unat stk + unat sz" "unat (sp - sp mod 16 - 8) mod 16 = 8"
proof -
  have top: "unat (stk + 8 * (sz div 8)) = unat stk + 8 * (unat sz div 8)" using unat_whole_words [of stk sz 8] assms(1) by simp
  have z: "unat sz - 7 \<le> 8 * (unat sz div 8)" "8 * (unat sz div 8) \<le> unat sz" by presburger+
  have sp: "unat sp = unat stk + 8 * (unat sz div 8) - 16"
    unfolding sp_def using top z assms(2) by (simp add: unat_sub word_le_nat_alt)
  have al: "unat (sp - sp mod 16) = unat sp - unat sp mod 16" by (rule unat_align) simp
  have ge: "unat stk + 8 \<le> unat sp - unat sp mod 16"
    using sp z assms(2) mod_less_divisor [of 16 "unat sp"] by linarith
  then have e: "unat (sp - sp mod 16 - 8) = unat sp - unat sp mod 16 - 8" using al by (simp add: unat_sub word_le_nat_alt)
  show "unat stk \<le> unat (sp - sp mod 16 - 8)" using e ge by linarith
  show "unat (sp - sp mod 16 - 8) + 24 \<le> unat stk + unat sz" using e ge sp z assms(2) by linarith
  have "(unat sp - unat sp mod 16 - 8) mod 16 = 8" using aligned_minus [of 8 "unat sp"] ge by linarith
  then show "unat (sp - sp mod 16 - 8) mod 16 = 8" using e by simp
qed

lemma sp_x86:
  fixes stk sz :: u32
  assumes "unat stk + unat sz < 2 ^ 32" "32 \<le> unat sz"
  defines "sp \<equiv> stk + 4 * (sz div 4) - 4 * of_nat 2"
  shows "unat stk \<le> unat (sp - sp mod 16 - 4)" "unat (sp - sp mod 16 - 4) + 12 \<le> unat stk + unat sz" "unat (sp - sp mod 16 - 4) mod 16 = 12"
proof -
  have top: "unat (stk + 4 * (sz div 4)) = unat stk + 4 * (unat sz div 4)" using unat_whole_words [of stk sz 4] assms(1) by simp
  have z: "unat sz - 3 \<le> 4 * (unat sz div 4)" "4 * (unat sz div 4) \<le> unat sz" by presburger+
  have sp: "unat sp = unat stk + 4 * (unat sz div 4) - 8"
    unfolding sp_def using top z assms(2) by (simp add: unat_sub word_le_nat_alt)
  have al: "unat (sp - sp mod 16) = unat sp - unat sp mod 16" by (rule unat_align) simp
  have ge: "unat stk + 4 \<le> unat sp - unat sp mod 16"
    using sp z assms(2) mod_less_divisor [of 16 "unat sp"] by linarith
  then have e: "unat (sp - sp mod 16 - 4) = unat sp - unat sp mod 16 - 4" using al by (simp add: unat_sub word_le_nat_alt)
  show "unat stk \<le> unat (sp - sp mod 16 - 4)" using e ge by linarith
  show "unat (sp - sp mod 16 - 4) + 12 \<le> unat stk + unat sz" using e ge sp z assms(2) by linarith
  have "(unat sp - unat sp mod 16 - 4) mod 16 = 12" using aligned_minus [of 4 "unat sp"] ge by linarith
  then show "unat (sp - sp mod 16 - 4) mod 16 = 12" using e by simp
qed

section \<open>Barriers\<close>

text \<open>
  The mutex is held throughout a call, so arriving is one step: it either wakes everybody or goes to sleep on the condition variable. A woken thread
  leaves with 0. With \<open>spurious\<close>, a thread may wake up without a broadcast, as the standard allows. A thread that has left may come back.
\<close>

datatype barrier_pc = Outside | Blocked | Woken | Left bool

record barrier =
  b_count :: nat
  b_tripCount :: nat
  b_pc :: "nat \<Rightarrow> barrier_pc"

definition barrier_init :: "nat \<Rightarrow> barrier option" where
  "barrier_init n = (if n = 0 then None else Some \<lparr>b_count = 0, b_tripCount = n, b_pc = (\<lambda>_. Outside)\<rparr>)"

definition barrier_arrive :: "nat \<Rightarrow> barrier \<Rightarrow> barrier" where
  "barrier_arrive t b =
     (let b = b\<lparr>b_count := b_count b + 1\<rparr> in
      if b_tripCount b \<le> b_count b
      then b\<lparr>b_count := 0, b_pc := (\<lambda>u. if u = t then Left True else if b_pc b u = Blocked then Woken else b_pc b u)\<rparr>
      else b\<lparr>b_pc := (b_pc b)(t := Blocked)\<rparr>)"

inductive barrier_step :: "bool \<Rightarrow> barrier \<Rightarrow> barrier \<Rightarrow> bool" for spurious where
  arrive: "b_pc b t = Outside \<Longrightarrow> barrier_step spurious b (barrier_arrive t b)"
| leave: "b_pc b t = Woken \<Longrightarrow> barrier_step spurious b (b\<lparr>b_pc := (b_pc b)(t := Left False)\<rparr>)"
| again: "b_pc b t = Left r \<Longrightarrow> barrier_step spurious b (b\<lparr>b_pc := (b_pc b)(t := Outside)\<rparr>)"
| wake: "spurious \<Longrightarrow> b_pc b t = Blocked \<Longrightarrow> barrier_step spurious b (b\<lparr>b_pc := (b_pc b)(t := Woken)\<rparr>)"

inductive_cases barrier_stepE: "barrier_step spurious b b'"

definition blocked :: "barrier \<Rightarrow> nat set" where
  "blocked b = {t. b_pc b t = Blocked}"

definition barrier_inv :: "barrier \<Rightarrow> bool" where
  "barrier_inv b \<longleftrightarrow> finite (blocked b) \<and> card (blocked b) = b_count b \<and> b_count b < b_tripCount b"

lemma blocked_arrive:
  assumes "b_pc b t = Outside"
  shows "blocked (barrier_arrive t b) = (if b_tripCount b \<le> b_count b + 1 then {} else insert t (blocked b))"
  using assms by (auto simp: barrier_arrive_def blocked_def Let_def)

lemma blocked_upd: "b_pc b t \<noteq> Blocked \<Longrightarrow> x \<noteq> Blocked \<Longrightarrow> blocked (b\<lparr>b_pc := (b_pc b)(t := x)\<rparr>) = blocked b"
  by (auto simp: blocked_def)

lemma barrier_inv_step:
  assumes "barrier_step False b b'" "barrier_inv b"
  shows "barrier_inv b' \<and> b_tripCount b' = b_tripCount b"
  using assms(1)
proof (cases rule: barrier_step.cases)
  case (arrive t)
  have "t \<notin> blocked b" using arrive(2) by (simp add: blocked_def)
  then show ?thesis using assms(2) blocked_arrive [OF arrive(2)] arrive(1) by (auto simp: barrier_inv_def barrier_arrive_def Let_def)
next
  case (leave t)
  then show ?thesis using assms(2) by (simp add: barrier_inv_def blocked_upd)
next
  case (again t r)
  then show ?thesis using assms(2) by (simp add: barrier_inv_def blocked_upd)
qed simp

lemma barrier_inv_reachable:
  assumes "(barrier_step False)\<^sup>*\<^sup>* b0 b" "barrier_init n = Some b0"
  shows "barrier_inv b \<and> b_tripCount b = n"
  using assms
proof (induction rule: rtranclp_induct)
  case base
  then show ?case by (auto simp: barrier_init_def barrier_inv_def blocked_def split: if_splits)
qed (auto dest: barrier_inv_step)

section \<open>Spin locks and the clock\<close>

record spinlock =
  sl_word :: int
  sl_holds :: "nat \<Rightarrow> bool"

definition spin_init :: "spinlock \<Rightarrow> spinlock" where
  "spin_init l = l\<lparr>sl_word := 0\<rparr>"

text \<open>One compare-and-swap by a thread: the whole of \<open>pthread_spin_trylock\<close>, and a round of the loop of \<open>pthread_spin_lock\<close>.\<close>

definition spin_cas :: "nat \<Rightarrow> spinlock \<Rightarrow> bool \<times> spinlock" where
  "spin_cas t l = (if sl_word l = 0 then (True, l\<lparr>sl_word := 1, sl_holds := (sl_holds l)(t := True)\<rparr>) else (False, l))"

definition EBUSY :: int where "EBUSY = 16"

definition spin_trylock :: "nat \<Rightarrow> spinlock \<Rightarrow> int \<times> spinlock" where
  "spin_trylock t l = (case spin_cas t l of (ok, l) \<Rightarrow> (if ok then 0 else EBUSY, l))"

definition spin_unlock :: "nat \<Rightarrow> spinlock \<Rightarrow> spinlock" where
  "spin_unlock t l = l\<lparr>sl_word := 0, sl_holds := (sl_holds l)(t := False)\<rparr>"

inductive spin_step :: "spinlock \<Rightarrow> spinlock \<Rightarrow> bool" where
  "\<not> sl_holds l t \<Longrightarrow> spin_step l (snd (spin_cas t l))"
| "sl_holds l t \<Longrightarrow> spin_step l (spin_unlock t l)"

definition spin_inv :: "spinlock \<Rightarrow> bool" where
  "spin_inv l \<longleftrightarrow> (\<forall>t u. sl_holds l t \<and> sl_holds l u \<longrightarrow> t = u) \<and> (sl_word l = 0 \<longleftrightarrow> (\<forall>t. \<not> sl_holds l t))"

lemma spin_inv_step: "spin_step l l' \<Longrightarrow> spin_inv l \<Longrightarrow> spin_inv l'"
  by (erule spin_step.cases) (auto simp: spin_cas_def spin_unlock_def spin_inv_def)

text \<open>\<open>gettimeofday\<close> is a parameter: its answer, seconds and microseconds.\<close>

definition clock_gettime :: "int \<times> int \<times> int \<Rightarrow> int \<times> (int \<times> int) option" where
  "clock_gettime now = (case now of (rv, sec, usec) \<Rightarrow> if rv \<noteq> 0 then (rv, None) else (0, Some (sec, usec * 1000)))"

definition getnanotime :: "int \<times> int \<Rightarrow> int" where
  "getnanotime ts = (case ts of (sec, nsec) \<Rightarrow> sec * 1000000000 + nsec)"

definition getmicrotime :: "int \<times> int \<Rightarrow> int" where
  "getmicrotime tv = (case tv of (sec, usec) \<Rightarrow> sec * 1000000 + usec)"

text \<open>The two clocks of the library agree on these systems, up to the unit.\<close>

lemma clocks_agree: "clock_gettime (0, sec, usec) = (0, Some ts) \<Longrightarrow> getnanotime ts = 1000 * getmicrotime (sec, usec)"
  by (auto simp: clock_gettime_def getnanotime_def getmicrotime_def)

section \<open>Properties\<close>

lemma store_two: "a + 4 \<noteq> a \<Longrightarrow> store_args a [x, y] m a = x \<and> store_args a [x, y] m (a + 4) = y"
  by simp

text \<open>
  Claim C34. The contexts made for coroutines are sound. On a stack that lies in the address space and has room for a few words, the stack pointer of a new context points
  to a return address of 0 inside the stack, just below a 16-byte boundary as the calling convention demands at the entry of a function; nothing
  else of memory is written on x86-64, and on x86 the two arguments follow the return address. The function is the given one, and
  on x86-64 the argument registers hold the halves from which \<open>bootstrap\<close> puts the address of the coroutine together again.
\<close>

theorem new_context_sound:
  fixes stk sz p :: u64 and stk' sz' x y :: u32
  assumes "unat stk + unat sz < 2 ^ 64" "48 \<le> unat sz" "p < 2 ^ 48" "unat stk' + unat sz' < 2 ^ 32" "32 \<le> unat sz'"
  shows "(\<exists>r m'. makecontext_amd64 stk sz func [low_half p, high_half p] m = Inr (r, m') \<and>
      r RIP = func \<and> join_halves (ucast (r RDI)) (ucast (r RSI)) = p \<and> m' = m(r RSP := 0) \<and>
      unat stk \<le> unat (r RSP) \<and> unat (r RSP) + 8 \<le> unat stk + unat sz \<and> unat (r RSP) mod 16 = 8) \<and>
    (\<exists>r m'. makecontext_x86 stk' sz' func' [x, y] r0 m0 = (r, m') \<and>
      r EIP = func' \<and> m' (r ESP) = 0 \<and> m' (r ESP + 4) = x \<and> m' (r ESP + 8) = y \<and>
      unat stk' \<le> unat (r ESP) \<and> unat (r ESP) + 12 \<le> unat stk' + unat sz' \<and> unat (r ESP) mod 16 = 12)"
proof
  let ?sp = "stk + 8 * (sz div 8) - 8 * of_nat 2"
  let ?rsp = "?sp - ?sp mod 16 - 8"
  have "ucast (scast (w :: u32) :: u64) = w" for w
    by (rule bit_word_eqI) (simp add: bit_simps)
  then have j: "join_halves (ucast (scast (low_half p) :: u64)) (ucast (scast (high_half p) :: u64)) = p"
    using join_split_iff [of p] assms(3) by simp
  have "unat stk \<le> unat ?rsp \<and> unat ?rsp + 8 \<le> unat stk + unat sz \<and> unat ?rsp mod 16 = 8"
    using sp_amd64 [OF assms(1,2)] by linarith
  with j show "\<exists>r m'. makecontext_amd64 stk sz func [low_half p, high_half p] m = Inr (r, m') \<and>
      r RIP = func \<and> join_halves (ucast (r RDI)) (ucast (r RSI)) = p \<and> m' = m(r RSP := 0) \<and>
      unat stk \<le> unat (r RSP) \<and> unat (r RSP) + 8 \<le> unat stk + unat sz \<and> unat (r RSP) mod 16 = 8"
    unfolding makecontext_amd64_def Let_def by simp
next
  let ?sp = "stk' + 4 * (sz' div 4) - 4 * of_nat 2"
  let ?a = "?sp - ?sp mod 16"
  have b: "unat stk' \<le> unat (?a - 4) \<and> unat (?a - 4) + 12 \<le> unat stk' + unat sz' \<and> unat (?a - 4) mod 16 = 12"
    using sp_x86 [OF assms(4,5)] by linarith
  have ne: "a + 4 \<noteq> a" "a \<noteq> a - 4" "a + 4 \<noteq> a - 4" for a :: u32 by (simp_all add: eq_diff_eq add.assoc)
  have m: "((store_args ?a [x, y] m0)(?a - 4 := 0)) ?a = x" "((store_args ?a [x, y] m0)(?a - 4 := 0)) (?a + 4) = y"
    using store_two [OF ne(1) [of ?a], of x y m0] ne(2,3) [of ?a] by simp_all
  have l: "length [x, y] = 2" by simp
  have i: "?a - 4 + 4 = ?a" "?a - 4 + 8 = ?a + 4" by simp_all
  show "\<exists>r m'. makecontext_x86 stk' sz' func' [x, y] r0 m0 = (r, m') \<and>
      r EIP = func' \<and> m' (r ESP) = 0 \<and> m' (r ESP + 4) = x \<and> m' (r ESP + 8) = y \<and>
      unat stk' \<le> unat (r ESP) \<and> unat (r ESP) + 12 \<le> unat stk' + unat sz' \<and> unat (r ESP) mod 16 = 12"
  proof (intro exI conjI)
    show "makecontext_x86 stk' sz' func' [x, y] r0 m0 = (r0(EIP := func', ESP := ?a - 4), (store_args ?a [x, y] m0)(?a - 4 := 0))"
      unfolding makecontext_x86_def Let_def l by (rule refl)
  qed (use b m i in \<open>simp_all only: fun_upd_same fun_upd_other x86_reg.distinct not_False_eq_True simp_thms\<close>)
qed

theorem new_context_sound_witness:
  "\<exists>r m'. makecontext_amd64 4096 8192 77 [low_half 5000, high_half 5000] (\<lambda>_. 1) = Inr (r, m') \<and> r RIP = 77 \<and>
     join_halves (ucast (r RDI)) (ucast (r RSI)) = 5000 \<and> 4096 \<le> unat (r RSP) \<and> unat (r RSP) + 8 \<le> 12288"
  using new_context_sound [of 4096 8192 5000 4096 8192 77 "\<lambda>_. 1" 77 1 2 "\<lambda>_. 0" "\<lambda>_. 0"] by (auto simp: word_less_nat_alt)

text \<open>
  The barrier holds threads back, as long as condition variables do not wake up on their own: however arrivals and departures interleave, the number of blocked threads is
  the barrier's counter and stays below the trip count, and a blocked thread goes on only when the last missing thread arrives; then all blocked threads go on
  together, and the one that came last is the one that is told so.
\<close>

theorem barrier_releases_together:
  assumes "barrier_init n = Some b0" "(barrier_step False)\<^sup>*\<^sup>* b0 b"
  shows "card (blocked b) = b_count b \<and> b_count b < n \<and>
    (\<forall>b' t. barrier_step False b b' \<and> t \<in> blocked b \<and> t \<notin> blocked b' \<longrightarrow>
      card (blocked b) + 1 = n \<and> (\<forall>u\<in>blocked b. b_pc b' u = Woken) \<and> (\<exists>!u. b_pc b u = Outside \<and> b_pc b' u = Left True))"
proof (intro conjI allI impI)
  have inv: "barrier_inv b" "b_tripCount b = n" using barrier_inv_reachable [OF assms(2,1)] by simp_all
  then show "card (blocked b) = b_count b" "b_count b < n" by (simp_all add: barrier_inv_def)
  fix b' t
  assume "barrier_step False b b' \<and> t \<in> blocked b \<and> t \<notin> blocked b'"
  then have a: "barrier_step False b b'" "t \<in> blocked b" "t \<notin> blocked b'" by simp_all
  then obtain u where u: "b_pc b u = Outside" "b' = barrier_arrive u b" "b_tripCount b \<le> b_count b + 1"
  proof (cases rule: barrier_step.cases)
    case (arrive u)
    have "b_tripCount b \<le> b_count b + 1" using a(2,3) blocked_arrive [OF arrive(2)] arrive(1) by (auto split: if_splits)
    with arrive show ?thesis by (intro that)
  qed (use a(2,3) in \<open>auto simp: blocked_def split: if_splits\<close>)
  then show "card (blocked b) + 1 = n" using inv by (simp add: barrier_inv_def)
  have pc: "b_pc b' = (\<lambda>w. if w = u then Left True else if b_pc b w = Blocked then Woken else b_pc b w)"
    using u(2,3) by (auto simp: barrier_arrive_def Let_def fun_eq_iff)
  show "\<exists>!w. b_pc b w = Outside \<and> b_pc b' w = Left True"
    using u(1) by (intro ex1I [of _ u]) (auto simp: pc split: if_splits)
  show "\<forall>w\<in>blocked b. b_pc b' w = Woken" using u(1) by (auto simp: pc blocked_def)
qed

theorem barrier_releases_together_witness:
  "card (blocked (barrier_arrive 5 \<lparr>b_count = 0, b_tripCount = 2, b_pc = \<lambda>_. Outside\<rparr>)) = 1"
proof -
  let ?b = "\<lparr>b_count = 0, b_tripCount = 2, b_pc = \<lambda>_. Outside\<rparr>"
  have i: "barrier_init 2 = Some ?b" by (simp add: barrier_init_def)
  have r: "(barrier_step False)\<^sup>*\<^sup>* ?b (barrier_arrive 5 ?b)" by (intro r_into_rtranclp barrier_step.arrive) simp
  show ?thesis using barrier_releases_together [OF i r] by (simp add: barrier_arrive_def)
qed

text \<open>With spurious wake-ups, which POSIX allows and \<open>pthread_barrier_wait\<close> does not guard against, one thread passes a barrier for two.\<close>

lemma barrier_spurious:
  "\<exists>b0 b. barrier_init 2 = Some b0 \<and> (barrier_step True)\<^sup>*\<^sup>* b0 b \<and> b_pc b 5 = Left False \<and> (\<forall>t. t \<noteq> 5 \<longrightarrow> b_pc b t = Outside)"
proof -
  let ?b = "\<lambda>n x. \<lparr>b_count = n, b_tripCount = 2, b_pc = (\<lambda>_. Outside)(5 := x)\<rparr>"
  have "barrier_step True (?b 0 Outside) (?b 1 Blocked)"
    using barrier_step.arrive [of "?b 0 Outside" 5 True] by (simp add: barrier_arrive_def fun_upd_twist)
  moreover have "barrier_step True (?b 1 Blocked) (?b 1 Woken)" using barrier_step.wake [of True "?b 1 Blocked" 5] by simp
  moreover have "barrier_step True (?b 1 Woken) (?b 1 (Left False))" using barrier_step.leave [of "?b 1 Woken" 5] by simp
  ultimately have "(barrier_step True)\<^sup>*\<^sup>* (?b 0 Outside) (?b 1 (Left False))"
    by (meson r_into_rtranclp rtranclp.rtrancl_into_rtrancl)
  moreover have "barrier_init 2 = Some (?b 0 Outside)" by (simp add: barrier_init_def fun_eq_iff)
  ultimately show ?thesis by (intro exI conjI) auto
qed

text \<open>At most one thread holds a spin lock, and a try fails exactly when somebody holds it.\<close>

lemma spin_mutual_exclusion:
  assumes "spin_step\<^sup>*\<^sup>* (spin_init \<lparr>sl_word = w, sl_holds = (\<lambda>_. False)\<rparr>) l"
  shows "\<forall>t u. sl_holds l t \<and> sl_holds l u \<longrightarrow> t = u" "fst (spin_trylock v l) = 0 \<longleftrightarrow> (\<forall>t. \<not> sl_holds l t)"
proof -
  have "spin_inv l" using assms
  proof (induction rule: rtranclp_induct)
    case base
    show ?case by (simp add: spin_init_def spin_inv_def)
  qed (rule spin_inv_step)
  then show "\<forall>t u. sl_holds l t \<and> sl_holds l u \<longrightarrow> t = u" "fst (spin_trylock v l) = 0 \<longleftrightarrow> (\<forall>t. \<not> sl_holds l t)"
    by (auto simp: spin_inv_def spin_trylock_def spin_cas_def EBUSY_def)
qed

end
