(* ===== verification/Netpoll_Kqueue.thy ===== *)
theory Netpoll_Kqueue
  imports Netpoll
begin

text \<open>
  The back end for systems with \<open>kqueue\<close> (\<^verbatim>\<open>src/netpoll_kqueue.c\<close>). The kernel's queue maps a descriptor and a filter to the registered poll descriptor. What is in memory
  that the code does not initialise is an argument: the field \<open>filter\<close> of the change it submits and the array it reads events from. So is the
  number that \<open>kevent\<close> answers.
\<close>

unbundle bit_operations_syntax

section \<open>Registering\<close>

text \<open>The constants of \<open>sys/event.h\<close>; the filters are \<open>-1\<close> and \<open>-2\<close>.\<close>

definition EVFILT_READ :: u16 where "EVFILT_READ = - 1"
definition EVFILT_WRITE :: u16 where "EVFILT_WRITE = - 2"
definition EV_ERROR :: u16 where "EV_ERROR = 0x4000"

type_synonym kqueue = "int \<times> u16 \<Rightarrow> addr option"

definition kq_filter :: "u16 \<Rightarrow> u32 \<Rightarrow> u16" where
  "kq_filter junk mode =
     (let f = junk;
          f = (if mode AND TSC_NETPOLL_READ \<noteq> 0 then f OR EVFILT_READ else f) in
      if mode AND TSC_NETPOLL_WRITE \<noteq> 0 then f OR EVFILT_WRITE else f)"

definition kq_ctl :: "u16 \<Rightarrow> addr \<Rightarrow> bool \<Rightarrow> kqueue \<Rightarrow> sys \<Rightarrow> kqueue" where
  "kq_ctl junk d adding kq s =
     kq((pd_fd (descs s d), kq_filter junk (pd_mode (descs s d))) := (if adding then Some d else None))"

definition kq_add :: "u16 \<Rightarrow> addr \<Rightarrow> kqueue \<Rightarrow> sys \<Rightarrow> kqueue \<times> sys" where
  "kq_add junk d kq s = (let s = s\<lparr>rmem := refcnt_get d (rmem s), num_op := num_op s + 1\<rparr> in (kq_ctl junk d True kq s, s))"

definition kq_rem :: "u16 \<Rightarrow> addr \<Rightarrow> kqueue \<Rightarrow> sys \<Rightarrow> kqueue \<times> sys" where
  "kq_rem junk d kq s = (let s = s\<lparr>rmem := snd (refcnt_put (Some d) (rmem s)), num_op := num_op s - 1\<rparr> in (kq_ctl junk d False kq s, s))"

section \<open>Polling\<close>

text \<open>The time to wait, in seconds and nanoseconds; none for a negative number of milliseconds.\<close>

definition kq_timeout :: "int \<Rightarrow> (int \<times> int) option" where
  "kq_timeout timeout = (if 0 \<le> timeout then Some (timeout div 1000, timeout mod 1000 * 1000000) else None)"

definition kq_event_mode :: "u32 \<Rightarrow> u32 \<Rightarrow> u16 \<Rightarrow> u16 \<Rightarrow> u32" where
  "kq_event_mode mode want filt flags =
     (if flags AND EV_ERROR \<noteq> 0 then TSC_NETPOLL_ERROR
      else
        (let mode = (if want AND TSC_NETPOLL_READ \<noteq> 0 \<and> filt AND EVFILT_READ \<noteq> 0 then mode OR TSC_NETPOLL_READ else mode) in
         if want AND TSC_NETPOLL_WRITE \<noteq> 0 \<and> filt AND EVFILT_WRITE \<noteq> 0 then mode OR TSC_NETPOLL_WRITE else mode))"

fun kq_events :: "nat option \<Rightarrow> (addr \<times> u16 \<times> u16) list \<Rightarrow> u32 \<Rightarrow> sys \<Rightarrow> c_err + sys" where
  "kq_events vo [] mode s = Inr s"
| "kq_events vo ((d, filt, flags) # evs) mode s =
     (if pd_done (descs s d) then kq_events vo evs mode s
      else
        (let s = upd_desc d (\<lambda>r. r\<lparr>pd_done := True\<rparr>) s;
             mode = kq_event_mode mode (pd_mode (descs s d)) filt flags;
             s = upd_desc d (\<lambda>r. r\<lparr>pd_mode := mode\<rparr>) s in
         andthen (netpoll_wakeup vo d s) (kq_events vo evs mode)))"

text \<open>The call passes \<open>events\<close> as the list of changes and no list for events, so its content stays what it was.\<close>

definition kq_nevents :: int where "kq_nevents = 0"

definition kq_polling :: "nat option \<Rightarrow> int \<Rightarrow> (addr \<times> u16 \<times> u16) list \<Rightarrow> sys \<Rightarrow> c_err + (bool \<times> sys)" where
  "kq_polling vo n events s =
     (if n \<le> 0 then Inr (False, s) else andthen (kq_events vo (take (nat n) events) 0 s) (\<lambda>s. Inr (True, s)))"

section \<open>What the back end does\<close>

text \<open>\<open>kevent\<close> answers at most as many events as there is room for, so no waiting coroutine is ever woken.\<close>

lemma kq_never_wakes: "n \<le> kq_nevents \<Longrightarrow> kq_polling vo n events s = Inr (False, s)"
  by (simp add: kq_polling_def kq_nevents_def)

text \<open>
  The filters are numbers and not bits. Waiting to read registers the filter for reading whatever was in memory; waiting for both registers the filter for reading
  only; waiting to write registers the filter for writing or that for reading, depending on what was in memory; and an event for writing is
  reported as readable as well to a descriptor that waits for both.
\<close>

lemma kq_filters:
  "kq_filter junk TSC_NETPOLL_READ = EVFILT_READ" "kq_filter junk (TSC_NETPOLL_READ OR TSC_NETPOLL_WRITE) = EVFILT_READ"
  "kq_filter junk TSC_NETPOLL_WRITE = (if bit junk 0 then EVFILT_READ else EVFILT_WRITE)"
  "kq_event_mode 0 (TSC_NETPOLL_READ OR TSC_NETPOLL_WRITE) EVFILT_WRITE 0 = TSC_NETPOLL_READ OR TSC_NETPOLL_WRITE"
proof -
  have "junk OR - 2 = (if bit junk 0 then - 1 else - 2)"
  proof (rule bit_word_eqI)
    fix n
    assume "n < LENGTH(16)"
    then show "bit (junk OR - 2) n = bit (if bit junk 0 then - 1 else - 2 :: u16) n"
      by (cases n) (auto simp: bit_simps)
  qed
  then show "kq_filter junk TSC_NETPOLL_WRITE = (if bit junk 0 then EVFILT_READ else EVFILT_WRITE)"
    by (simp add: kq_filter_def EVFILT_READ_def EVFILT_WRITE_def poll_bits Let_def)
qed (simp_all add: kq_filter_def kq_event_mode_def EVFILT_READ_def EVFILT_WRITE_def EV_ERROR_def poll_bits Let_def)

lemma kq_timeout_ms: "0 \<le> t \<Longrightarrow> \<exists>sec nsec. kq_timeout t = Some (sec, nsec) \<and> sec * 1000000000 + nsec = t * 1000000 \<and> nsec < 1000000000"
proof -
  have "t div 1000 * 1000000000 + t mod 1000 * 1000000 = t * 1000000" using div_mult_mod_eq [of t 1000] by linarith
  then show "0 \<le> t \<Longrightarrow> \<exists>sec nsec. kq_timeout t = Some (sec, nsec) \<and> sec * 1000000000 + nsec = t * 1000000 \<and> nsec < 1000000000"
    by (simp add: kq_timeout_def)
qed

end
