(* ===== verification/Lock_Spec.thy ===== *)
theory Lock_Spec
  imports Locks Darwin
begin

text \<open>
  The lock interface (\<^verbatim>\<open>include/inter/coroc_lock.h\<close>). A lock is the futex lock on Linux and a spin lock elsewhere; all other parts of the development use a lock as
  a flag that is taken when it is free and given back by its holder. The contract of a lock implementation is a locale, in which every
  implementation is shown to refine the flag; both implementations are interpretations of it.
\<close>

section \<open>The flag\<close>

inductive flag_step :: "addr \<Rightarrow> sys \<Rightarrow> sys \<Rightarrow> bool" for l where
  take: "lock_acquire_at l s = Inr s' \<Longrightarrow> flag_step l s s'"
| give: "locks s l \<Longrightarrow> flag_step l s (lock_release_at l s)"

inductive_cases flag_stepE: "flag_step l s s'"

lemma same_flag: "s = s\<lparr>locks := (locks s)(l := locks s l)\<rparr>"
  by simp

section \<open>What an implementation promises\<close>

locale lock_impl =
  fixes start :: "'s \<Rightarrow> bool" and step :: "'s \<Rightarrow> 's \<Rightarrow> bool" and holds :: "'s \<Rightarrow> nat \<Rightarrow> bool"
  assumes starts_free: "start s \<Longrightarrow> \<not> holds s t"
    and exclusive: "start s0 \<Longrightarrow> step\<^sup>*\<^sup>* s0 s \<Longrightarrow> holds s t \<Longrightarrow> holds s u \<Longrightarrow> t = u"
    and one_at_a_time: "step s s' \<Longrightarrow> \<exists>t. \<forall>u. u \<noteq> t \<longrightarrow> holds s' u = holds s u"
begin

text \<open>The lock never passes from one thread to another without being free in between.\<close>

lemma no_hand_over:
  assumes "start s0" "step\<^sup>*\<^sup>* s0 s" "step s s'" "holds s t" "holds s' u"
  shows "t = u"
proof (rule ccontr)
  assume "t \<noteq> u"
  have s': "step\<^sup>*\<^sup>* s0 s'" using assms(2,3) by (rule rtranclp.rtrancl_into_rtrancl)
  have "\<not> holds s u" using exclusive [OF assms(1,2,4)] \<open>t \<noteq> u\<close> by blast
  with one_at_a_time [OF assms(3)] assms(4,5) \<open>t \<noteq> u\<close> have "holds s' t" by metis
  then show False using exclusive [OF assms(1) s' _ assms(5)] \<open>t \<noteq> u\<close> by blast
qed

lemma step_refines:
  assumes "start s0" "step\<^sup>*\<^sup>* s0 s" "step s s'" "locks S l \<longleftrightarrow> (\<exists>t. holds s t)"
  shows "\<exists>S'. (S' = S \<or> flag_step l S S') \<and> (locks S' l \<longleftrightarrow> (\<exists>t. holds s' t)) \<and> S' = S\<lparr>locks := (locks S)(l := locks S' l)\<rparr>"
proof (cases "\<exists>t. holds s' t")
  case True
  show ?thesis
  proof (cases "locks S l")
    case True
    then show ?thesis using \<open>\<exists>t. holds s' t\<close> same_flag by blast
  next
    case False
    let ?S = "S\<lparr>locks := (locks S)(l := True)\<rparr>"
    have "flag_step l S ?S" using False by (intro take) (simp add: lock_acquire_at_def)
    then show ?thesis using True by (intro exI [of _ ?S]) simp
  qed
next
  case none: False
  show ?thesis
  proof (cases "locks S l")
    case True
    let ?S = "lock_release_at l S"
    have "flag_step l S ?S" using True by (rule give)
    then show ?thesis using none by (intro exI [of _ ?S]) (simp add: lock_release_at_def)
  next
    case False
    then show ?thesis using none same_flag by blast
  qed
qed

lemma run_refines:
  assumes "start s0" "step\<^sup>*\<^sup>* s0 s" "\<not> locks S l"
  shows "\<exists>S'. (flag_step l)\<^sup>*\<^sup>* S S' \<and> (locks S' l \<longleftrightarrow> (\<exists>t. holds s t)) \<and> S' = S\<lparr>locks := (locks S)(l := locks S' l)\<rparr>"
  using assms(2)
proof (induction rule: rtranclp_induct)
  case base
  then show ?case using starts_free [OF assms(1)] assms(3) same_flag by blast
next
  case (step s s')
  from step.IH obtain S1 where S1: "(flag_step l)\<^sup>*\<^sup>* S S1" "locks S1 l \<longleftrightarrow> (\<exists>t. holds s t)" "S1 = S\<lparr>locks := (locks S)(l := locks S1 l)\<rparr>"
    by blast
  from step_refines [OF assms(1) step.hyps(1,2) S1(2)] obtain S2 where
    S2: "S2 = S1 \<or> flag_step l S1 S2" "locks S2 l \<longleftrightarrow> (\<exists>t. holds s' t)" "S2 = S1\<lparr>locks := (locks S1)(l := locks S2 l)\<rparr>" by blast
  have "(flag_step l)\<^sup>*\<^sup>* S S2" using S1(1) S2(1) by (auto intro: rtranclp.rtrancl_into_rtrancl)
  moreover have "S2 = S\<lparr>locks := (locks S)(l := locks S2 l)\<rparr>"
  proof -
    have "locks S1 = (locks S)(l := locks S1 l)" by (subst S1(3)) simp
    then have "(locks S1)(l := b) = (locks S)(l := b)" for b by (metis fun_upd_upd)
    moreover have "S1\<lparr>locks := x\<rparr> = S\<lparr>locks := x\<rparr>" for x by (subst S1(3)) simp
    ultimately show ?thesis using S2(3) by metis
  qed
  ultimately show ?case using S2(2) by blast
qed

end

section \<open>The two implementations\<close>

definition futex_holds :: "futex \<Rightarrow> nat \<Rightarrow> bool" where
  "futex_holds f t \<longleftrightarrow> pcs f t = Holding"

lemma reachable_star: "futex_step\<^sup>*\<^sup>* futex_init f \<Longrightarrow> reachable f"
  by (induction rule: rtranclp_induct) (auto intro: reachable.intros)

interpretation futex_lock: lock_impl "\<lambda>f. f = futex_init" futex_step futex_holds
proof unfold_locales
  show "\<not> futex_holds s t" if "s = futex_init" for s t using that by (simp add: futex_holds_def futex_init_def)
  show "t = u" if "s0 = futex_init" "futex_step\<^sup>*\<^sup>* s0 s" "futex_holds s t" "futex_holds s u" for s0 s t u
  proof -
    have "futex_inv s" using reachable_inv reachable_star that(1,2) by blast
    then show ?thesis using that(3,4) by (auto simp: futex_inv_def futex_holds_def)
  qed
  show "\<exists>t. \<forall>u. u \<noteq> t \<longrightarrow> futex_holds s' u = futex_holds s u" if "futex_step s s'" for s s'
    using that
  proof cases
    case (wake t u)
    then show ?thesis by (intro exI [of _ t]) (auto simp: futex_holds_def wake_one_def asleep_def)
  qed (auto simp: futex_holds_def lock_exchange_def lock_spin_def lock_swap_def lock_announce_def futex_sleep_def futex_trylock_def
      unlock_exchange_def wake_one_def Let_def split: nat.split)
qed

interpretation spin_lock: lock_impl "\<lambda>l. \<exists>w. l = spin_init \<lparr>sl_word = w, sl_holds = (\<lambda>_. False)\<rparr>" spin_step sl_holds
proof unfold_locales
  show "\<not> sl_holds s t" if "\<exists>w. s = spin_init \<lparr>sl_word = w, sl_holds = (\<lambda>_. False)\<rparr>" for s t using that by (auto simp: spin_init_def)
  show "t = u" if "\<exists>w. s0 = spin_init \<lparr>sl_word = w, sl_holds = (\<lambda>_. False)\<rparr>" "spin_step\<^sup>*\<^sup>* s0 s" "sl_holds s t" "sl_holds s u" for s0 s t u
    using that spin_mutual_exclusion(1) by blast
  show "\<exists>t. \<forall>u. u \<noteq> t \<longrightarrow> sl_holds s' u = sl_holds s u" if "spin_step s s'" for s s'
    using that by cases (auto simp: spin_cas_def spin_unlock_def)
qed

section \<open>Properties\<close>



end
