(* ===== verification/Timed_Wait.thy ===== *)
theory Timed_Wait
  imports Timer_Laws
begin

text \<open>
  Waiting for a descriptor with a deadline (\<open>coroc_net_timedwait\<close> of \<^verbatim>\<open>src/netpoll.c\<close>), with the timers of
  \<^verbatim>\<open>src/time.c\<close> in place of the parameter it has in the model of the poller. The poller and the timer daemon race to wake the
  waiter; the descriptor is counted by the waiter, the poller and the timer. The call is split where it suspends the coroutine.
\<close>

section \<open>The operation\<close>

definition deadline_init :: "addr \<Rightarrow> addr \<Rightarrow> u64 \<Rightarrow> tmgr \<Rightarrow> tmgr" where
  "deadline_init x d w m = m\<lparr>th := upd_timer x (\<lambda>r. r\<lparr>tm_when := w, tm_period := 0, tm_func := NetpollTimeout,
     tm_args := Some d, tm_owner := None\<rparr>) (th m)\<rparr>"

text \<open>\<open>x\<close> is the timer, a local variable of the caller, \<open>d\<close> the new descriptor, \<open>now\<close> the clock.\<close>

definition timed_wait :: "addr \<Rightarrow> addr \<Rightarrow> addr \<Rightarrow> addr \<Rightarrow> int \<Rightarrow> u32 \<Rightarrow> u64 \<Rightarrow> int \<Rightarrow> nat \<Rightarrow> tmgr \<Rightarrow> sys \<Rightarrow> c_err + (tmgr \<times> sys)" where
  "timed_wait dm entry x d fd mode now usec v m s =
     (if \<not> 0 < usec then Inl AssertFail
      else
        (let s = poll_desc_init d fd mode (Some v) s;
             m = deadline_init x d (now + of_int usec) m;
             s = s\<lparr>rmem := refcnt_get d (rmem s)\<rparr> in
         andthen (lock_acquire_at d s)
           (\<lambda>s. andthen (add_intertimer (Some v) dm entry x m (netpoll_add d s))
             (\<lambda>(m, s). andthen (vpu_suspend [d] v s) (\<lambda>s. Inr (m, s))))))"

definition timed_wait_awaken :: "addr \<Rightarrow> addr \<Rightarrow> tmgr \<Rightarrow> sys \<Rightarrow> c_err + (u32 \<times> tmgr \<times> sys)" where
  "timed_wait_awaken x d m s = andthen (del_intertimer x m s)
     (\<lambda>(r, m, s). case net_timedwait_awaken (r = 0) d s of (mode, s) \<Rightarrow> Inr (mode, m, s))"

lemma andthen_Inr_right: "andthen a Inr = a"
  by (cases a) simp_all

text \<open>It is the function of the poller's model, with the effect of the timers filled in.\<close>

lemma timed_wait_net:
  "andthen (timed_wait dm entry x d fd mode now usec v m s) (\<lambda>(m, s). Inr s) =
   net_timedwait (\<lambda>s. andthen (add_intertimer (Some v) dm entry x (deadline_init x d (now + of_int usec) m) s) (\<lambda>(m, s). Inr s)) d fd mode usec v s"
  by (simp add: timed_wait_def net_timedwait_def Let_def andthen_assoc split_beta) (simp add: andthen_Inr_right)

section \<open>A parked waiter\<close>

text \<open>
  The waiter sleeps, its descriptor is neither locked nor done and has three owners, and the timer that names the descriptor is in the heap.
\<close>

definition parked :: "addr \<Rightarrow> addr \<Rightarrow> addr \<Rightarrow> u32 \<Rightarrow> tmgr \<Rightarrow> sys \<Rightarrow> bool" where
  "parked x d t mode m s \<longleftrightarrow> sched_inv s \<and> waiter_ok s d \<and> descs s d = (descs s d)\<lparr>pd_done := False, pd_mode := mode, pd_wait := Some t\<rparr> \<and>
     rc_count (rmem s) d = 3 \<and> mgr_ok m \<and> x \<in> mgr_timers m \<and> tm_period (tst (th m) x) = 0 \<and>
     tm_func (tst (th m) x) = NetpollTimeout \<and> tm_args (tst (th m) x) = Some d \<and> tm_lock m \<noteq> d"

lemma parkedD:
  assumes "parked x d t mode m s"
  shows "sched_inv s" "waiter_ok s d" "\<not> pd_done (descs s d)" "pd_mode (descs s d) = mode" "pd_wait (descs s d) = Some t"
    "rc_count (rmem s) d = 3" "mgr_ok m" "x \<in> mgr_timers m"
    "tm_period (tst (th m) x) = 0 \<and> tm_func (tst (th m) x) = NetpollTimeout \<and> tm_args (tst (th m) x) = Some d" "tm_lock m \<noteq> d"
    "\<not> locks s d" "co_status (cos s t) = WAIT" "co_type (cos s t) \<noteq> IDLE"
proof -
  have "pd_done (descs s d) = pd_done ((descs s d)\<lparr>pd_done := False, pd_mode := mode, pd_wait := Some t\<rparr>)"
    "pd_mode (descs s d) = pd_mode ((descs s d)\<lparr>pd_done := False, pd_mode := mode, pd_wait := Some t\<rparr>)"
    "pd_wait (descs s d) = pd_wait ((descs s d)\<lparr>pd_done := False, pd_mode := mode, pd_wait := Some t\<rparr>)"
    using assms unfolding parked_def by metis+
  then show *: "\<not> pd_done (descs s d)" "pd_mode (descs s d) = mode" "pd_wait (descs s d) = Some t" by simp_all
  show "sched_inv s" "waiter_ok s d" "rc_count (rmem s) d = 3" "mgr_ok m" "x \<in> mgr_timers m" "tm_lock m \<noteq> d"
    "tm_period (tst (th m) x) = 0 \<and> tm_func (tst (th m) x) = NetpollTimeout \<and> tm_args (tst (th m) x) = Some d"
    using assms by (simp_all add: parked_def)
  then show "\<not> locks s d" "co_status (cos s t) = WAIT" "co_type (cos s t) \<noteq> IDLE" using *(3) by (auto simp: waiter_ok_def)
qed

lemma add_intertimer_quiet:
  assumes "\<not> locks s (tm_lock m)" "tm_daemon m \<noteq> None" "tm_size m = 0 \<longrightarrow> \<not> tm_suspend m" "mgr_ok m"
  shows "\<exists>m'. add_intertimer vo dm entry x m s = Inr (m', s)"
proof -
  note g = grow_ok [OF assms(4)]
  have "lock_release_at (tm_lock m) (s\<lparr>locks := (locks s)(tm_lock m := True)\<rparr>) = s"
    using assms(1) by (simp add: lock_release_at_def fun_upd_idem)
  then show ?thesis using assms by (auto simp: add_intertimer_def lock_acquire_at_def Let_def g notify_wakeup_def split: option.split)
qed

lemma vpu_suspend_others:
  assumes "vpu_suspend ls v s = Inr s'" "w \<noteq> v"
  shows "running s' w = running s w"
  using assms by (auto simp: vpu_suspend_def vpu_syscall_def core_wait_def Let_def release_locks_eq running_def split: option.splits if_splits)

lemma timed_wait_parks:
  assumes inv: "sched_inv s" "v < xt_index s" "running s v = Some t" and usec: "0 < usec"
    and m: "mgr_ok m" "x \<notin> mgr_timers m" "\<not> locks s (tm_lock m)" "tm_lock m \<noteq> d" "tm_daemon m \<noteq> None" "tm_size m = 0 \<longrightarrow> \<not> tm_suspend m"
  obtains m1 s1 where "timed_wait dm entry x d fd mode now usec v m s = Inr (m1, s1)" "parked x d t mode m1 s1"
    "mgr_timers m1 = insert x (mgr_timers m)" "tm_lock m1 = tm_lock m" "num_op s1 = num_op s + 1" "rc_released (rmem s1) = rc_released (rmem s)"
    "\<And>u. tm_when (tst (th m1) u) = (if u = x then now + of_int usec else tm_when (tst (th m) u))" "xt_index s1 = xt_index s"
    "\<And>w. w \<noteq> v \<Longrightarrow> running s1 w = running s w" "\<not> locks s1 (tm_lock m)"
proof -
  let ?m = "deadline_init x d (now + of_int usec) m"
  let ?s = "netpoll_add d (((poll_desc_init d fd mode (Some v) s)\<lparr>rmem := refcnt_get d (rmem (poll_desc_init d fd mode (Some v) s))\<rparr>)
     \<lparr>locks := (locks (poll_desc_init d fd mode (Some v) s))(d := True)\<rparr>)"
  have m': "mgr_ok ?m" "x \<notin> mgr_timers ?m" "tm_lock ?m = tm_lock m" "tm_daemon ?m = tm_daemon m" "tm_size ?m = tm_size m" "tm_suspend ?m = tm_suspend m"
    "mgr_timers ?m = mgr_timers m" "tst (th ?m) u = (if u = x then (tst (th m) u)\<lparr>tm_when := now + of_int usec, tm_period := 0, tm_func := NetpollTimeout,
     tm_args := Some d, tm_owner := None\<rparr> else tst (th m) u)" for u
  proof -
    have ne: "timers (th m) ! i \<noteq> x" if "i < tm_size m" for i
      using that m(1,2) held_nth [of "tm_size m" "th m"] by (auto simp: mgr_ok_def)
    have pl: "parent i < i" if "0 < i" for i using that by (rule parent_less)
    show "mgr_ok ?m" using m(1) ne pl
      by (auto simp: mgr_ok_def deadline_init_def placed_def heap_ok_def due_def upd_timer_def)
    show "x \<notin> mgr_timers ?m" "tm_lock ?m = tm_lock m" "tm_daemon ?m = tm_daemon m" "tm_size ?m = tm_size m" "tm_suspend ?m = tm_suspend m"
      "mgr_timers ?m = mgr_timers m" "tst (th ?m) u = (if u = x then (tst (th m) u)\<lparr>tm_when := now + of_int usec, tm_period := 0, tm_func := NetpollTimeout,
       tm_args := Some d, tm_owner := None\<rparr> else tst (th m) u)"
      using m(2) by (simp_all add: deadline_init_def held_def upd_timer_def)
  qed
  have cur: "current (vpus s v) = Some t" using inv(3) by (auto simp: running_def split: if_splits)
  have s': "sched_inv ?s" "v < xt_index ?s" "running ?s v = Some t" "\<not> locks ?s (tm_lock m)"
    using inv m(3,4) by (simp_all add: netpoll_add_def poll_desc_init_def upd_desc_def Let_def)
  obtain m1 where m1: "add_intertimer (Some v) dm entry x ?m ?s = Inr (m1, ?s)"
    using add_intertimer_quiet [of ?s ?m "Some v" dm entry x] s'(4) m(5,6) m' by auto
  note a = add_intertimer_heap [OF m'(1,2) m1]
  obtain s1 where s1: "vpu_suspend [d] v ?s = Inr s1" "sched_inv s1" "running s1 v = None" "\<And>u. co_status (cos s1 u) = (if u = t then WAIT else co_status (cos ?s u))"
    "xt_index s1 = xt_index ?s" by (rule sched_inv_suspend [OF s'(1-3), of "[d]"]) (rule that; assumption)
  note f = vpu_suspend_frame [OF s1(1)]
  have d: "descs ?s d = (descs s d)\<lparr>pd_done := False, pd_fd := fd, pd_mode := mode, pd_wait := Some t\<rparr>" "rc_count (rmem ?s) d = 3"
    "rc_released (rmem ?s) = rc_released (rmem s)" "num_op ?s = num_op s + 1" "cos ?s = cos s" "xt_index ?s = xt_index s" "running ?s = running s"
    using cur by (simp_all add: netpoll_add_def poll_desc_init_def upd_desc_def Let_def coroutine_self_def refcnt_get_def refcnt_init_def)
  have "timed_wait dm entry x d fd mode now usec v m s = Inr (m1, s1)"
    using usec m1 s1(1) by (simp add: timed_wait_def Let_def lock_acquire_at_def) (simp add: poll_desc_init_def Let_def)
  moreover have "parked x d t mode m1 s1"
  proof -
    have "co_type (cos s t) \<noteq> IDLE" using runningD(2) [OF inv] by simp
    then have "waiter_ok s1 d" using f d s1(4) by (simp add: waiter_ok_def)
    moreover obtain i where "tst (th m1) x = (tst (th ?m) x)\<lparr>tm_index := i\<rparr>" using a(3) by blast
    ultimately show ?thesis using s1(2) f d(1,2) a m(4) m'(3,8) by (simp add: parked_def)
  qed
  moreover have "tm_when (tst (th m1) u) = (if u = x then now + of_int usec else tm_when (tst (th m) u))" for u
    using a(3) [of u] m'(8) [of u] by auto
  ultimately show ?thesis using a(2,5) m'(3,7) f s'(4) d(3,4,6,7) s1(5) vpu_suspend_others [OF s1(1)] by (intro that [of m1 s1]) simp_all
qed

section \<open>Who comes first, and who comes late\<close>

lemma put_shared:
  "rc_count r d \<noteq> 1 \<Longrightarrow> snd (refcnt_put (Some d) r) = r\<lparr>rc_count := (rc_count r)(d := rc_count r d - 1)\<rparr>"
  by (simp add: refcnt_put_def Let_def)

lemma put_last:
  "rc_count r d = 1 \<Longrightarrow> snd (refcnt_put (Some d) r) = r\<lparr>rc_count := (rc_count r)(d := 0), rc_released := rc_released r @ [d]\<rparr>"
  by (simp add: refcnt_put_def Let_def)

lemma event_wakes:
  assumes p: "parked x d t mode m s" and vo: "\<And>v. vo = Some v \<Longrightarrow> v < xt_index s"
  obtains s2 where "netpoll_polling vo [(d, ev)] s = Inr (True, s2)" "sched_inv s2" "co_status (cos s2 t) = READY"
    "pd_done (descs s2 d)" "pd_mode (descs s2 d) = event_mode 0 mode ev" "rc_count (rmem s2) d = 2" "rc_released (rmem s2) = rc_released (rmem s)"
    "num_op s2 = num_op s - 1" "locks s2 = locks s"
proof -
  note p = parkedD [OF p]
  define s1 where "s1 = upd_desc d (\<lambda>r. r\<lparr>pd_mode := event_mode 0 mode ev\<rparr>) (upd_desc d (\<lambda>r. r\<lparr>pd_done := True\<rparr>) s)"
  have s1: "sched_inv s1" "waiter_ok s1 d" "pd_wait (descs s1 d) = Some t" "xt_index s1 = xt_index s" "pd_done (descs s1 d)"
    "pd_mode (descs s1 d) = event_mode 0 mode ev" "num_op s1 = num_op s" "rmem s1 = rmem s" "locks s1 = locks s"
    using p by (simp_all add: s1_def upd_desc_def waiter_ok_def)
  obtain s2 where s2: "netpoll_wakeup vo d s1 = Inr s2" "sched_inv s2" "cos s2 = (cos s1)(t := (cos s1 t)\<lparr>co_status := READY\<rparr>)"
    "descs s2 = descs s1" "locks s2 = locks s1" "num_op s2 = num_op s1 - 1" "rmem s2 = snd (refcnt_put (Some d) (rmem s1))"
    by (rule netpoll_wakeup_ok [OF s1(1-3), of vo]) (use vo s1(4) in \<open>simp_all add: that\<close>)
  have "netpoll_polling vo [(d, ev)] s = Inr (True, s2)"
    using p(3,4) s2(1) by (simp add: netpoll_polling_def Let_def s1_def) (simp add: upd_desc_def)
  then show ?thesis using s2 s1 p(6) by (intro that [of s2]) (simp_all add: put_shared)
qed

lemma late_event: "pd_done (descs s d) \<Longrightarrow> netpoll_polling vo [(d, ev)] s = Inr (True, s)"
  by (simp add: netpoll_polling_def)

lemma yield_keeps:
  "coroutine_yield v s = Inr s' \<Longrightarrow> locks s' = locks s \<and> descs s' = descs s \<and> rmem s' = rmem s \<and> num_op s' = num_op s"
  by (auto simp: coroutine_yield_def vpu_syscall_def core_yield_def Let_def inc_ready_def upd_co_def upd_vpu_def set_gxt_def split: option.splits if_splits)

lemma vpu_ready_keeps:
  assumes "vpu_ready vo t preempt s = Inr s'"
  shows "locks s' = locks s \<and> descs s' = descs s \<and> rmem s' = rmem s \<and> num_op s' = num_op s"
proof -
  define p where "p = co_prio (cos (upd_co t (\<lambda>c. c\<lparr>co_status := READY\<rparr>) s) t)"
  from assms obtain s1 where s1: "enqueue vo t p (upd_co t (\<lambda>c. c\<lparr>co_status := READY\<rparr>) s) = Inr s1"
    by (auto simp: vpu_ready_def Let_def andthen_Inr_iff p_def split: if_splits)
  define s3 where "s3 = (if co_async_wait (cos (inc_ready p s1) t) then (inc_ready p s1)\<lparr>total_iowait := total_iowait (inc_ready p s1) - 1\<rparr> else inc_ready p s1)"
  have "s' = vpu_wakeup_one s3 \<or> (\<exists>v. coroutine_yield v s3 = Inr s')"
    using assms s1 unfolding vpu_ready_def Let_def p_def [symmetric] s3_def by (auto split: if_splits option.splits)
  moreover have "locks s3 = locks s \<and> descs s3 = descs s \<and> rmem s3 = rmem s \<and> num_op s3 = num_op s"
    using enqueue_frame [OF s1] by (simp add: s3_def inc_ready_def upd_co_def)
  ultimately show ?thesis using yield_keeps by (auto simp: vpu_wakeup_one_def)
qed

lemma timeout_wakes:
  assumes p: "parked x d t mode m s" and vo: "\<And>v. vo = Some v \<Longrightarrow> v < xt_index s \<and> running s v \<noteq> None"
  obtains s2 where "netpoll_timeout vo d s = Inr s2" "sched_inv s2" "co_status (cos s2 t) = READY" "pd_done (descs s2 d)"
    "pd_mode (descs s2 d) = 0" "rc_count (rmem s2) d = 1" "rc_released (rmem s2) = rc_released (rmem s)" "num_op s2 = num_op s - 1" "locks s2 = locks s"
proof -
  note p = parkedD [OF p]
  define s1 where "s1 = lock_release_at d (netpoll_rem d (upd_desc d (\<lambda>r. r\<lparr>pd_mode := 0\<rparr>) (upd_desc d (\<lambda>r. r\<lparr>pd_done := True\<rparr>)
     (s\<lparr>locks := (locks s)(d := True)\<rparr>))))"
  have s1: "sched_inv s1" "cos s1 = cos s" "xt_index s1 = xt_index s" "running s1 = running s" "pd_done (descs s1 d)"
    "pd_mode (descs s1 d) = 0" "pd_wait (descs s1 d) = Some t" "num_op s1 = num_op s - 1" "locks s1 = locks s" "rmem s1 = snd (refcnt_put (Some d) (rmem s))"
    using p by (auto simp: s1_def lock_release_at_def netpoll_rem_def upd_desc_def fun_upd_idem)
  obtain s2 where s2: "vpu_ready vo t True s1 = Inr s2" "sched_inv s2" "co_status (cos s2 t) = READY" "xt_index s2 = xt_index s1"
    by (rule sched_inv_ready [OF s1(1), of t vo True]) (use p(12,13) s1(2,3,4) vo in \<open>simp_all add: that\<close>)
  have "netpoll_timeout vo d s = Inr (s2\<lparr>rmem := snd (refcnt_put (Some d) (rmem s2))\<rparr>)"
    using p(3,5,11) s2(1) s1(7) by (simp add: netpoll_timeout_def lock_acquire_at_def Let_def s1_def)
  then show ?thesis using vpu_ready_keeps [OF s2(1)] s1 s2 p(6)
    by (intro that [of "s2\<lparr>rmem := snd (refcnt_put (Some d) (rmem s2))\<rparr>"]) (simp_all add: put_shared)
qed

lemma late_timeout:
  "pd_done (descs s d) \<Longrightarrow> \<not> locks s d \<Longrightarrow> netpoll_timeout vo d s = Inr (s\<lparr>rmem := snd (refcnt_put (Some d) (rmem s))\<rparr>)"
  by (simp add: netpoll_timeout_def lock_acquire_at_def lock_release_at_def Let_def fun_upd_idem)

section \<open>The daemon\<close>

lemma deadline_action:
  assumes "netpoll_timeout vo d s0 = Inr s1"
  shows "timer_action (fire user vo q) (\<lambda>t r. t = x \<and> tm_func r = NetpollTimeout \<and> tm_args r = Some d) (\<lambda>T s. s = (if x \<in> T then s0 else s1))"
  using assms by unfold_locales (auto simp: fire_def)

lemma daemon_fires_deadline:
  assumes m: "mgr_ok m" "x \<in> mgr_timers m" "tm_period (tst (th m) x) = 0 \<and> tm_func (tst (th m) x) = NetpollTimeout \<and> tm_args (tst (th m) x) = Some d"
    and due: "tm_when (tst (th m) x) \<le> now" "\<forall>u\<in>mgr_timers m - {x}. now < tm_when (tst (th m) u)"
    and s1: "netpoll_timeout vo d s0 = Inr s1"
  obtains n m2 where "daemon_loop (fire user vo q) now (Suc (Suc k)) [] (tm_size m) m s0 = Some (Inr (LoopDone [x] n m2 s1))"
    "mgr_ok m2" "mgr_timers m2 = mgr_timers m - {x}" "tm_lock m2 = tm_lock m"
proof -
  note a = timer_action.loop_fires_due [OF deadline_action [OF s1, of user q x], of m "tm_size m" "{x}" now s0 "Suc (Suc k)" "[]"]
  have D: "{x} = {t \<in> mgr_timers m. tm_when (tst (th m) t) \<le> now}" using m(2) due by (auto simp: not_less [symmetric])
  from a [OF _ _ D] m obtain ts n m2 s' where l: "daemon_loop (fire user vo q) now (Suc (Suc k)) [] (tm_size m) m s0 = Some (Inr (LoopDone ts n m2 s'))"
    "distinct ts" "set ts = {x}" "placed (th m2) n" "heap_ok (th m2) n" "tm_size m2 = n" "held (th m2) n = mgr_timers m - {t \<in> {x}. tm_period (tst (th m) t) = 0}"
    "length (timers (th m2)) = length (timers (th m))" "tm_lock m2 = tm_lock m" "tm_cap m2 = tm_cap m" "s' = s1"
    by (auto simp: mgr_ok_def simp del: daemon_loop.simps)
  have "length ts = Suc 0" using distinct_card [OF l(2)] l(3) by simp
  then obtain y where "ts = [y]" by (auto simp: length_Suc_conv)
  then have "ts = [x]" using l(3) by simp
  moreover have "mgr_ok m2" using m(1) l(4-6,8,10) by (auto simp: mgr_ok_def placed_def)
  moreover have "mgr_timers m2 = mgr_timers m - {x}" using l(6,7) m(3) by auto
  ultimately show ?thesis using that [of n m2] l(1,9,11) by simp
qed

lemma daemon_waits:
  assumes "mgr_ok m" "\<forall>u\<in>mgr_timers m. now < tm_when (tst (th m) u)"
  shows "daemon_loop act now (Suc k) [] (tm_size m) m s = Some (Inr (LoopDone [] (tm_size m) m s))"
proof (cases "tm_size m = 0")
  case False
  then have "timers (th m) ! 0 \<in> mgr_timers m" using assms(1) held_nth [of "tm_size m" "th m"] by (auto simp: mgr_ok_def)
  then show ?thesis using assms(2) by (auto simp: Let_def not_le)
qed simp

section \<open>The waiter afterwards\<close>

lemma awaken_releases:
  assumes "mgr_ok m" "\<not> locks s (tm_lock m)" "rc_count (rmem s) d = (if x \<in> mgr_timers m then 2 else 1)"
  shows "\<exists>m3 s3. timed_wait_awaken x d m s = Inr (pd_mode (descs s d), m3, s3) \<and> mgr_timers m3 = mgr_timers m - {x} \<and>
     rc_released (rmem s3) = rc_released (rmem s) @ [d] \<and> num_op s3 = num_op s \<and> cos s3 = cos s"
  using del_intertimer_heap [OF assms(1,2), of x] assms(3)
  by (auto simp: timed_wait_awaken_def net_timedwait_awaken_def Let_def put_shared put_last split: if_splits)

section \<open>Properties\<close>

abbreviation with_lock :: "addr \<Rightarrow> sys \<Rightarrow> sys" where
  "with_lock l s \<equiv> s\<lparr>locks := (locks s)(l := True)\<rparr>"

lemma parked_locked: "parked x d t mode m s \<Longrightarrow> parked x d t mode m (with_lock (tm_lock m) s)"
  by (simp add: parked_def waiter_ok_def)

text \<open>The waiter goes on with the given mode, its timer is gone, and the descriptor is neither registered nor referred to any more.\<close>

definition wait_ended :: "addr \<Rightarrow> addr \<Rightarrow> tmgr \<Rightarrow> sys \<Rightarrow> u32 \<Rightarrow> tmgr \<Rightarrow> sys \<Rightarrow> bool" where
  "wait_ended x d m s mode m' s' \<longleftrightarrow> (\<exists>m3 s3. timed_wait_awaken x d m' s' = Inr (mode, m3, s3) \<and> mgr_timers m3 = mgr_timers m \<and>
     num_op s3 = num_op s \<and> rc_released (rmem s3) = rc_released (rmem s) @ [d])"

lemma awaken_ended:
  assumes "mgr_ok m'" "\<not> locks s' (tm_lock m')" "rc_count (rmem s') d = (if x \<in> mgr_timers m' then 2 else 1)" "pd_mode (descs s' d) = mode"
    and "mgr_timers m = mgr_timers m' - {x}" "num_op s = num_op s'" "rc_released (rmem s) = rc_released (rmem s')"
  shows "wait_ended x d m s mode m' s'"
  using awaken_releases [OF assms(1-3)] assms(4-7) by (auto simp: wait_ended_def)

text \<open>The daemon after the poller, and the daemon before it; \<open>m\<close> and \<open>s\<close> are the state to come back to.\<close>

lemma daemon_too_late:
  assumes m1: "mgr_ok m1" "x \<in> mgr_timers m1" "tm_period (tst (th m1) x) = 0 \<and> tm_func (tst (th m1) x) = NetpollTimeout \<and> tm_args (tst (th m1) x) = Some d"
    "tm_lock m1 \<noteq> d" and due: "tm_when (tst (th m1) x) \<le> later" "\<forall>u\<in>mgr_timers m1 - {x}. later < tm_when (tst (th m1) u)"
    and s2: "pd_done (descs s2 d)" "\<not> locks s2 d" "rc_count (rmem s2) d = 2" "pd_mode (descs s2 d) = mode"
    and rst: "mgr_timers m = mgr_timers m1 - {x}" "num_op s = num_op s2" "rc_released (rmem s) = rc_released (rmem s2)"
  shows "\<exists>n m2 s3. daemon_loop (fire user vo q) later (Suc (Suc k)) [] (tm_size m1) m1 (with_lock (tm_lock m1) s2) = Some (Inr (LoopDone [x] n m2 s3)) \<and>
      cos s3 = cos s2 \<and> wait_ended x d m s mode m2 (lock_release_at (tm_lock m1) s3)"
proof -
  let ?s3 = "(with_lock (tm_lock m1) s2)\<lparr>rmem := snd (refcnt_put (Some d) (rmem s2))\<rparr>"
  have to: "netpoll_timeout vo d (with_lock (tm_lock m1) s2) = Inr ?s3" using late_timeout [of "with_lock (tm_lock m1) s2" d] s2(1,2) m1(4) by simp
  obtain n m2 where l: "daemon_loop (fire user vo q) later (Suc (Suc k)) [] (tm_size m1) m1 (with_lock (tm_lock m1) s2) =
      Some (Inr (LoopDone [x] n m2 ?s3))" "mgr_ok m2" "mgr_timers m2 = mgr_timers m1 - {x}" "tm_lock m2 = tm_lock m1"
    by (rule daemon_fires_deadline [OF m1(1-3) due to, of user q k]) (rule that; assumption)
  have "wait_ended x d m s mode m2 (lock_release_at (tm_lock m1) ?s3)"
    by (rule awaken_ended [OF l(2)]) (use l(3,4) s2(3,4) rst in \<open>simp_all add: lock_release_at_def put_shared\<close>)
  with l(1) show ?thesis by (intro exI [of _ n] exI [of _ m2] exI [of _ ?s3]) simp
qed

lemma daemon_first:
  assumes p: "parked x d t mode m1 s1" and due: "tm_when (tst (th m1) x) \<le> later" "\<forall>u\<in>mgr_timers m1 - {x}. later < tm_when (tst (th m1) u)"
    and w: "w < xt_index s1" "running s1 w \<noteq> None"
    and rst: "mgr_timers m = mgr_timers m1 - {x}" "num_op s = num_op s1 - 1" "rc_released (rmem s) = rc_released (rmem s1)"
  shows "\<exists>n m2 s2. daemon_loop (fire user (Some w) q) later (Suc (Suc k)) [] (tm_size m1) m1 (with_lock (tm_lock m1) s1) = Some (Inr (LoopDone [x] n m2 s2)) \<and>
      sched_inv s2 \<and> co_status (cos s2 t) = READY \<and>
      netpoll_polling vo [(d, ev)] (lock_release_at (tm_lock m1) s2) = Inr (True, lock_release_at (tm_lock m1) s2) \<and>
      wait_ended x d m s 0 m2 (lock_release_at (tm_lock m1) s2)"
proof -
  let ?L = "tm_lock m1"
  obtain s3 where s3: "netpoll_timeout (Some w) d (with_lock ?L s1) = Inr s3" "sched_inv s3" "co_status (cos s3 t) = READY" "pd_done (descs s3 d)"
    "pd_mode (descs s3 d) = 0" "rc_count (rmem s3) d = 1" "rc_released (rmem s3) = rc_released (rmem (with_lock ?L s1))"
    "num_op s3 = num_op (with_lock ?L s1) - 1"
    by (rule timeout_wakes [OF parked_locked [OF p], of "Some w"]) (use w in \<open>simp_all add: that\<close>)
  obtain n m2 where l: "daemon_loop (fire user (Some w) q) later (Suc (Suc k)) [] (tm_size m1) m1 (with_lock ?L s1) =
      Some (Inr (LoopDone [x] n m2 s3))" "mgr_ok m2" "mgr_timers m2 = mgr_timers m1 - {x}" "tm_lock m2 = ?L"
    by (rule daemon_fires_deadline [OF parkedD(7-9) [OF p] due s3(1), of user q k]) (rule that; assumption)
  have "wait_ended x d m s 0 m2 (lock_release_at ?L s3)"
    by (rule awaken_ended [OF l(2)]) (use l(3,4) s3(5-8) rst in \<open>simp_all add: lock_release_at_def\<close>)
  moreover have "netpoll_polling vo [(d, ev)] (lock_release_at ?L s3) = Inr (True, lock_release_at ?L s3)"
    using s3(4) by (intro late_event) (simp add: lock_release_at_def)
  ultimately show ?thesis using l(1) s3(2,3) by blast
qed


text \<open>For the witness: the coroutine 1 waits on VPU 0, the timer daemon, coroutine 2, runs on VPU 1.\<close>

definition deadline_sys :: sys where
  "deadline_sys = upd_co 2 (\<lambda>c. c\<lparr>co_status := RUNNING\<rparr>) (upd_vpu 1 (\<lambda>r. r\<lparr>current := Some 2\<rparr>) example_sys)"

lemma deadline_running: "running deadline_sys v = (if v = 0 then Some 1 else if v = 1 then Some 2 else None)"
  by (auto simp: running_def deadline_sys_def example_sys_def)

lemma deadline_sched_inv: "sched_inv deadline_sys"
proof (rule sched_invI)
  show "task_inv 2 (\<lambda>p. {#}) (\<lambda>t. co_status (cos deadline_sys t)) (\<lambda>t. co_prio (cos deadline_sys t))
      (\<lambda>t. co_type (cos deadline_sys t)) (\<lambda>p. 0) 0 (\<lambda>v. if v = 0 then Some 1 else if v = 1 then Some 2 else None)"
    by (auto simp: task_inv_def once_queued_def prio_ok_def counters_ok_def once_running_def
        deadline_sys_def upd_co_def example_sys_def example_co_def split: if_splits)
  show "queues_ok deadline_sys" by (simp add: queues_ok_def deadline_sys_def example_sys_def empty_ring_list)
  show "idle_ok deadline_sys" by (auto simp: idle_ok_def deadline_sys_def upd_co_def example_sys_def example_co_def less_2_cases_iff)
  show "queued deadline_sys = (\<lambda>p. {#})"
    by (simp add: fun_eq_iff queued_def ring_tasks_def deadline_sys_def example_sys_def empty_ring_list)
  show "running deadline_sys = (\<lambda>v. if v = 0 then Some 1 else if v = 1 then Some 2 else None)" using deadline_running by blast
qed (simp_all add: deadline_sys_def example_sys_def)


end
