(* ===== verification/Runq_Conc.thy ===== *)
theory Runq_Conc
  imports Runq
begin

text \<open>
  The private run queue of a VPU under interference (\<^verbatim>\<open>src/vpu.c\<close>, lines 28 to 133). One thread, the owner, puts and gets; any number of other
  threads steal. Every access to a counter or a slot that another thread may touch is a step of its own, and the steps of all threads interleave in any way; the
  accesses are sequentially consistent, as \<open>TSC_ATOMIC_READ\<close>, \<open>TSC_ATOMIC_WRITE\<close> and \<open>TSC_CAS\<close> ask for.

  Three histories are kept beside the program's state: \<open>inp\<close> is the sequence of tasks whose insertion was published by a write to \<open>runqtail\<close>, and \<open>takes\<close>
  lists the successful exchanges of \<open>runqhead\<close> with the tasks they claimed; \<open>offered\<close> is what the owner was asked to add. The position in \<open>inp\<close> of a head that a thread has read is remembered
  beside the 32-bit value. The program never looks at any of this.
\<close>

section \<open>Threads and steps\<close>

datatype taker = Getter | Overflow tid | Thief nat

text \<open>Where the owner is: in \<open>__runqget\<close>, \<open>__runqput\<close>, \<open>__runqputslow\<close>, or adding what it has stolen from another ring; and where a thief is in \<open>__runqgrab\<close>.\<close>

datatype owner_pc = OIdle | GetHead | GetTail nat u32 | GetCas nat u32 tid
  | PutHead tid | PutTail tid nat u32 | SlowCas tid nat u32 "tid list"
  | FillHead "tid list" | FillTail "tid list" u32 | Storing "tid list" nat | OFailed

datatype thief_pc = TIdle | GrabHead | GrabTail nat u32 | Copying nat u32 nat "tid list"

record rsys =
  ring :: p_task_que
  owner :: owner_pc
  thief :: "nat \<Rightarrow> thief_pc"
  inp :: "tid list"
  takes :: "(taker \<times> tid list) list"
  offered :: "tid list"

definition taken :: "rsys \<Rightarrow> tid list" where
  "taken s = concat (map snd (takes s))"

abbreviation pos :: "rsys \<Rightarrow> nat" where
  "pos s \<equiv> length (taken s)"

text \<open>The exchange of the head: \<open>TSC_CAS(&pq->runqhead, head, head + n)\<close>, claiming the tasks \<open>ts\<close>.\<close>

definition cas_head :: "taker \<Rightarrow> u32 \<Rightarrow> tid list \<Rightarrow> rsys \<Rightarrow> bool \<times> rsys" where
  "cas_head who head ts s =
     (if runqhead (ring s) = head
      then (True, s\<lparr>ring := (ring s)\<lparr>runqhead := head + of_nat (length ts)\<rparr>, takes := takes s @ [(who, ts)]\<rparr>)
      else (False, s))"

definition get_tail :: "nat \<Rightarrow> u32 \<Rightarrow> rsys \<Rightarrow> rsys" where
  "get_tail g head s =
     (if runqtail (ring s) = head then s\<lparr>owner := OIdle\<rparr> else s\<lparr>owner := GetCas g head (runq (ring s) ! slot head)\<rparr>)"

definition get_cas :: "u32 \<Rightarrow> tid \<Rightarrow> rsys \<Rightarrow> rsys" where
  "get_cas head t s = (case cas_head Getter head [t] s of (ok, s) \<Rightarrow> s\<lparr>owner := (if ok then OIdle else GetHead)\<rparr>)"

text \<open>The slots are written by the owner only, so it reads the half it moves in one step.\<close>

definition put_tail :: "tid \<Rightarrow> nat \<Rightarrow> u32 \<Rightarrow> rsys \<Rightarrow> rsys" where
  "put_tail t g head s =
     (let tail = runqtail (ring s); n = (tail - head) div 2 in
      if tail - head < of_nat TSC_TASK_NUM_PERPRIO then s\<lparr>owner := Storing [t] 0\<rparr>
      else if n \<noteq> of_nat (TSC_TASK_NUM_PERPRIO div 2) then s\<lparr>owner := OFailed\<rparr>
      else s\<lparr>owner := SlowCas t g head (read_slots (ring s) head (unat n))\<rparr>)"

definition slow_cas :: "tid \<Rightarrow> u32 \<Rightarrow> tid list \<Rightarrow> rsys \<Rightarrow> rsys" where
  "slow_cas t head temp s = (case cas_head (Overflow t) head temp s of (ok, s) \<Rightarrow> s\<lparr>owner := (if ok then OIdle else PutHead t)\<rparr>)"

definition fill_tail :: "tid list \<Rightarrow> u32 \<Rightarrow> rsys \<Rightarrow> rsys" where
  "fill_tail ts head s =
     (if \<not> runqtail (ring s) - head + of_nat (length ts) < of_nat TSC_TASK_NUM_PERPRIO then s\<lparr>owner := OFailed\<rparr>
      else s\<lparr>owner := Storing ts 0\<rparr>)"

text \<open>The owner's tail does not change until it publishes the new one.\<close>

definition store_slot :: "tid list \<Rightarrow> nat \<Rightarrow> rsys \<Rightarrow> rsys" where
  "store_slot ts k s = s\<lparr>ring := (ring s)\<lparr>runq := (runq (ring s))[slot (runqtail (ring s) + of_nat k) := ts ! k]\<rparr>, owner := Storing ts (Suc k)\<rparr>"

definition publish :: "tid list \<Rightarrow> rsys \<Rightarrow> rsys" where
  "publish ts s = s\<lparr>ring := (ring s)\<lparr>runqtail := runqtail (ring s) + of_nat (length ts)\<rparr>, owner := OIdle, inp := inp s @ ts\<rparr>"

definition set_thief :: "nat \<Rightarrow> thief_pc \<Rightarrow> rsys \<Rightarrow> rsys" where
  "set_thief i x s = s\<lparr>thief := (thief s)(i := x)\<rparr>"

definition grab_tail :: "nat \<Rightarrow> nat \<Rightarrow> u32 \<Rightarrow> rsys \<Rightarrow> rsys" where
  "grab_tail i g head s =
     (let n = runqtail (ring s) - head; n = n - n div 2 in
      set_thief i (if n = 0 then TIdle else if n > of_nat (TSC_TASK_NUM_PERPRIO div 2) then GrabHead else Copying g head (unat n) []) s)"

definition copy_slot :: "nat \<Rightarrow> nat \<Rightarrow> u32 \<Rightarrow> nat \<Rightarrow> tid list \<Rightarrow> rsys \<Rightarrow> rsys" where
  "copy_slot i g head n temp s = set_thief i (Copying g head n (temp @ [runq (ring s) ! slot (head + of_nat (length temp))])) s"

definition grab_cas :: "nat \<Rightarrow> u32 \<Rightarrow> tid list \<Rightarrow> rsys \<Rightarrow> rsys" where
  "grab_cas i head temp s = (case cas_head (Thief i) head temp s of (ok, s) \<Rightarrow> set_thief i (if ok then TIdle else GrabHead) s)"

text \<open>
  The owner adds stolen tasks only after it has found its ring empty (\<open>__random_steal\<close> is called when \<open>__runqget\<close> returned \<open>NULL\<close>), and
  a thief takes at most 256 of which one is returned instead.
\<close>

inductive ring_step :: "rsys \<Rightarrow> rsys \<Rightarrow> bool" where
  get: "owner s = OIdle \<Longrightarrow> ring_step s (s\<lparr>owner := GetHead\<rparr>)"
| get_head: "owner s = GetHead \<Longrightarrow> ring_step s (s\<lparr>owner := GetTail (pos s) (runqhead (ring s))\<rparr>)"
| get_tail: "owner s = GetTail g head \<Longrightarrow> ring_step s (get_tail g head s)"
| get_cas: "owner s = GetCas g head t \<Longrightarrow> ring_step s (get_cas head t s)"
| put: "owner s = OIdle \<Longrightarrow> ring_step s (s\<lparr>owner := PutHead t, offered := offered s @ [t]\<rparr>)"
| put_head: "owner s = PutHead t \<Longrightarrow> ring_step s (s\<lparr>owner := PutTail t (pos s) (runqhead (ring s))\<rparr>)"
| put_tail: "owner s = PutTail t g head \<Longrightarrow> ring_step s (put_tail t g head s)"
| slow_cas: "owner s = SlowCas t g head temp \<Longrightarrow> ring_step s (slow_cas t head temp s)"
| fill: "owner s = OIdle \<Longrightarrow> runqhead (ring s) = runqtail (ring s) \<Longrightarrow> 0 < length ts \<Longrightarrow> length ts < 256 \<Longrightarrow>
    ring_step s (s\<lparr>owner := FillHead ts, offered := offered s @ ts\<rparr>)"
| fill_head: "owner s = FillHead ts \<Longrightarrow> ring_step s (s\<lparr>owner := FillTail ts (runqhead (ring s))\<rparr>)"
| fill_tail: "owner s = FillTail ts head \<Longrightarrow> ring_step s (fill_tail ts head s)"
| store: "owner s = Storing ts k \<Longrightarrow> k < length ts \<Longrightarrow> ring_step s (store_slot ts k s)"
| publish: "owner s = Storing ts (length ts) \<Longrightarrow> ring_step s (publish ts s)"
| grab: "thief s i = TIdle \<Longrightarrow> ring_step s (set_thief i GrabHead s)"
| grab_head: "thief s i = GrabHead \<Longrightarrow> ring_step s (set_thief i (GrabTail (pos s) (runqhead (ring s))) s)"
| grab_tail: "thief s i = GrabTail g head \<Longrightarrow> ring_step s (grab_tail i g head s)"
| copy: "thief s i = Copying g head n temp \<Longrightarrow> length temp < n \<Longrightarrow> ring_step s (copy_slot i g head n temp s)"
| grab_cas: "thief s i = Copying g head n temp \<Longrightarrow> length temp = n \<Longrightarrow> ring_step s (grab_cas i head temp s)"

text \<open>
  The head is a 32-bit counter, so a thief that is stopped between reading it and its exchange while exactly \<open>2 ^ 32\<close> tasks pass through the ring
  would not notice. The runs considered are those in which that does not happen: whenever a step is taken, fewer tasks than that were
  claimed since a thief under way has read the head.
\<close>

fun since :: "thief_pc \<Rightarrow> nat option" where
  "since (GrabTail g head) = Some g"
| "since (Copying g head n temp) = Some g"
| "since _ = None"

definition timely :: "rsys \<Rightarrow> bool" where
  "timely s \<longleftrightarrow> (\<forall>i g. since (thief s i) = Some g \<longrightarrow> pos s + 512 < g + 2 ^ 32)"

definition ring_start :: "p_task_que \<Rightarrow> rsys" where
  "ring_start q = \<lparr>ring = priv_task_queue_init q (pq_prio q), owner = OIdle, thief = (\<lambda>i. TIdle), inp = [], takes = [], offered = []\<rparr>"

inductive ring_run :: "rsys \<Rightarrow> bool" where
  start: "length (runq q) = TSC_TASK_NUM_PERPRIO \<Longrightarrow> ring_run (ring_start q)"
| step: "ring_run s \<Longrightarrow> timely s \<Longrightarrow> ring_step s s' \<Longrightarrow> ring_run s'"

section \<open>The ring against its history\<close>

lemma slot_of_nat: "slot (of_nat i) = i mod 512"
  using slot_add [of 0 i] by simp

lemma slot_tail: "slot (of_nat a + of_nat b) = (a + b) mod 512"
  using slot_of_nat [of "a + b"] by simp

lemma near_mod: "i < j \<Longrightarrow> j < i + 512 \<Longrightarrow> i mod 512 \<noteq> j mod (512 :: nat)"
  using mod_eq_dvd_iff_nat [of i j 512] dvd_imp_le [of 512 "j - i"] by fastforce

definition ring_ok :: "p_task_que \<Rightarrow> nat \<Rightarrow> tid list \<Rightarrow> bool" where
  "ring_ok q h xs \<longleftrightarrow> length (runq q) = 512 \<and> runqhead q = of_nat h \<and> runqtail q = of_nat (length xs) \<and> h \<le> length xs \<and>
     length xs \<le> h + 512 \<and> (\<forall>i. h \<le> i \<and> i < length xs \<longrightarrow> runq q ! (i mod 512) = xs ! i)"

lemma ring_ok_advance: "ring_ok q h xs \<Longrightarrow> h + n \<le> length xs \<Longrightarrow> ring_ok (q\<lparr>runqhead := of_nat h + of_nat n\<rparr>) (h + n) xs"
  by (auto simp: ring_ok_def)

lemma ring_ok_write:
  assumes "ring_ok q h xs" "length xs + k < h + 512"
  shows "ring_ok (q\<lparr>runq := (runq q)[slot (runqtail q + of_nat k) := t]\<rparr>) h xs"
proof -
  have "(length xs + k) mod 512 \<noteq> i mod 512" if "h \<le> i" "i < length xs" for i
    using near_mod [of i "length xs + k"] that assms(2) by linarith
  then show ?thesis using assms by (auto simp: ring_ok_def slot_tail nth_list_update)
qed

lemma ring_ok_publish:
  assumes "ring_ok q h xs" "length xs + length ts \<le> h + 512" "\<forall>i<length ts. runq q ! slot (runqtail q + of_nat i) = ts ! i"
  shows "ring_ok (q\<lparr>runqtail := runqtail q + of_nat (length ts)\<rparr>) h (xs @ ts)"
proof -
  have "runq q ! (i mod 512) = (xs @ ts) ! i" if "h \<le> i" "i < length xs + length ts" for i
  proof (cases "i < length xs")
    case True
    then show ?thesis using assms(1) that by (simp add: ring_ok_def nth_append)
  next
    case False
    then obtain j where j: "i = length xs + j" by (auto simp: not_less le_iff_add)
    then have "runq q ! slot (runqtail q + of_nat j) = ts ! j" using assms(3) that by simp
    then show ?thesis using assms(1) j by (simp add: ring_ok_def slot_tail nth_append)
  qed
  then show ?thesis using assms by (simp add: ring_ok_def)
qed

lemma ring_ok_slot: "ring_ok q h xs \<Longrightarrow> h + i < length xs \<Longrightarrow> runq q ! slot (of_nat h + of_nat i) = xs ! (h + i)"
  by (simp add: ring_ok_def slot_tail)

lemma ring_ok_read: "ring_ok q h xs \<Longrightarrow> h + n \<le> length xs \<Longrightarrow> read_slots q (of_nat h) n = take n (drop h xs)"
  by (rule nth_equalityI) (auto simp: ring_ok_slot)

text \<open>Two positions less than \<open>2 ^ 32\<close> apart have different counters.\<close>

lemma of_nat_near: "g \<le> h \<Longrightarrow> h < g + 2 ^ 32 \<Longrightarrow> (of_nat g :: u32) = of_nat h \<longleftrightarrow> g = h"
proof -
  assume a: "g \<le> h" "h < g + 2 ^ 32"
  then obtain d where d: "h = g + d" "d < 2 ^ 32" by (auto simp: le_iff_add)
  have "(of_nat g :: u32) = of_nat h \<longleftrightarrow> (of_nat d :: u32) = 0" using d(1) by simp
  also have "\<dots> \<longleftrightarrow> d = 0" using d(2) nat_dvd_not_less [of d "2 ^ 32"] by (auto simp: word_of_nat_eq_0_iff)
  finally show ?thesis using d(1) by simp
qed

lemma diff_near: "g \<le> n \<Longrightarrow> n < g + 2 ^ 32 \<Longrightarrow> unat ((of_nat n :: u32) - of_nat g) = n - g"
proof -
  assume a: "g \<le> n" "n < g + 2 ^ 32"
  then obtain d where d: "n = g + d" "d < 2 ^ 32" by (auto simp: le_iff_add)
  then show ?thesis using unat_of_nat_u32 [OF d(2)] by simp
qed

lemma ring_ok_len: "ring_ok q h xs \<Longrightarrow> rq_len q = length xs - h"
  using diff_near [of h "length xs"] by (auto simp: rq_len_def ring_ok_def)

lemma ring_ok_list: "ring_ok q h xs \<Longrightarrow> rq_list q = drop h xs \<and> rq_inv q"
  using ring_ok_read [of q h xs "length xs - h"] ring_ok_len [of q h xs] by (auto simp: rq_list_def rq_inv_def) (auto simp: ring_ok_def)

section \<open>The invariant\<close>

text \<open>
  What a thread knows, in terms of the number \<open>h\<close> of tasks claimed and the sequence \<open>xs\<close> of tasks published. The owner's reading of the head is
  never more than a ring behind, since nobody else adds tasks; what a thief has copied counts only as long as the head it has read is the head.
\<close>

definition seen :: "nat \<Rightarrow> u32 \<Rightarrow> nat \<Rightarrow> tid list \<Rightarrow> bool" where
  "seen g head h xs \<longleftrightarrow> head = of_nat g \<and> g \<le> h \<and> length xs \<le> g + 512"

fun owner_ok :: "owner_pc \<Rightarrow> nat \<Rightarrow> tid list \<Rightarrow> p_task_que \<Rightarrow> bool" where
  "owner_ok (GetTail g head) h xs q = seen g head h xs"
| "owner_ok (GetCas g head t) h xs q = (seen g head h xs \<and> (g = h \<longrightarrow> h < length xs \<and> t = xs ! h))"
| "owner_ok (PutTail t g head) h xs q = seen g head h xs"
| "owner_ok (SlowCas t g head temp) h xs q =
     (seen g head h xs \<and> length xs = g + 512 \<and> (g = h \<longrightarrow> temp = take 256 (drop h xs)))"
| "owner_ok (FillHead ts) h xs q = (h = length xs \<and> length ts < 256)"
| "owner_ok (FillTail ts head) h xs q = (h = length xs \<and> length ts < 256 \<and> head = of_nat h)"
| "owner_ok (Storing ts k) h xs q =
     (k \<le> length ts \<and> length xs + length ts \<le> h + 512 \<and> (\<forall>i<k. runq q ! slot (runqtail q + of_nat i) = ts ! i))"
| "owner_ok OFailed h xs q = False"
| "owner_ok _ h xs q = True"

fun thief_ok :: "thief_pc \<Rightarrow> nat \<Rightarrow> tid list \<Rightarrow> bool" where
  "thief_ok (GrabTail g head) h xs = (head = of_nat g \<and> g \<le> h)"
| "thief_ok (Copying g head n temp) h xs =
     (head = of_nat g \<and> g \<le> h \<and> 0 < n \<and> (g = h \<longrightarrow> h + n \<le> length xs \<and> length temp \<le> n \<and> temp = take (length temp) (drop h xs)))"
| "thief_ok _ h xs = True"

definition run_inv :: "rsys \<Rightarrow> bool" where
  "run_inv s \<longleftrightarrow> ring_ok (ring s) (pos s) (inp s) \<and> taken s = take (pos s) (inp s) \<and>
     owner_ok (owner s) (pos s) (inp s) (ring s) \<and> (\<forall>i. thief_ok (thief s i) (pos s) (inp s))"

lemma seen_same: "seen g head h xs \<Longrightarrow> h \<le> length xs \<Longrightarrow> head = of_nat h \<Longrightarrow> g = h"
  using of_nat_near [of g h] by (auto simp: seen_def)

lemma thief_ok_claimed: "thief_ok p h xs \<Longrightarrow> h < h' \<Longrightarrow> thief_ok p h' xs"
  by (cases p) auto

lemma thief_ok_published: "thief_ok p h xs \<Longrightarrow> thief_ok p h (xs @ ts)"
  by (cases p) auto

lemma owner_ok_claimed: "owner_ok p h xs q \<Longrightarrow> h < h' \<Longrightarrow> h' \<le> length xs \<Longrightarrow> owner_ok p h' xs (q\<lparr>runqhead := x\<rparr>)"
  by (cases p) (auto simp: seen_def)

text \<open>A successful exchange that claims the next tasks of the sequence.\<close>

lemma cas_head_ok:
  assumes inv: "run_inv s" and head: "head = of_nat (pos s)" and ts: "0 < length ts" "pos s + length ts \<le> length (inp s)"
    "ts = take (length ts) (drop (pos s) (inp s))"
  shows "\<exists>s'. cas_head who head ts s = (True, s') \<and> run_inv s' \<and> takes s' = takes s @ [(who, ts)] \<and> owner s' = owner s"
proof -
  let ?q = "(ring s)\<lparr>runqhead := head + of_nat (length ts)\<rparr>"
  let ?s = "s\<lparr>ring := ?q, takes := takes s @ [(who, ts)]\<rparr>"
  have r: "ring_ok (ring s) (pos s) (inp s)" "taken s = take (pos s) (inp s)" "owner_ok (owner s) (pos s) (inp s) (ring s)"
    "thief_ok (thief s i) (pos s) (inp s)" for i using inv by (simp_all add: run_inv_def)
  have t: "taken ?s = taken s @ ts" by (simp add: taken_def)
  have "taken s @ ts = take (pos s + length ts) (inp s)" using r(2) ts(3) by (simp add: take_add)
  moreover have "ring_ok ?q (pos s + length ts) (inp s)" using ring_ok_advance [OF r(1) ts(2)] head by simp
  moreover have "owner_ok (owner s) (pos s + length ts) (inp s) ?q" by (rule owner_ok_claimed [OF r(3)]) (use ts in simp_all)
  moreover have "\<forall>i. thief_ok (thief s i) (pos s + length ts) (inp s)" using thief_ok_claimed [OF r(4)] ts(1) by simp
  ultimately have "run_inv ?s" using t ts(2) by (simp add: run_inv_def)
  moreover have "cas_head who head ts s = (True, ?s)" using r(1) head by (simp add: cas_head_def ring_ok_def)
  ultimately show ?thesis by simp
qed

lemma cas_head_fails: "runqhead (ring s) \<noteq> head \<Longrightarrow> cas_head who head ts s = (False, s)"
  by (simp add: cas_head_def)

section \<open>Every step keeps the invariant\<close>

lemma taken_frame [simp]:
  "taken (s\<lparr>owner := x\<rparr>) = taken s" "taken (s\<lparr>ring := y\<rparr>) = taken s" "taken (s\<lparr>inp := z\<rparr>) = taken s" "taken (set_thief i p s) = taken s"
  "taken (s\<lparr>offered := w\<rparr>) = taken s"
  by (simp_all add: taken_def set_thief_def)

lemma run_invD:
  assumes "run_inv s"
  shows "ring_ok (ring s) (pos s) (inp s)" "runqhead (ring s) = of_nat (pos s)" "runqtail (ring s) = of_nat (length (inp s))"
    "pos s \<le> length (inp s)" "length (inp s) \<le> pos s + 512" "owner_ok (owner s) (pos s) (inp s) (ring s)" "thief_ok (thief s i) (pos s) (inp s)"
  using assms by (auto simp: run_inv_def ring_ok_def)

lemma inv_owner: "run_inv s \<Longrightarrow> owner_ok p (pos s) (inp s) (ring s) \<Longrightarrow> run_inv (s\<lparr>owner := p\<rparr>)"
  by (simp add: run_inv_def)

lemma inv_thief: "run_inv s \<Longrightarrow> thief_ok p (pos s) (inp s) \<Longrightarrow> run_inv (set_thief i p s)"
  by (simp add: run_inv_def) (simp add: set_thief_def)

lemma inv_get_tail:
  assumes inv: "run_inv s" and o: "owner s = GetTail g head"
  shows "run_inv (get_tail g head s)"
proof -
  note d = run_invD [OF inv]
  have sn: "seen g head (pos s) (inp s)" using d(6) o by simp
  have "pos s < length (inp s) \<and> runq (ring s) ! slot head = inp s ! pos s" if "g = pos s" "runqtail (ring s) \<noteq> head"
  proof -
    have "pos s < length (inp s)" using that sn d(3,4) by (auto simp: seen_def intro: le_neq_implies_less)
    then show ?thesis using ring_ok_slot [OF d(1), of 0] sn that(1) by (simp add: seen_def)
  qed
  then show ?thesis using sn inv by (auto simp: get_tail_def intro!: inv_owner)
qed

lemma inv_get_cas:
  assumes inv: "run_inv s" and o: "owner s = GetCas g head t"
  shows "run_inv (get_cas head t s)"
proof (cases "runqhead (ring s) = head")
  case True
  note d = run_invD [OF inv]
  have "g = pos s" using seen_same d(2,4,6) o True by (metis owner_ok.simps(2))
  then have t: "pos s < length (inp s)" "t = inp s ! pos s" using d(6) o by simp_all
  then have ts: "[t] = take (length [t]) (drop (pos s) (inp s))" by (simp add: take_Suc_conv_app_nth hd_drop_conv_nth take_Suc)
  have "head = of_nat (pos s)" "0 < length [t]" "pos s + length [t] \<le> length (inp s)" using True d(2) t(1) by simp_all
  from cas_head_ok [OF inv this ts] obtain s' where "cas_head Getter head [t] s = (True, s')" "run_inv s'" by blast
  then show ?thesis using inv_owner [of s' OIdle] by (simp add: get_cas_def)
next
  case False
  then show ?thesis using inv_owner [OF inv, of GetHead] by (simp add: get_cas_def cas_head_fails)
qed

lemma inv_put_tail:
  assumes inv: "run_inv s" and o: "owner s = PutTail t g head"
  shows "run_inv (put_tail t g head s)"
proof -
  note d = run_invD [OF inv]
  define w where "w = runqtail (ring s) - head"
  have sn: "seen g head (pos s) (inp s)" using d(6) o by simp
  then have w: "unat w = length (inp s) - g" using diff_near [of g "length (inp s)"] d(3,4) by (simp add: seen_def w_def)
  show ?thesis
  proof (cases "w < 512")
    case True
    then have "length (inp s) < pos s + 512" using w sn d(4) by (auto simp: word_less_nat_alt seen_def)
    then show ?thesis using True inv by (auto simp: put_tail_def Let_def w_def intro!: inv_owner)
  next
    case False
    then have l: "length (inp s) = g + 512" using w sn d(4) by (auto simp: word_less_nat_alt seen_def)
    then have "w = 512" using w by (simp add: word_unat_eq_iff)
    moreover have "read_slots (ring s) head 256 = take 256 (drop (pos s) (inp s))" if "g = pos s"
      using ring_ok_read [OF d(1), of 256] l sn that by (simp add: seen_def)
    ultimately show ?thesis using l sn inv unfolding w_def by (auto simp: put_tail_def Let_def intro!: inv_owner)
  qed
qed

lemma inv_slow_cas:
  assumes inv: "run_inv s" and o: "owner s = SlowCas t g head temp"
  shows "run_inv (slow_cas t head temp s)"
proof (cases "runqhead (ring s) = head")
  case True
  note d = run_invD [OF inv]
  have sn: "seen g head (pos s) (inp s)" "length (inp s) = g + 512" "g = pos s \<longrightarrow> temp = take 256 (drop (pos s) (inp s))" using d(6) o by simp_all
  have "g = pos s" using seen_same [OF sn(1) d(4)] d(2) True by simp
  then have "0 < length temp" "pos s + length temp \<le> length (inp s)" "temp = take (length temp) (drop (pos s) (inp s))" "head = of_nat (pos s)"
    using sn True d(2) by simp_all
  from cas_head_ok [OF inv this(4,1-3)] obtain s' where "cas_head (Overflow t) head temp s = (True, s')" "run_inv s'" by blast
  then show ?thesis using inv_owner [of s' OIdle] by (simp add: slow_cas_def)
next
  case False
  then show ?thesis using inv_owner [OF inv, of "PutHead t"] by (simp add: slow_cas_def cas_head_fails)
qed

lemma inv_fill_tail:
  assumes inv: "run_inv s" and o: "owner s = FillTail ts head"
  shows "run_inv (fill_tail ts head s)"
proof -
  note d = run_invD [OF inv]
  have f: "pos s = length (inp s)" "length ts < 256" "head = of_nat (pos s)" using d(6) o by simp_all
  have "runqtail (ring s) - head + of_nat (length ts) < 512"
    using d(3) f unat_of_nat_u32 [of "length ts"] by (simp add: word_less_nat_alt)
  then show ?thesis using inv_owner [OF inv, of "Storing ts 0"] f by (simp add: fill_tail_def)
qed

lemma inv_store:
  assumes inv: "run_inv s" and o: "owner s = Storing ts k" "k < length ts"
  shows "run_inv (store_slot ts k s)"
proof -
  note d = run_invD [OF inv]
  let ?q = "(ring s)\<lparr>runq := (runq (ring s))[slot (runqtail (ring s) + of_nat k) := ts ! k]\<rparr>"
  have f: "length (inp s) + length ts \<le> pos s + 512" "\<forall>i<k. runq (ring s) ! slot (runqtail (ring s) + of_nat i) = ts ! i" using d(6) o by simp_all
  have r: "ring_ok ?q (pos s) (inp s)" using f(1) o(2) by (intro ring_ok_write [OF d(1)]) simp
  have "slot (runqtail (ring s) + of_nat k) \<noteq> slot (runqtail (ring s) + of_nat i)" if "i < k" for i
    using slot_add_inj [of "runqtail (ring s)" i k] that f(1) o(2) d(4) by fastforce
  moreover have "length (runq (ring s)) = 512" using d(1) by (simp add: ring_ok_def)
  ultimately have "\<forall>i<Suc k. runq ?q ! slot (runqtail ?q + of_nat i) = ts ! i" using f(2) by (auto simp: less_Suc_eq nth_list_update)
  then show ?thesis using r f(1) o(2) inv by (simp add: run_inv_def store_slot_def)
qed

lemma inv_publish:
  assumes inv: "run_inv s" and o: "owner s = Storing ts (length ts)"
  shows "run_inv (publish ts s)"
proof -
  note d = run_invD [OF inv]
  have "ring_ok ((ring s)\<lparr>runqtail := runqtail (ring s) + of_nat (length ts)\<rparr>) (pos s) (inp s @ ts)"
    by (rule ring_ok_publish [OF d(1)]) (use d(6) o in simp_all)
  then show ?thesis using thief_ok_published [OF d(7)] d(4) inv by (simp add: run_inv_def publish_def)
qed

lemma inv_grab_tail:
  assumes inv: "run_inv s" and t: "thief s i = GrabTail g head"
  shows "run_inv (grab_tail i g head s)"
proof -
  note d = run_invD [OF inv]
  define w where "w = runqtail (ring s) - head"
  have g: "head = of_nat g" "g \<le> pos s" using d(7) [of i] t by simp_all
  have "pos s + unat (w - w div 2) \<le> length (inp s)" if "g = pos s"
    using diff_near [of g "length (inp s)"] d(3-5) g that unat_half [of w] by (simp add: w_def)
  then show ?thesis using g inv unfolding grab_tail_def Let_def w_def [symmetric]
    by (intro inv_thief) (auto simp: unat_gt_0)
qed

lemma inv_copy:
  assumes inv: "run_inv s" and t: "thief s i = Copying g head n temp" "length temp < n"
  shows "run_inv (copy_slot i g head n temp s)"
proof -
  note d = run_invD [OF inv]
  have g: "head = of_nat g" "g \<le> pos s" "0 < n" "g = pos s \<longrightarrow> pos s + n \<le> length (inp s) \<and> temp = take (length temp) (drop (pos s) (inp s))"
    using d(7) [of i] t by simp_all
  have "runq (ring s) ! slot (head + of_nat (length temp)) = inp s ! (pos s + length temp)" if "g = pos s"
    using ring_ok_slot [OF d(1), of "length temp"] g that t(2) by simp
  then show ?thesis using g t(2) inv unfolding copy_slot_def
    by (intro inv_thief) (auto simp: take_Suc_conv_app_nth)
qed

lemma inv_grab_cas:
  assumes inv: "run_inv s" "timely s" and t: "thief s i = Copying g head n temp" "length temp = n"
  shows "run_inv (grab_cas i head temp s)"
proof (cases "runqhead (ring s) = head")
  case True
  note d = run_invD [OF inv(1)]
  have g: "head = of_nat g" "g \<le> pos s" "0 < n" "g = pos s \<longrightarrow> pos s + n \<le> length (inp s) \<and> temp = take (length temp) (drop (pos s) (inp s))"
    using d(7) [of i] unfolding t(1) by auto
  have "since (thief s i) = Some g" using t(1) by simp
  then have "pos s + 512 < g + 2 ^ 32" using inv(2) unfolding timely_def by blast
  then have "g = pos s" using of_nat_near [of g "pos s"] g(1,2) d(2) True by simp
  then have "0 < length temp" "pos s + length temp \<le> length (inp s)" "temp = take (length temp) (drop (pos s) (inp s))" "head = of_nat (pos s)"
    using g t(2) by simp_all
  from cas_head_ok [OF inv(1) this(4,1-3)] obtain s' where "cas_head (Thief i) head temp s = (True, s')" "run_inv s'" by blast
  then show ?thesis using inv_thief [of s' TIdle i] by (simp add: grab_cas_def)
next
  case False
  then show ?thesis using inv_thief [OF inv(1), of GrabHead i] by (simp add: grab_cas_def cas_head_fails)
qed

lemma inv_start: "length (runq q) = 512 \<Longrightarrow> run_inv (ring_start q)"
  by (simp add: run_inv_def ring_start_def ring_ok_def taken_def priv_task_queue_init_def)

lemma inv_offered: "run_inv (s\<lparr>offered := x\<rparr>) = run_inv s"
  by (simp add: run_inv_def)

lemma inv_step:
  assumes "ring_step s s'" "run_inv s" "timely s"
  shows "run_inv s'"
  using assms
proof (cases rule: ring_step.cases)
  case (put t)
  then show ?thesis using inv_owner [OF assms(2), of "PutHead t"] by (simp add: inv_offered)
next
  case (fill ts)
  then have "pos s = length (inp s)" using run_invD(2-5) [OF assms(2)] of_nat_near [of "pos s" "length (inp s)"] by simp
  then show ?thesis using fill inv_owner [OF assms(2), of "FillHead ts"] by (simp add: inv_offered)
next
  case (get_head)
  then show ?thesis using run_invD(2,4,5) [OF assms(2)] by (intro inv_owner | simp add: seen_def assms(2))+
next
  case (put_head t)
  then show ?thesis using run_invD(2,4,5) [OF assms(2)] by (intro inv_owner | simp add: seen_def assms(2))+
next
  case (fill_head ts)
  then show ?thesis using run_invD(2,6) [OF assms(2)] by (intro inv_owner | simp add: assms(2))+
next
  case (grab_head i)
  then show ?thesis using run_invD(2) [OF assms(2)] by (intro inv_thief | simp add: assms(2))+
qed (auto intro: inv_owner inv_thief inv_get_tail inv_get_cas inv_put_tail inv_slow_cas inv_fill_tail inv_store inv_publish
    inv_grab_tail inv_copy inv_grab_cas)

lemma ring_run_inv: "ring_run s \<Longrightarrow> run_inv s"
  by (induction rule: ring_run.induct) (auto intro: inv_start inv_step)

section \<open>No task is lost\<close>

fun in_hand :: "owner_pc \<Rightarrow> tid list" where
  "in_hand (PutHead t) = [t]"
| "in_hand (PutTail t g head) = [t]"
| "in_hand (SlowCas t g head temp) = [t]"
| "in_hand (FillHead ts) = ts"
| "in_hand (FillTail ts head) = ts"
| "in_hand (Storing ts k) = ts"
| "in_hand _ = []"

text \<open>The tasks that went to the global queue behind the half of a full ring.\<close>

definition overflowed :: "rsys \<Rightarrow> tid list" where
  "overflowed s = concat (map (\<lambda>(w, ts). case w of Overflow t \<Rightarrow> [t] | _ \<Rightarrow> []) (takes s))"

definition accounted :: "rsys \<Rightarrow> bool" where
  "accounted s \<longleftrightarrow> mset (offered s) = mset (inp s) + mset (overflowed s) + mset (in_hand (owner s))"

lemma accounted_step:
  assumes "ring_step s s'" "accounted s" "owner s' \<noteq> OFailed"
  shows "accounted s'"
  using assms
  by (cases rule: ring_step.cases)
    (auto simp: accounted_def overflowed_def get_tail_def get_cas_def put_tail_def slow_cas_def fill_tail_def store_slot_def publish_def
      set_thief_def grab_tail_def copy_slot_def grab_cas_def cas_head_def Let_def split: if_splits)

lemma ring_run_accounted: "ring_run s \<Longrightarrow> accounted s"
proof (induction rule: ring_run.induct)
  case (start q)
  then show ?case by (simp add: accounted_def overflowed_def ring_start_def)
next
  case (step s s')
  have "run_inv s'" using step.hyps ring_run_inv inv_step by blast
  then have "owner s' \<noteq> OFailed" by (auto simp: run_inv_def)
  then show ?case using accounted_step step.hyps(3) step.IH by blast
qed

section \<open>Without interference\<close>

text \<open>One thread alone computes the functions of theory \<open>Runq\<close>.\<close>

lemma timely_cong: "timely s \<Longrightarrow> pos s' = pos s \<Longrightarrow> thief s' = thief s \<Longrightarrow> timely s'"
  by (simp add: timely_def)

lemma solo_get:
  assumes "ring_run s" "timely s" "owner s = OIdle"
  shows "\<exists>s'. ring_run s' \<and> ring s' = snd (runqget (ring s)) \<and> owner s' = OIdle \<and> thief s' = thief s \<and>
     takes s' = takes s @ (case fst (runqget (ring s)) of None \<Rightarrow> [] | Some t \<Rightarrow> [(Getter, [t])])"
proof -
  let ?h = "runqhead (ring s)"
  define s1 where "s1 = s\<lparr>owner := GetHead\<rparr>"
  define s2 where "s2 = s1\<lparr>owner := GetTail (pos s1) (runqhead (ring s1))\<rparr>"
  define s3 where "s3 = get_tail (pos s1) ?h s2"
  have o: "owner s1 = GetHead" "owner s2 = GetTail (pos s1) ?h" by (simp_all add: s1_def s2_def)
  have t: "timely s1" "timely s2" "timely s3"
    by (rule timely_cong [OF assms(2)]; simp add: s1_def s2_def s3_def get_tail_def)+
  have r1: "ring_run s1" unfolding s1_def by (rule ring_run.step [OF assms(1,2) ring_step.get [OF assms(3)]])
  have r2: "ring_run s2" unfolding s2_def by (rule ring_run.step [OF r1 t(1) ring_step.get_head [OF o(1)]])
  have r3: "ring_run s3" unfolding s3_def by (rule ring_run.step [OF r2 t(2) ring_step.get_tail [OF o(2)]])
  show ?thesis
  proof (cases "runqtail (ring s) = ?h")
    case True
    then show ?thesis using r3 by (intro exI [of _ s3]) (simp add: s3_def s2_def s1_def get_tail_def runqget_def Let_def)
  next
    case False
    then have o3: "owner s3 = GetCas (pos s1) ?h (runq (ring s) ! slot ?h)" by (simp add: s3_def s2_def s1_def get_tail_def)
    have "ring_run (get_cas ?h (runq (ring s) ! slot ?h) s3)" by (rule ring_run.step [OF r3 t(3) ring_step.get_cas [OF o3]])
    then show ?thesis using False
      by (intro exI [of _ "get_cas ?h (runq (ring s) ! slot ?h) s3"])
        (simp add: s3_def s2_def s1_def get_tail_def get_cas_def cas_head_def runqget_def Let_def)
  qed
qed

lemma solo_put:
  assumes "ring_run s" "timely s" "owner s = OIdle" and put: "runqput (ring s) t gq = Inr (q', gq')"
  shows "\<exists>s'. ring_run s' \<and> ring s' = q' \<and> owner s' = OIdle \<and> thief s' = thief s \<and>
     (takes s' = takes s \<and> gq' = gq \<or> (\<exists>temp. takes s' = takes s @ [(Overflow t, temp)] \<and> g_tasks gq' = g_tasks gq @ temp @ [t]))"
proof -
  let ?h = "runqhead (ring s)"
  define s1 where "s1 = s\<lparr>owner := PutHead t, offered := offered s @ [t]\<rparr>"
  define s2 where "s2 = s1\<lparr>owner := PutTail t (pos s1) (runqhead (ring s1))\<rparr>"
  define s3 where "s3 = put_tail t (pos s1) ?h s2"
  have o: "owner s1 = PutHead t" "owner s2 = PutTail t (pos s1) ?h" by (simp_all add: s1_def s2_def)
  have t: "timely s1" "timely s2" "timely s3"
    by (rule timely_cong [OF assms(2)]; simp add: s1_def s2_def s3_def put_tail_def Let_def)+
  have r1: "ring_run s1" unfolding s1_def by (rule ring_run.step [OF assms(1,2) ring_step.put [OF assms(3)]])
  have r2: "ring_run s2" unfolding s2_def by (rule ring_run.step [OF r1 t(1) ring_step.put_head [OF o(1)]])
  have r3: "ring_run s3" unfolding s3_def by (rule ring_run.step [OF r2 t(2) ring_step.put_tail [OF o(2)]])
  show ?thesis
  proof (cases "runqtail (ring s) - ?h < 512")
    case True
    then have e: "s3 = s1\<lparr>owner := Storing [t] 0\<rparr>" by (simp add: s3_def s2_def s1_def put_tail_def Let_def)
    define s4 where "s4 = store_slot [t] 0 s3"
    have "ring_run s4" unfolding s4_def using e by (intro ring_run.step [OF r3 t(3) ring_step.store]) simp_all
    moreover have "timely s4" by (rule timely_cong [OF t(3)]) (simp_all add: s4_def store_slot_def)
    ultimately have "ring_run (publish [t] s4)"
      by (rule ring_run.step) (rule ring_step.publish, simp add: s4_def store_slot_def)
    then show ?thesis using True put
      by (intro exI [of _ "publish [t] s4"]) (auto simp: s4_def e s1_def store_slot_def publish_def runqput_def Let_def)
  next
    case False
    with put have n: "(runqtail (ring s) - ?h) div 2 = 256" and gq: "\<not> g_lock gq"
      "q' = (ring s)\<lparr>runqhead := ?h + 256\<rparr>" "g_tasks gq' = g_tasks gq @ read_slots (ring s) ?h 256 @ [t]"
      by (auto simp: runqput_def runqputslow_def Let_def andthen_Inr_iff split: if_splits)
    then have e: "s3 = s1\<lparr>owner := SlowCas t (pos s1) ?h (read_slots (ring s) ?h 256)\<rparr>"
      using False by (simp add: s3_def s2_def s1_def put_tail_def Let_def)
    then have "ring_run (slow_cas t ?h (read_slots (ring s) ?h 256) s3)" by (intro ring_run.step [OF r3 t(3) ring_step.slow_cas]) simp
    then show ?thesis using gq
      by (intro exI [of _ "slow_cas t ?h (read_slots (ring s) ?h 256) s3"]) (simp add: e s1_def slow_cas_def cas_head_def)
  qed
qed

lemma timely_set_thief: "timely s \<Longrightarrow> since p = None \<or> since p = Some (pos s) \<Longrightarrow> timely (set_thief i p s)"
  unfolding timely_def by (simp only: taken_frame) (auto simp: set_thief_def)

lemma solo_copy:
  assumes "ring_run s" "timely s" "thief s i = Copying (pos s) head n (read_slots (ring s) head k)" "k \<le> n"
  shows "ring_run (set_thief i (Copying (pos s) head n (read_slots (ring s) head n)) s)"
  using assms
proof (induction "n - k" arbitrary: k s)
  case 0
  then have "k = n" by simp
  then have "set_thief i (Copying (pos s) head n (read_slots (ring s) head n)) s = s" using 0(4) by (simp add: set_thief_def fun_upd_idem)
  then show ?case using 0(2) by simp
next
  case (Suc m)
  let ?s = "copy_slot i (pos s) head n (read_slots (ring s) head k) s"
  have e: "?s = set_thief i (Copying (pos s) head n (read_slots (ring s) head (Suc k))) s"
    by (simp add: copy_slot_def read_slots_def)
  have "ring_run ?s" using Suc.hyps(2) by (intro ring_run.step [OF Suc.prems(1,2) ring_step.copy [OF Suc.prems(3)]]) simp
  moreover have "timely ?s" unfolding e using Suc.prems(2) by (rule timely_set_thief) simp
  ultimately show ?case using Suc.hyps(1) [of "Suc k" ?s] Suc.hyps(2) unfolding e
    by (simp add: taken_def) (simp add: set_thief_def)
qed

lemma solo_grab:
  assumes "ring_run s" "timely s" "thief s i = TIdle" and grab: "runqgrab (ring s) = Inr (ts, q')"
  shows "\<exists>s'. ring_run s' \<and> ring s' = q' \<and> owner s' = owner s \<and> thief s' = thief s \<and> takes s' = takes s @ (if ts = [] then [] else [(Thief i, ts)])"
proof -
  let ?h = "runqhead (ring s)"
  let ?w = "runqtail (ring s) - ?h - (runqtail (ring s) - ?h) div 2"
  define s1 where "s1 = set_thief i GrabHead s"
  define s2 where "s2 = set_thief i (GrabTail (pos s1) (runqhead (ring s1))) s1"
  define s3 where "s3 = grab_tail i (pos s1) ?h s2"
  have same: "ring s1 = ring s" "ring s2 = ring s" "pos s1 = pos s" "pos s2 = pos s" by (simp_all add: s1_def s2_def) (simp_all add: set_thief_def)
  have o: "thief s1 i = GrabHead" "thief s2 i = GrabTail (pos s1) ?h" using same by (simp_all add: s1_def s2_def) (simp_all add: set_thief_def)
  have t: "timely s1" "timely s2" unfolding s2_def s1_def by (intro timely_set_thief assms(2); simp)+
  have r1: "ring_run s1" unfolding s1_def by (rule ring_run.step [OF assms(1,2) ring_step.grab [OF assms(3)]])
  have r2: "ring_run s2" unfolding s2_def by (rule ring_run.step [OF r1 t(1) ring_step.grab_head [OF o(1)]])
  have r3: "ring_run s3" unfolding s3_def by (rule ring_run.step [OF r2 t(2) ring_step.grab_tail [OF o(2)]])
  show ?thesis
  proof (cases "?w = 0")
    case True
    then have "s3 = set_thief i TIdle s2" "ts = []" "q' = ring s" using grab same by (simp_all add: s3_def grab_tail_def runqgrab_def Let_def)
    then show ?thesis using r3 assms(3) by (intro exI [of _ s3]) (simp add: s2_def s1_def set_thief_def fun_upd_idem)
  next
    case False
    then have w: "\<not> 256 < ?w" "ts = read_slots (ring s) ?h (unat ?w)" "q' = (ring s)\<lparr>runqhead := ?h + ?w\<rparr>"
      using grab by (auto simp: runqgrab_def Let_def split: if_splits)
    then have e: "s3 = set_thief i (Copying (pos s) ?h (unat ?w) (read_slots (ring s) ?h 0)) s2"
      using False same by (simp add: s3_def grab_tail_def Let_def read_slots_def)
    define s4 where "s4 = set_thief i (Copying (pos s) ?h (unat ?w) ts) s2"
    have "timely s3" unfolding e by (rule timely_set_thief [OF t(2)]) (simp add: same)
    moreover have "thief s3 i = Copying (pos s3) ?h (unat ?w) (read_slots (ring s3) ?h 0)" "pos s3 = pos s" "ring s3 = ring s"
      using same by (simp_all add: e) (simp_all add: set_thief_def)
    ultimately have "ring_run (set_thief i (Copying (pos s) ?h (unat ?w) ts) s3)" using solo_copy [OF r3, of i ?h "unat ?w" 0] w(2) by simp
    then have r4: "ring_run s4" by (simp add: s4_def e set_thief_def)
    have l: "length ts = unat ?w" "ts \<noteq> []" using w(2) False by (auto simp: unat_eq_0 simp flip: length_0_conv)
    have "timely s4" unfolding s4_def by (rule timely_set_thief [OF t(2)]) (simp add: same)
    then have "ring_run (grab_cas i ?h ts s4)"
      using l(1) by (intro ring_run.step [OF r4 _ ring_step.grab_cas [of s4 i "pos s" ?h "unat ?w"]]) (simp_all add: s4_def set_thief_def)
    moreover have "of_nat (length ts) = ?w" using l(1) by simp
    ultimately show ?thesis using l(2) w(3) assms(3)
      by (intro exI [of _ "grab_cas i ?h ts s4"]) (simp add: s4_def s2_def s1_def grab_cas_def cas_head_def set_thief_def fun_upd_idem)
  qed
qed

section \<open>Properties\<close>

lemma empty_seen:
  assumes "run_inv s" "g \<le> pos s" "length (inp s) < g + 2 ^ 32" "runqtail (ring s) = of_nat g"
  shows "rq_list (ring s) = []"
  using assms run_invD(3,4) [OF assms(1)] of_nat_near [of g "length (inp s)"] ring_ok_list [OF run_invD(1) [OF assms(1)]] by simp

lemma moved_on:
  assumes "run_inv s" "g \<le> pos s" "runqhead (ring s) \<noteq> of_nat g"
  shows "g < pos s"
  using assms run_invD(2) [OF assms(1)] by (cases "g = pos s") simp_all

text \<open>
  Claim C4. The lock-free run queue is a queue under every interleaving of its owner and any number of thieves. The tasks claimed by the
  successful exchanges, in their order, followed by what the ring holds, are the tasks published, in their order: nothing is lost, doubled or
  overtaken; and everything the owner was asked to add is claimed, in the ring, behind an overflowing half, or still in the owner's hand. The
  assertions of \<open>__runqputslow\<close> and \<open>__runqsteal\<close> never fail. \<open>__runqget\<close> and \<open>__runqgrab\<close> answer that there is nothing only when the ring
  is empty, and an exchange fails only because another one has succeeded since the head was read.
\<close>

theorem ring_fifo_under_theft:
  assumes "ring_run s"
  shows "taken s @ rq_list (ring s) = inp s \<and> rq_inv (ring s) \<and> owner s \<noteq> OFailed \<and>
    mset (offered s) = mset (taken s) + mset (rq_list (ring s)) + mset (overflowed s) + mset (in_hand (owner s)) \<and>
    (\<forall>g head. owner s = GetTail g head \<and> runqtail (ring s) = head \<longrightarrow> rq_list (ring s) = []) \<and>
    (\<forall>i g head. thief s i = GrabTail g head \<and> timely s \<and> runqtail (ring s) = head \<longrightarrow> rq_list (ring s) = []) \<and>
    (\<forall>g head t temp. (owner s = GetCas g head t \<or> owner s = SlowCas t g head temp) \<and> runqhead (ring s) \<noteq> head \<longrightarrow> g < pos s) \<and>
    (\<forall>i g head n temp. thief s i = Copying g head n temp \<and> runqhead (ring s) \<noteq> head \<longrightarrow> g < pos s)"
proof -
  have inv: "run_inv s" using assms by (rule ring_run_inv)
  note d = run_invD [OF inv]
  have l: "rq_list (ring s) = drop (pos s) (inp s)" "rq_inv (ring s)" using ring_ok_list [OF d(1)] by simp_all
  have q: "taken s @ rq_list (ring s) = inp s" using l(1) inv by (metis run_inv_def append_take_drop_id)
  have a: "mset (offered s) = mset (taken s) + mset (rq_list (ring s)) + mset (overflowed s) + mset (in_hand (owner s))"
    using ring_run_accounted [OF assms] q unfolding accounted_def by (metis mset_append)
  have e: "rq_list (ring s) = []" if "owner s = GetTail g head" "runqtail (ring s) = head" for g head
    by (rule empty_seen [OF inv, of g]) (use d(6) that in \<open>auto simp: seen_def\<close>)
  have e': "rq_list (ring s) = []" if "thief s i = GrabTail g head" "timely s" "runqtail (ring s) = head" for i g head
  proof -
    have "since (thief s i) = Some g" using that(1) by simp
    then have "pos s + 512 < g + 2 ^ 32" using that(2) unfolding timely_def by blast
    then show ?thesis using empty_seen [OF inv, of g] d(5) d(7) [of i] that by simp
  qed
  have c: "g < pos s" if "owner s = GetCas g head t \<or> owner s = SlowCas t g head temp" "runqhead (ring s) \<noteq> head" for g head t temp
    by (rule moved_on [OF inv]) (use d(6) that in \<open>auto simp: seen_def\<close>)
  have c': "g < pos s" if "thief s i = Copying g head n temp" "runqhead (ring s) \<noteq> head" for i g head n temp
    by (rule moved_on [OF inv]) (use d(7) [of i] that in auto)
  show ?thesis using q l(2) d(6) a e e' c c' by auto
qed

theorem ring_fifo_under_theft_witness:
  "\<exists>s. ring_run s \<and> takes s = [(Thief 3, [7])] \<and> taken s = [7] \<and> taken s @ rq_list (ring s) = inp s \<and> rq_inv (ring s)"
proof -
  define q where "q = \<lparr>pq_prio = 0, runq = replicate 512 0, runqhead = 0, runqtail = 0\<rparr>"
  define gq where "gq = \<lparr>g_lock = False, g_tasks = []\<rparr>"
  define s0 where "s0 = ring_start q"
  have "ring_run s0" unfolding s0_def by (rule ring_run.start) (simp add: q_def)
  then have s0: "ring_run s0" "timely s0" "owner s0 = OIdle" "thief s0 i = TIdle" "takes s0 = []" "ring s0 = q" for i
    by (auto simp: s0_def timely_def ring_start_def q_def priv_task_queue_init_def)
  have q: "rq_inv q" "rq_len q = 0" "rq_list q = []"
    by (simp_all add: rq_inv_def rq_len_def rq_list_def read_slots_def q_def)
  have push: "rq_list (rq_push q 7) = [7]" "rq_inv (rq_push q 7)" using rq_push [OF q(1)] q(2,3) by simp_all
  have "runqput (ring s0) 7 gq = Inr (rq_push q 7, gq)" using runqput_room [of q 7 gq] q(2) by (simp add: s0(6))
  from solo_put [OF s0(1-3) this] obtain s1 where s1: "ring_run s1" "ring s1 = rq_push q 7" "thief s1 = thief s0" "takes s1 = []"
    by (auto simp: s0(5) gq_def)
  have "timely s1" using s0(4) by (simp add: timely_def s1(3))
  moreover have "runqgrab (ring s1) = Inr ([7], (ring s1)\<lparr>runqhead := runqhead (ring s1) + 1\<rparr>)"
    using runqgrab_spec [OF push(2)] push(1) rq_len_push [of q 7] q(2) by (simp add: s1(2))
  ultimately obtain s2 where s2: "ring_run s2" "takes s2 = [(Thief 3, [7])]"
    using solo_grab [OF s1(1), of 3] s0(4) s1(3,4) by auto
  then show ?thesis using ring_fifo_under_theft [OF s2(1)] by (intro exI [of _ s2]) (simp add: taken_def)
qed

end
