(* ===== verification/Vfs_Pool.thy ===== *)
theory Vfs_Pool
  imports Vfs Async
begin

text \<open>
  File operations through the pool: the requests of \<^verbatim>\<open>src/vfs.c\<close>, which are local variables of the callers, executed by the threads of
  \<^verbatim>\<open>src/async.c\<close>. The world of the pool is the memory of the requests and the world of the drivers.
\<close>

section \<open>Operations\<close>

text \<open>What the pool executes for the request at address \<open>a\<close>, how it is handed to the pool, and the answer the caller takes from it afterwards.\<close>

definition vfs_request :: "addr \<Rightarrow> (addr \<Rightarrow> 'w vfs_ops) \<times> 'w \<Rightarrow> c_err + ((addr \<Rightarrow> 'w vfs_ops) \<times> 'w)" where
  "vfs_request a = (\<lambda>(m, w). andthen (vfs_callback (m a) w) (\<lambda>(ops, w). Inr (m(a := ops), w)))"

definition vfs_submit :: "addr \<Rightarrow> 'w vfs_ops \<Rightarrow> nat \<Rightarrow> ((addr \<Rightarrow> 'w vfs_ops) \<times> 'w) pool \<times> sys \<times> (addr \<Rightarrow> 'w vfs_ops) \<times> 'w \<Rightarrow>
    c_err + (bool \<times> ((addr \<Rightarrow> 'w vfs_ops) \<times> 'w) pool \<times> sys \<times> (addr \<Rightarrow> 'w vfs_ops) \<times> 'w)" where
  "vfs_submit a ops v = (\<lambda>(p, s, m, w). async_request_submit (vfs_request a) v (p, s, m(a := ops), w))"

definition vfs_answer :: "addr \<Rightarrow> (u64 \<Rightarrow> 'r) \<Rightarrow> (addr \<Rightarrow> 'w vfs_ops) \<times> 'w \<Rightarrow> 'r" where
  "vfs_answer a ret = (\<lambda>(m, w). ret (ops_arg0 (m a)))"

section \<open>Requests do not disturb each other\<close>

lemma vfs_request_other: "vfs_request b (m, w) = Inr (m', w') \<Longrightarrow> a \<noteq> b \<Longrightarrow> m' a = m a"
  by (auto simp: vfs_request_def andthen_Inr_iff)

lemma run_all_append: "run_all (fs @ gs) w = andthen (run_all fs w) (run_all gs)"
proof (induction fs arbitrary: w)
  case (Cons f fs)
  then show ?case by (cases "f w") simp_all
qed simp

lemma requests_keep: "run_all (map vfs_request as) (m, w) = Inr (m', w') \<Longrightarrow> a \<notin> set as \<Longrightarrow> m' a = m a"
proof (induction as arbitrary: m w)
  case (Cons b as)
  then obtain m1 w1 where "vfs_request b (m, w) = Inr (m1, w1)" "run_all (map vfs_request as) (m1, w1) = Inr (m', w')"
    by (auto simp: andthen_Inr_iff)
  then show ?case using Cons vfs_request_other by fastforce
qed simp

text \<open>
  Any asynchronous call: it ends with what the driver answers in the world that the requests before it leave behind.
\<close>

lemma vfs_pool_serves:
  assumes "sched_inv s" "v < xt_index s" "running s v = Some t" "pool_threads p \<noteq> 0" "\<not> locks s (pool_mutex p)" "requests_ok (pool_que p) s"
    and before: "map req_func (pool_que p) = map vfs_request as" "a \<notin> set as" "run_all (map vfs_request as) (m(a := ops), w) = Inr (m1, w1)"
    and call: "completed (Inr (Submitted ops ret)) w1 = Inr (r, w2)"
  shows "\<exists>p1 s1 p2 s2 m2. vfs_submit a ops v (p, s, m, w) = Inr (True, p1, s1, m(a := ops), w) \<and> running s1 v = None \<and>
     async_rounds (Suc (length (pool_que p))) (p1, s1, m(a := ops), w) = Inr (p2, s2, m2, w2) \<and> sched_inv s2 \<and>
     co_status (cos s2 t) = READY \<and> vfs_answer a ret (m2, w2) = r"
proof -
  let ?r = "\<lparr>req_wait = t, req_func = vfs_request a\<rparr>"
  let ?p = "p\<lparr>pool_que := pool_que p @ [?r], pool_signals := Suc (pool_signals p)\<rparr>"
  from call obtain ops' where o: "vfs_callback ops w1 = Inr (ops', w2)" "ret (ops_arg0 ops') = r"
    by (auto simp: completed_Submitted andthen_Inr_iff)
  have "m1 a = ops" using requests_keep [OF before(3,2)] by simp
  then have last: "vfs_request a (m1, w1) = Inr (m1(a := ops'), w2)" using o(1) by (simp add: vfs_request_def)
  obtain s1 where s1: "async_request_submit (vfs_request a) v (p, s, m(a := ops), w) = Inr (True, ?p, s1, m(a := ops), w)" "sched_inv s1"
    "requests_ok (pool_que p @ [?r]) s1" "\<not> locks s1 (pool_mutex p)" "running s1 v = None"
    by (rule async_submit_ok [OF assms(1-6)])
  have "run_all (map req_func (pool_que ?p)) (m(a := ops), w) = Inr (m1(a := ops'), w2)" using before(1,3) last by (simp add: run_all_append)
  from async_rounds_ok [OF s1(2) _ _ this] s1(3,4) obtain s2 where
    s2: "async_rounds (Suc (length (pool_que p))) (?p, s1, m(a := ops), w) = Inr (?p\<lparr>pool_que := []\<rparr>, s2, m1(a := ops'), w2)" "sched_inv s2"
    "co_status (cos s2 t) = READY" by auto
  have "vfs_answer a ret (m1(a := ops'), w2) = r" using o(2) by (simp add: vfs_answer_def)
  then show ?thesis using s1(1,5) s2
    by (intro exI [of _ ?p] exI [of _ s1] exI [of _ "?p\<lparr>pool_que := []\<rparr>"] exI [of _ s2] exI [of _ "m1(a := ops')"]) (simp add: vfs_submit_def)
qed

section \<open>Properties\<close>



end
