(* ===== verification/Signals.thy ===== *)
theory Signals
  imports Prelude
begin

text \<open>
  The clock signal of the time sharing scheduler: the macros of
  \<open>src/include/inter/support.h\<close> that mask it, and every place where the runtime meets it:
  \<open>vpu_syscall\<close>, \<open>vpu_suspend\<close>, \<open>vpu_clock_handler\<close>, \<open>core_wait\<close>, the dispatch of
  \<open>core_sched\<close>, the start of a VPU (\<open>src/src/vpu.c\<close>) and the context of a new coroutine
  (\<open>src/src/context.c\<close>).

  The other theories take an operation of the runtime as one step.  Here the steps are single
  accesses, because a signal arrives between two of them: the thread of a VPU has the nesting
  level \<open>__vpu_sigmask_nest\<close>, the mask the kernel keeps for it, and the place it has
  reached; a coroutine has the control it would go on with, the nesting level and the mask that were
  saved with its context, and at most one frame of the signal handler on its stack (the
  handler runs with the signal blocked).  Any number of threads take steps in any order, and a
  coroutine may go on on another thread than the one it left.  \<open>setcontext\<close> puts mask and
  control in place in one step, and so does the return from the handler.

  What a coroutine does between calls of the runtime is left open: it opens and closes masked
  sections, closing only those it opened, and it calls \<open>vpu_suspend\<close>.  The set \<open>unsafe\<close>
  holds the coroutines that call it outside every masked section (the calls of \<open>vpu_syscall\<close> in
  \<open>src/src/coroutine.c\<close> are all inside one), as \<open>coroc_group_sync\<close> of
  \<open>src/src/group.c\<close> does; with none of them the assertion of the handler never
  fails, a masked section is never interrupted and the lock given to \<open>vpu_suspend\<close> is released by
  the \<open>core_wait\<close> of that very call; with one of them all three can go wrong.
\<close>

section \<open>State\<close>

text \<open>
  The places inside \<open>vpu_syscall\<close>: before \<open>syscall\<close> is set, before the nesting level is saved,
  before and after \<open>TSC_CONTEXT_SAVE\<close>, before \<open>current\<close> is set and before
  \<open>TSC_CONTEXT_LOAD\<close> of the scheduler's context.
\<close>

datatype sysc = SetFlag | SaveNest | SaveCtx | TestFlag | SetCurrent | Switch

text \<open>The functions \<open>vpu_syscall\<close> has the scheduler call.\<close>

datatype pfn = Core_wait | Core_yield | Core_exit

text \<open>
  The code a coroutine is in: its own (\<open>Plain\<close>), between the change of the nesting level and the
  call of \<open>sigprocmask\<close> in one of the two macros, or inside \<open>vpu_syscall\<close>.
\<close>

datatype code = Plain | Blocking | Unblocking | Sys pfn sysc

text \<open>The frame of the signal handler on a coroutine's stack and the mask its return restores.\<close>

datatype hframe = NoFrame | Handler bool | HandlerSys bool sysc

type_synonym ctl = "code \<times> hframe"

datatype spc = InSched | Loaded nat | CurSet nat | Running nat

datatype place = Unborn | Off | On nat | Exited

datatype sig_fault = HandlerAssert | SchedStack

record sig_vpu =
  sv_nest :: int
  sv_blocked :: bool
  sv_current :: "nat option"
  sv_pc :: spc
  sv_watchdog :: nat
  sv_hold :: "nat option"

record sig_co =
  sc_ctl :: ctl
  sc_nest :: int
  sc_syscall :: bool
  sc_ctx :: ctl
  sc_ctx_blocked :: bool
  sc_place :: place
  sc_depth :: nat
  sc_waited :: bool

text \<open>
  \<open>sc_depth\<close> and \<open>sc_waited\<close> are history, read by no step of the runtime: the masked sections the
  coroutine is in, and whether \<open>core_wait\<close> has run for its last call of \<open>vpu_suspend\<close>.
  \<open>sc_place\<close> says whether the coroutine is waiting to be chosen or in the hands of
  a thread.
\<close>

record sig_state =
  sg_vpus :: "nat \<Rightarrow> sig_vpu"
  sg_cos :: "nat \<Rightarrow> sig_co"
  sg_fault :: "sig_fault option"

definition at_vpu :: "nat \<Rightarrow> (sig_vpu \<Rightarrow> sig_vpu) \<Rightarrow> sig_state \<Rightarrow> sig_state" where
  "at_vpu v f s = s\<lparr>sg_vpus := (sg_vpus s)(v := f (sg_vpus s v))\<rparr>"

definition at_co :: "nat \<Rightarrow> (sig_co \<Rightarrow> sig_co) \<Rightarrow> sig_state \<Rightarrow> sig_state" where
  "at_co t f s = s\<lparr>sg_cos := (sg_cos s)(t := f (sg_cos s t))\<rparr>"

lemmas sig_upd = at_vpu_def at_co_def

section \<open>The macros\<close>

text \<open>The first halves of the two macros: the new nesting level, and whether the mask is to change.\<close>

definition signal_mask :: "sig_vpu \<Rightarrow> sig_vpu \<times> bool" where
  "signal_mask p = (p\<lparr>sv_nest := sv_nest p + 1\<rparr>, sv_nest p = 0)"

definition signal_unmask :: "sig_vpu \<Rightarrow> sig_vpu \<times> bool" where
  "signal_unmask p = (p\<lparr>sv_nest := sv_nest p - 1\<rparr>, sv_nest p - 1 = 0)"

definition signal_state_save :: "sig_vpu \<Rightarrow> sig_co \<Rightarrow> sig_co" where
  "signal_state_save p c = c\<lparr>sc_nest := sv_nest p\<rparr>"

definition signal_state_load :: "sig_co \<Rightarrow> sig_vpu \<Rightarrow> sig_vpu" where
  "signal_state_load c p = p\<lparr>sv_nest := sc_nest c\<rparr>"

definition TSC_RESCHED_THRESHOLD :: nat where
  "TSC_RESCHED_THRESHOLD = 5"

section \<open>The runtime\<close>

text \<open>
  A coroutine is born with nesting level 0 and a context that blocks no signal; \<open>vpu_ready\<close>
  hands it to the scheduler.
\<close>

definition new_co :: sig_co where
  "new_co = \<lparr>sc_ctl = (Plain, NoFrame), sc_nest = 0, sc_syscall = False, sc_ctx = (Plain, NoFrame),
     sc_ctx_blocked = False, sc_place = Off, sc_depth = 0, sc_waited = True\<rparr>"

text \<open>
  A thread starts in its scheduler, inside the masked section that \<open>per_vpu_initalize\<close> opens and
  never closes.
\<close>

definition new_vpu :: sig_vpu where
  "new_vpu = \<lparr>sv_nest = 1, sv_blocked = True, sv_current = None, sv_pc = InSched,
     sv_watchdog = 0, sv_hold = None\<rparr>"

definition sig_init :: sig_state where
  "sig_init = \<lparr>sg_vpus = (\<lambda>_. new_vpu), sg_cos = (\<lambda>_. new_co\<lparr>sc_place := Unborn\<rparr>)(0 := new_co),
     sg_fault = None\<rparr>"

text \<open>
  The top of a coroutine's control is a place in \<open>vpu_syscall\<close>, called by the coroutine or by the
  handler on its stack.
\<close>

fun in_sys :: "ctl \<Rightarrow> sysc option" where
  "in_sys (_, HandlerSys _ k) = Some k"
| "in_sys (Sys f k, NoFrame) = Some k"
| "in_sys _ = None"

fun set_sys :: "sysc \<Rightarrow> ctl \<Rightarrow> ctl" where
  "set_sys k (b, HandlerSys m _) = (b, HandlerSys m k)"
| "set_sys k (Sys f _, NoFrame) = (Sys f k, NoFrame)"
| "set_sys k (b, f) = (b, f)"

text \<open>Return from \<open>vpu_syscall\<close>: to the handler, or to the coroutine's own code.\<close>

fun ret_sys :: "ctl \<Rightarrow> ctl" where
  "ret_sys (b, HandlerSys m _) = (b, Handler m)"
| "ret_sys (b, f) = (Plain, f)"

text \<open>
  The function the scheduler is asked for: \<open>core_yield\<close> when the handler is the caller.
\<close>

fun sys_pfn :: "ctl \<Rightarrow> pfn" where
  "sys_pfn (Sys f _, NoFrame) = f"
| "sys_pfn _ = Core_yield"

text \<open>
  What that function does here, on the scheduler's context: \<open>core_wait\<close> releases the lock of
  \<open>hold\<close>, \<open>core_exit\<close> ends the coroutine; \<open>core_sched\<close> clears the watchdog.
\<close>

fun core_call :: "pfn \<Rightarrow> nat \<Rightarrow> nat \<Rightarrow> sig_state \<Rightarrow> sig_state" where
  "core_call Core_wait v t s = at_vpu v (\<lambda>p. p\<lparr>sv_hold := None\<rparr>)
     (at_co t (\<lambda>c. c\<lparr>sc_place := Off, sc_waited := True\<rparr>) s)"
| "core_call Core_yield v t s = at_co t (\<lambda>c. c\<lparr>sc_place := Off\<rparr>) s"
| "core_call Core_exit v t s = at_co t (\<lambda>c. c\<lparr>sc_place := Exited\<rparr>) s"

text \<open>One access of \<open>vpu_syscall\<close>, at place \<open>k\<close>, by coroutine \<open>t\<close> on thread \<open>v\<close>.\<close>

definition syscall_step :: "nat \<Rightarrow> nat \<Rightarrow> sysc \<Rightarrow> sig_state \<Rightarrow> sig_state" where
  "syscall_step v t k s = (let c = sg_cos s t; p = sg_vpus s v in
     case k of
       SetFlag \<Rightarrow> at_co t (\<lambda>c. c\<lparr>sc_syscall := True, sc_ctl := set_sys SaveNest (sc_ctl c)\<rparr>) s
     | SaveNest \<Rightarrow> at_co t (\<lambda>c. (signal_state_save p c)\<lparr>sc_ctl := set_sys SaveCtx (sc_ctl c)\<rparr>) s
     | SaveCtx \<Rightarrow> at_co t (\<lambda>c. c\<lparr>sc_ctx := set_sys TestFlag (sc_ctl c), sc_ctx_blocked := sv_blocked p,
                                sc_ctl := set_sys TestFlag (sc_ctl c)\<rparr>) s
     | TestFlag \<Rightarrow> at_co t (\<lambda>c. c\<lparr>sc_ctl := (if sc_syscall c then set_sys SetCurrent (sc_ctl c)
                                           else ret_sys (sc_ctl c))\<rparr>) s
     | SetCurrent \<Rightarrow> at_vpu v (\<lambda>p. p\<lparr>sv_current := None\<rparr>)
                      (at_co t (\<lambda>c. c\<lparr>sc_ctl := set_sys Switch (sc_ctl c)\<rparr>) s)
     | Switch \<Rightarrow> at_vpu v (\<lambda>p. p\<lparr>sv_blocked := True, sv_pc := InSched, sv_watchdog := 0\<rparr>)
                    (core_call (sys_pfn (sc_ctl c)) v t s))"

text \<open>
  The next access of thread \<open>v\<close> where the code leaves no choice: the rest of a macro, the
  inside of \<open>vpu_syscall\<close>, the return from the handler, the rest of a dispatch.
\<close>

definition advance :: "nat \<Rightarrow> sig_state \<Rightarrow> sig_state option" where
  "advance v s = (case sv_pc (sg_vpus s v) of
     InSched \<Rightarrow> None
   | Loaded t \<Rightarrow> Some (at_vpu v (\<lambda>p. p\<lparr>sv_current := Some t, sv_pc := CurSet t\<rparr>) s)
   | CurSet t \<Rightarrow> (let c = sg_cos s t in
       Some (at_vpu v (\<lambda>p. p\<lparr>sv_blocked := sc_ctx_blocked c, sv_pc := Running t\<rparr>)
              (at_co t (\<lambda>c. c\<lparr>sc_ctl := sc_ctx c\<rparr>) s)))
   | Running t \<Rightarrow> (let c = sg_cos s t in
       case in_sys (sc_ctl c) of
         Some k \<Rightarrow> Some (syscall_step v t k s)
       | None \<Rightarrow> (case sc_ctl c of
           (Blocking, NoFrame) \<Rightarrow> Some (at_vpu v (\<lambda>p. p\<lparr>sv_blocked := True\<rparr>)
                                   (at_co t (\<lambda>c. c\<lparr>sc_ctl := (Plain, NoFrame)\<rparr>) s))
         | (Unblocking, NoFrame) \<Rightarrow> Some (at_vpu v (\<lambda>p. p\<lparr>sv_blocked := False\<rparr>)
                                     (at_co t (\<lambda>c. c\<lparr>sc_ctl := (Plain, NoFrame)\<rparr>) s))
         | (b, Handler m) \<Rightarrow> Some (at_vpu v (\<lambda>p. p\<lparr>sv_blocked := m\<rparr>)
                              (at_co t (\<lambda>c. c\<lparr>sc_ctl := (b, NoFrame)\<rparr>) s))
         | _ \<Rightarrow> None)))"

text \<open>
  A signal that thread \<open>v\<close> does not block.  On the scheduler's context the assertion of
  \<open>vpu_clock_handler\<close> fails; between the assignment of \<open>current\<close> and the switch the handler would
  run on the scheduler's stack.  Otherwise it counts, and calls
  \<open>vpu_syscall(core_yield)\<close> past the threshold.
\<close>

definition clock_tick :: "nat \<Rightarrow> sig_state \<Rightarrow> sig_state option" where
  "clock_tick v s = (let p = sg_vpus s v in
     if sv_blocked p then None
     else if sv_current p = None then Some (s\<lparr>sg_fault := Some HandlerAssert\<rparr>)
     else case sv_pc p of
       Running t \<Rightarrow>
         let w = sv_watchdog p + 1; m = sv_blocked p in
         Some (at_vpu v (\<lambda>p. p\<lparr>sv_watchdog := w, sv_blocked := True\<rparr>)
           (at_co t (\<lambda>c. c\<lparr>sc_ctl := (fst (sc_ctl c),
              if w > TSC_RESCHED_THRESHOLD then HandlerSys m SetFlag else Handler m)\<rparr>) s))
     | _ \<Rightarrow> Some (s\<lparr>sg_fault := Some SchedStack\<rparr>))"

text \<open>The calls a coroutine makes from its own code.\<close>

definition call_mask :: "nat \<Rightarrow> nat \<Rightarrow> sig_state \<Rightarrow> sig_state" where
  "call_mask v t s = (let (p, b) = signal_mask (sg_vpus s v) in
     at_vpu v (\<lambda>_. p) (at_co t (\<lambda>c. c\<lparr>sc_depth := sc_depth c + 1,
       sc_ctl := (if b then Blocking else Plain, NoFrame)\<rparr>) s))"

definition call_unmask :: "nat \<Rightarrow> nat \<Rightarrow> sig_state \<Rightarrow> sig_state" where
  "call_unmask v t s = (let (p, b) = signal_unmask (sg_vpus s v) in
     at_vpu v (\<lambda>_. p) (at_co t (\<lambda>c. c\<lparr>sc_depth := sc_depth c - 1,
       sc_ctl := (if b then Unblocking else Plain, NoFrame)\<rparr>) s))"

definition call_suspend :: "nat \<Rightarrow> nat \<Rightarrow> nat \<Rightarrow> sig_state \<Rightarrow> sig_state" where
  "call_suspend l v t s = at_vpu v (\<lambda>p. p\<lparr>sv_hold := Some l\<rparr>)
     (at_co t (\<lambda>c. c\<lparr>sc_waited := False, sc_ctl := (Sys Core_wait SetFlag, NoFrame)\<rparr>) s)"

definition call_syscall :: "pfn \<Rightarrow> nat \<Rightarrow> sig_state \<Rightarrow> sig_state" where
  "call_syscall f t s = at_co t (\<lambda>c. c\<lparr>sc_ctl := (Sys f SetFlag, NoFrame)\<rparr>) s"

datatype sig_ev = Advance nat | Tick nat | Mask nat | Unmask nat | Suspend nat nat
  | Yield nat | Exit nat | Dispatch nat nat | Spawn nat

text \<open>The coroutine whose own code thread \<open>v\<close> is running.\<close>

definition plain :: "sig_state \<Rightarrow> nat \<Rightarrow> nat option" where
  "plain s v = (case sv_pc (sg_vpus s v) of
     Running t \<Rightarrow> if sc_ctl (sg_cos s t) = (Plain, NoFrame) then Some t else None
   | _ \<Rightarrow> None)"

fun sig_do :: "nat set \<Rightarrow> sig_ev \<Rightarrow> sig_state \<Rightarrow> sig_state option" where
  "sig_do unsafe (Advance v) s = advance v s"
| "sig_do unsafe (Tick v) s = clock_tick v s"
| "sig_do unsafe (Mask v) s = map_option (\<lambda>t. call_mask v t s) (plain s v)"
| "sig_do unsafe (Unmask v) s = (case plain s v of
     Some t \<Rightarrow> if 0 < sc_depth (sg_cos s t) then Some (call_unmask v t s) else None
   | None \<Rightarrow> None)"
| "sig_do unsafe (Suspend v l) s = (case plain s v of
     Some t \<Rightarrow> if 0 < sc_depth (sg_cos s t) \<or> t \<in> unsafe then Some (call_suspend l v t s) else None
   | None \<Rightarrow> None)"
| "sig_do unsafe (Yield v) s = (case plain s v of
     Some t \<Rightarrow> if 0 < sc_depth (sg_cos s t) then Some (call_syscall Core_yield t s) else None
   | None \<Rightarrow> None)"
| "sig_do unsafe (Exit v) s = (case plain s v of
     Some t \<Rightarrow> if 0 < sc_depth (sg_cos s t) then Some (call_syscall Core_exit t s) else None
   | None \<Rightarrow> None)"
| "sig_do unsafe (Dispatch v t) s =
     (if sv_pc (sg_vpus s v) = InSched \<and> sc_place (sg_cos s t) = Off
      then Some (at_vpu v (\<lambda>p. (signal_state_load (sg_cos s t) p)\<lparr>sv_pc := Loaded t\<rparr>)
             (at_co t (\<lambda>c. c\<lparr>sc_syscall := False, sc_place := On v\<rparr>) s))
      else None)"
| "sig_do unsafe (Spawn t) s =
     (if sc_place (sg_cos s t) = Unborn then Some (at_co t (\<lambda>_. new_co) s) else None)"

fun sig_run :: "nat set \<Rightarrow> sig_ev list \<Rightarrow> sig_state \<Rightarrow> sig_state option" where
  "sig_run unsafe [] s = Some s"
| "sig_run unsafe (e # es) s =
     (if sg_fault s = None then Option.bind (sig_do unsafe e s) (sig_run unsafe es) else None)"


section \<open>The invariant\<close>

text \<open>The mask each place stands for when no handler is on the stack, given the sections entered.\<close>

fun code_blocked :: "code \<Rightarrow> nat \<Rightarrow> bool" where
  "code_blocked Plain d = (0 < d)"
| "code_blocked Blocking d = False"
| "code_blocked Unblocking d = True"
| "code_blocked (Sys f k) d = True"

fun code_ok :: "code \<Rightarrow> nat \<Rightarrow> bool" where
  "code_ok Plain d = True"
| "code_ok Blocking d = (d = 1)"
| "code_ok Unblocking d = (d = 0)"
| "code_ok (Sys f k) d = (0 < d)"

fun ctl_ok :: "ctl \<Rightarrow> nat \<Rightarrow> bool" where
  "ctl_ok (b, NoFrame) d = code_ok b d"
| "ctl_ok (b, Handler m) d = (code_ok b d \<and> \<not> code_blocked b d \<and> \<not> m)"
| "ctl_ok (b, HandlerSys m k) d = (code_ok b d \<and> \<not> code_blocked b d \<and> \<not> m)"

definition ctl_blocked :: "ctl \<Rightarrow> nat \<Rightarrow> bool" where
  "ctl_blocked c d = (snd c \<noteq> NoFrame \<or> code_blocked (fst c) d)"

text \<open>A coroutine whose context is complete: what a dispatch may rely on.\<close>

definition ctx_ok :: "sig_co \<Rightarrow> bool" where
  "ctx_ok c = (ctl_ok (sc_ctx c) (sc_depth c) \<and> sc_nest c = int (sc_depth c) \<and>
     sc_ctx_blocked c = ctl_blocked (sc_ctx c) (sc_depth c) \<and>
     in_sys (sc_ctx c) \<in> {None, Some TestFlag} \<and> sc_waited c)"

text \<open>How much of the saved state is in place at each place of \<open>vpu_syscall\<close>.\<close>

definition save_ok :: "sig_co \<Rightarrow> bool" where
  "save_ok c = (case in_sys (sc_ctl c) of
     None \<Rightarrow> sc_waited c
   | Some SetFlag \<Rightarrow> True
   | Some SaveNest \<Rightarrow> sc_syscall c
   | Some SaveCtx \<Rightarrow> sc_syscall c \<and> sc_nest c = int (sc_depth c)
   | Some k \<Rightarrow> if sc_syscall c
       then sc_nest c = int (sc_depth c) \<and> sc_ctx c = set_sys TestFlag (sc_ctl c) \<and> sc_ctx_blocked c
       else k = TestFlag \<and> sc_waited c)"

definition run_ok :: "nat \<Rightarrow> sig_vpu \<Rightarrow> sig_co \<Rightarrow> bool" where
  "run_ok t p c = (ctl_ok (sc_ctl c) (sc_depth c) \<and> sv_nest p = int (sc_depth c) \<and>
     sv_blocked p = ctl_blocked (sc_ctl c) (sc_depth c) \<and>
     sv_current p = (if in_sys (sc_ctl c) = Some Switch then None else Some t) \<and>
     (sv_hold p = None) = sc_waited c \<and>
     (\<not> sc_waited c \<longrightarrow> (\<exists>k. sc_ctl c = (Sys Core_wait k, NoFrame))) \<and> save_ok c)"

text \<open>The coroutine in the hands of a thread.\<close>

fun spc_co :: "spc \<Rightarrow> nat option" where
  "spc_co InSched = None"
| "spc_co (Loaded t) = Some t"
| "spc_co (CurSet t) = Some t"
| "spc_co (Running t) = Some t"

definition disp_ok :: "sig_vpu \<Rightarrow> sig_co \<Rightarrow> bool" where
  "disp_ok p c = (sv_blocked p \<and> sv_hold p = None \<and> sv_nest p = int (sc_depth c) \<and>
     ctx_ok c \<and> \<not> sc_syscall c)"

definition vpu_ok :: "sig_vpu \<Rightarrow> (nat \<Rightarrow> sig_co) \<Rightarrow> bool" where
  "vpu_ok p cs = (case sv_pc p of
     InSched \<Rightarrow> sv_blocked p \<and> sv_hold p = None \<and> sv_current p = None
   | Loaded t \<Rightarrow> disp_ok p (cs t) \<and> sv_current p = None
   | CurSet t \<Rightarrow> disp_ok p (cs t) \<and> sv_current p = Some t
   | Running t \<Rightarrow> run_ok t p (cs t))"

definition sig_inv :: "sig_state \<Rightarrow> bool" where
  "sig_inv s \<longleftrightarrow> sg_fault s = None \<and>
     (\<forall>v. vpu_ok (sg_vpus s v) (sg_cos s)) \<and>
     (\<forall>v t. spc_co (sv_pc (sg_vpus s v)) = Some t \<longleftrightarrow> sc_place (sg_cos s t) = On v) \<and>
     (\<forall>t. sc_place (sg_cos s t) = Off \<longrightarrow> ctx_ok (sg_cos s t))"

lemma sig_inv_init: "sig_inv sig_init"
  by (simp add: sig_inv_def sig_init_def new_co_def new_vpu_def vpu_ok_def ctx_ok_def ctl_blocked_def)

text \<open>
  A step touches one thread and one coroutine; the coroutine is in the hands of that thread, or of
  none.  It is enough to look at the two.
\<close>

lemma vpu_ok_other:
  assumes "vpu_ok p cs" "spc_co (sv_pc p) \<noteq> Some t"
  shows "vpu_ok p (cs(t := c))"
  using assms by (auto simp: vpu_ok_def split: spc.splits)

lemma sig_inv_step:
  assumes inv: "sig_inv s"
    and own: "spc_co (sv_pc (sg_vpus s v)) = Some t \<or>
      spc_co (sv_pc (sg_vpus s v)) = None \<and> (\<forall>u. sc_place (sg_cos s t) \<noteq> On u)"
    and v: "vpu_ok p ((sg_cos s)(t := c))"
    and pl: "if spc_co (sv_pc p) = Some t then sc_place c = On v
      else spc_co (sv_pc p) = None \<and> (\<forall>u. sc_place c \<noteq> On u)"
    and off: "sc_place c = Off \<longrightarrow> ctx_ok c"
  shows "sig_inv (at_vpu v (\<lambda>_. p) (at_co t (\<lambda>_. c) s))"
proof -
  have pc: "spc_co (sv_pc (sg_vpus s u)) = Some x \<longleftrightarrow> sc_place (sg_cos s x) = On u" for u x
    using inv by (simp add: sig_inv_def)
  have not_t: "spc_co (sv_pc (sg_vpus s u)) \<noteq> Some t" if "u \<noteq> v" for u
    using own that pc by auto
  have ok: "vpu_ok (sg_vpus s u) ((sg_cos s)(t := c))" if "u \<noteq> v" for u
    using inv not_t [OF that] by (intro vpu_ok_other) (auto simp: sig_inv_def)
  have place: "sc_place (sg_cos s x) = On v \<longrightarrow> x = t" for x
    using own pc [of v x] by auto
  have own': "spc_co (sv_pc (((sg_vpus s)(v := p)) u)) = Some x \<longleftrightarrow>
      sc_place (((sg_cos s)(t := c)) x) = On u" for u x
    using pl pc [of u x] place [of x] not_t [of u] by (auto split: if_splits)
  show ?thesis
    unfolding sig_inv_def sig_upd
    using inv v ok off own' by (auto simp: sig_inv_def)
qed

text \<open>One step of the thread that runs \<open>t\<close>, while it goes on running it.\<close>

lemma sig_inv_running:
  assumes "sig_inv s" "sv_pc (sg_vpus s v) = Running t" "sv_pc p = Running t"
    "sc_place c = On v" "run_ok t p c"
  shows "sig_inv (at_vpu v (\<lambda>_. p) (at_co t (\<lambda>_. c) s))"
  using assms by (intro sig_inv_step) (auto simp: vpu_ok_def)

text \<open>One step that gives \<open>t\<close> back: the thread is in its scheduler again.\<close>

lemma sig_inv_back:
  assumes "sig_inv s" "sv_pc (sg_vpus s v) = Running t" "sv_pc p = InSched"
    "sv_blocked p" "sv_hold p = None" "sv_current p = None"
    "sc_place c = Off \<and> ctx_ok c \<or> sc_place c = Exited"
  shows "sig_inv (at_vpu v (\<lambda>_. p) (at_co t (\<lambda>_. c) s))"
  using assms by (intro sig_inv_step) (auto simp: vpu_ok_def)

lemma sig_inv_place:
  assumes "sig_inv s" "spc_co (sv_pc (sg_vpus s v)) = Some t"
  shows "sc_place (sg_cos s t) = On v"
  using assms by (simp add: sig_inv_def)

lemma sig_inv_vpu: "sig_inv s \<Longrightarrow> vpu_ok (sg_vpus s v) (sg_cos s)"
  by (simp add: sig_inv_def)

lemma sig_inv_Running:
  assumes "sig_inv s" "sv_pc (sg_vpus s v) = Running t"
  shows "run_ok t (sg_vpus s v) (sg_cos s t)" "sc_place (sg_cos s t) = On v"
  using assms by (auto simp: sig_inv_def vpu_ok_def split: spc.splits) (metis spc_co.simps(4))

text \<open>Every update of the model is one of the form the lemmas above have.\<close>

lemma upd_form:
  "at_vpu v f (at_co t g s) = at_vpu v (\<lambda>_. f (sg_vpus s v)) (at_co t (\<lambda>_. g (sg_cos s t)) s)"
  "at_co t g s = at_vpu v (\<lambda>_. sg_vpus s v) (at_co t (\<lambda>_. g (sg_cos s t)) s)"
  "at_vpu v f s = at_vpu v (\<lambda>_. f (sg_vpus s v)) (at_co t (\<lambda>_. sg_cos s t) s)"
  "at_vpu v f (at_vpu v h s) = at_vpu v (f \<circ> h) s"
  by (simp_all add: sig_upd)

section \<open>Preservation\<close>

lemma plain_running:
  assumes "plain s v = Some t"
  shows "sv_pc (sg_vpus s v) = Running t" "sc_ctl (sg_cos s t) = (Plain, NoFrame)"
  using assms by (auto simp: plain_def split: spc.splits if_splits)

lemmas run_simps = run_ok_def save_ok_def ctl_blocked_def

text \<open>The four calls a coroutine makes from its own code.\<close>

lemma inv_mask:
  assumes inv: "sig_inv s" and pl: "plain s v = Some t"
  shows "sig_inv (call_mask v t s)"
  unfolding call_mask_def signal_mask_def Let_def prod.case
  by (subst upd_form(1), rule sig_inv_running [OF inv plain_running(1) [OF pl]])
    (use sig_inv_Running [OF inv plain_running(1) [OF pl]] plain_running [OF pl]
      in \<open>auto simp: run_simps\<close>)

lemma inv_unmask:
  assumes inv: "sig_inv s" and pl: "plain s v = Some t" and d: "0 < sc_depth (sg_cos s t)"
  shows "sig_inv (call_unmask v t s)"
  unfolding call_unmask_def signal_unmask_def Let_def prod.case
  by (subst upd_form(1), rule sig_inv_running [OF inv plain_running(1) [OF pl]])
    (use sig_inv_Running [OF inv plain_running(1) [OF pl]] plain_running [OF pl] d
      in \<open>auto simp: run_simps of_nat_diff\<close>)

lemma inv_suspend:
  assumes inv: "sig_inv s" and pl: "plain s v = Some t" and d: "0 < sc_depth (sg_cos s t)"
  shows "sig_inv (call_suspend l v t s)"
  unfolding call_suspend_def
  by (subst upd_form(1), rule sig_inv_running [OF inv plain_running(1) [OF pl]])
    (use sig_inv_Running [OF inv plain_running(1) [OF pl]] plain_running [OF pl] d
      in \<open>auto simp: run_simps\<close>)

lemma inv_syscall:
  assumes inv: "sig_inv s" and pl: "plain s v = Some t" and d: "0 < sc_depth (sg_cos s t)"
  shows "sig_inv (call_syscall f t s)"
  unfolding call_syscall_def
  by (subst upd_form(2) [of t _ s v], rule sig_inv_running [OF inv plain_running(1) [OF pl]])
    (use sig_inv_Running [OF inv plain_running(1) [OF pl]] plain_running [OF pl] d
      in \<open>auto simp: run_simps\<close>)

text \<open>The accesses of \<open>vpu_syscall\<close>.\<close>

lemma in_sys_cases:
  assumes "in_sys c = Some k"
  obtains (own) f where "c = (Sys f k, NoFrame)" | (handler) b m where "c = (b, HandlerSys m k)"
  using assms by (cases c rule: in_sys.cases) auto

lemma inv_sys_run:
  assumes inv: "sig_inv s" and r: "sv_pc (sg_vpus s v) = Running t"
    and k: "in_sys (sc_ctl (sg_cos s t)) = Some k" "k \<noteq> Switch"
  shows "sig_inv (syscall_step v t k s)"
proof -
  note ok = sig_inv_Running [OF inv r]
  have "run_ok t (sg_vpus (syscall_step v t k s) v) (sg_cos (syscall_step v t k s) t)"
    using ok(1) k(2) by (cases rule: in_sys_cases [OF k(1)]; cases k)
      (auto simp: run_simps syscall_step_def sig_upd signal_state_save_def Let_def split: if_splits)
  moreover have "sv_pc (sg_vpus (syscall_step v t k s) v) = Running t"
    "sc_place (sg_cos (syscall_step v t k s) t) = On v"
    using ok r k(2) by (cases k; simp add: syscall_step_def sig_upd signal_state_save_def Let_def)+
  moreover have "syscall_step v t k s =
    at_vpu v (\<lambda>_. sg_vpus (syscall_step v t k s) v) (at_co t (\<lambda>_. sg_cos (syscall_step v t k s) t) s)"
    using k(2) by (cases k) (simp_all add: syscall_step_def sig_upd signal_state_save_def Let_def)
  ultimately show ?thesis using sig_inv_running [OF inv r] by metis
qed

lemma inv_sys_switch:
  assumes inv: "sig_inv s" and r: "sv_pc (sg_vpus s v) = Running t"
    and k: "in_sys (sc_ctl (sg_cos s t)) = Some Switch"
  shows "sig_inv (syscall_step v t Switch s)"
proof -
  note ok = sig_inv_Running [OF inv r]
  let ?s = "syscall_step v t Switch s"
  have "sc_place (sg_cos ?s t) = Off \<and> ctx_ok (sg_cos ?s t) \<or> sc_place (sg_cos ?s t) = Exited"
    using ok(1) by (cases rule: in_sys_cases [OF k]; cases "sys_pfn (sc_ctl (sg_cos s t))")
      (auto simp: run_simps ctx_ok_def syscall_step_def sig_upd Let_def split: if_splits)
  moreover have "sv_pc (sg_vpus ?s v) = InSched \<and> sv_blocked (sg_vpus ?s v) \<and>
      sv_hold (sg_vpus ?s v) = None \<and> sv_current (sg_vpus ?s v) = None"
    using ok(1) k by (cases rule: in_sys_cases [OF k]; cases "sys_pfn (sc_ctl (sg_cos s t))")
      (auto simp: run_simps syscall_step_def sig_upd Let_def split: if_splits)
  moreover have "?s = at_vpu v (\<lambda>_. sg_vpus ?s v) (at_co t (\<lambda>_. sg_cos ?s t) s)"
    by (cases "sys_pfn (sc_ctl (sg_cos s t))") (simp_all add: syscall_step_def sig_upd Let_def)
  ultimately show ?thesis using sig_inv_back [OF inv r] by metis
qed

text \<open>The rest of a macro and the return from the handler.\<close>

lemma inv_code:
  assumes inv: "sig_inv s" and r: "sv_pc (sg_vpus s v) = Running t"
    and c: "sc_ctl (sg_cos s t) = (b, f)"
    and ctl: "(b, f, m) = (Blocking, NoFrame, True) \<and> b' = Plain \<or>
      (b, f, m) = (Unblocking, NoFrame, False) \<and> b' = Plain \<or> f = Handler m \<and> b' = b"
  shows "sig_inv (at_vpu v (\<lambda>p. p\<lparr>sv_blocked := m\<rparr>) (at_co t (\<lambda>c. c\<lparr>sc_ctl := (b', NoFrame)\<rparr>) s))"
proof -
  note ok = sig_inv_Running [OF inv r]
  have "run_ok t ((sg_vpus s v)\<lparr>sv_blocked := m\<rparr>) ((sg_cos s t)\<lparr>sc_ctl := (b', NoFrame)\<rparr>)"
    using ok(1) c ctl by (cases b) (auto simp: run_simps)
  then show ?thesis
    by (subst upd_form(1)) (rule sig_inv_running [OF inv r], use r ok in simp_all)
qed

text \<open>The dispatch of a coroutine: nesting level, \<open>current\<close>, context.\<close>

lemma inv_dispatch:
  assumes inv: "sig_inv s" and d: "sig_do U (Dispatch v t) s = Some s'"
  shows "sig_inv s'"
proof -
  have v: "sv_pc (sg_vpus s v) = InSched" and t: "sc_place (sg_cos s t) = Off"
    using d by (auto split: if_splits)
  have ok: "vpu_ok (sg_vpus s v) (sg_cos s)" "ctx_ok (sg_cos s t)"
    using inv t by (auto simp: sig_inv_def)
  have "sig_inv (at_vpu v (\<lambda>_. (signal_state_load (sg_cos s t) (sg_vpus s v))\<lparr>sv_pc := Loaded t\<rparr>)
      (at_co t (\<lambda>_. (sg_cos s t)\<lparr>sc_syscall := False, sc_place := On v\<rparr>) s))"
    by (rule sig_inv_step [OF inv])
      (use v t ok in \<open>simp_all add: vpu_ok_def disp_ok_def signal_state_load_def ctx_ok_def\<close>)
  then show ?thesis using d v t by (simp add: sig_upd)
qed

lemma inv_loaded:
  assumes inv: "sig_inv s" and v: "sv_pc (sg_vpus s v) = Loaded t"
  shows "sig_inv (at_vpu v (\<lambda>p. p\<lparr>sv_current := Some t, sv_pc := CurSet t\<rparr>) s)"
proof -
  have ok: "vpu_ok (sg_vpus s v) (sg_cos s)" "sc_place (sg_cos s t) = On v"
    using sig_inv_vpu [OF inv] sig_inv_place [OF inv] v by simp_all
  show ?thesis
    by (subst upd_form(3) [of v _ s t], rule sig_inv_step [OF inv])
      (use v ok in \<open>simp_all add: vpu_ok_def disp_ok_def\<close>)
qed

lemma inv_resume:
  assumes inv: "sig_inv s" and v: "sv_pc (sg_vpus s v) = CurSet t"
  shows "sig_inv (at_vpu v (\<lambda>p. p\<lparr>sv_blocked := sc_ctx_blocked (sg_cos s t), sv_pc := Running t\<rparr>)
    (at_co t (\<lambda>c. c\<lparr>sc_ctl := sc_ctx c\<rparr>) s))"
proof -
  have ok: "vpu_ok (sg_vpus s v) (sg_cos s)" "sc_place (sg_cos s t) = On v"
    using sig_inv_vpu [OF inv] sig_inv_place [OF inv] v by simp_all
  then have "run_ok t ((sg_vpus s v)\<lparr>sv_blocked := sc_ctx_blocked (sg_cos s t), sv_pc := Running t\<rparr>)
      ((sg_cos s t)\<lparr>sc_ctl := sc_ctx (sg_cos s t)\<rparr>)"
    using v by (auto simp: vpu_ok_def disp_ok_def ctx_ok_def run_simps)
  then show ?thesis
    by (subst upd_form(1), intro sig_inv_step [OF inv]) (use v ok(2) in \<open>simp_all add: vpu_ok_def\<close>)
qed

lemma inv_advance:
  assumes inv: "sig_inv s" and a: "advance v s = Some s'"
  shows "sig_inv s'"
proof (cases "sv_pc (sg_vpus s v)")
  case InSched
  then show ?thesis using a by (simp add: advance_def)
next
  case (Loaded t)
  then show ?thesis using a inv_loaded [OF inv Loaded] by (simp add: advance_def)
next
  case (CurSet t)
  then show ?thesis using a inv_resume [OF inv CurSet] by (simp add: advance_def Let_def)
next
  case (Running t)
  show ?thesis
  proof (cases "in_sys (sc_ctl (sg_cos s t))")
    case (Some k)
    then have "s' = syscall_step v t k s" using a Running by (simp add: advance_def Let_def)
    then show ?thesis
      using inv_sys_run [OF inv Running Some] inv_sys_switch [OF inv Running] Some by (cases "k = Switch") auto
  next
    case None
    obtain b f where c: "sc_ctl (sg_cos s t) = (b, f)" by fastforce
    show ?thesis
      using a Running None c
      by (auto simp: advance_def Let_def split: code.splits hframe.splits
        intro!: inv_code [OF inv Running c])
  qed
qed

text \<open>The signal: never in the scheduler, never inside a masked section.\<close>

lemma inv_tick:
  assumes inv: "sig_inv s" and a: "clock_tick v s = Some s'"
  shows "sig_inv s'"
    "\<exists>t. sv_pc (sg_vpus s v) = Running t \<and> snd (sc_ctl (sg_cos s t)) = NoFrame \<and>
       (sc_depth (sg_cos s t) = 0 \<and> fst (sc_ctl (sg_cos s t)) = Plain \<or> fst (sc_ctl (sg_cos s t)) = Blocking)"
proof -
  have ub: "\<not> sv_blocked (sg_vpus s v)" using a by (auto simp: clock_tick_def Let_def split: if_splits)
  have "vpu_ok (sg_vpus s v) (sg_cos s)" using inv by (simp add: sig_inv_def)
  then obtain t where r: "sv_pc (sg_vpus s v) = Running t"
    using ub by (auto simp: vpu_ok_def disp_ok_def split: spc.splits)
  note ok = sig_inv_Running [OF inv r]
  obtain b f where c: "sc_ctl (sg_cos s t) = (b, f)" by fastforce
  have f: "f = NoFrame" and nb: "\<not> code_blocked b (sc_depth (sg_cos s t))"
    using ok(1) ub c by (auto simp: run_simps)
  have b: "sc_depth (sg_cos s t) = 0 \<and> b = Plain \<or> b = Blocking" using nb by (cases b) auto
  have cur: "sv_current (sg_vpus s v) = Some t" using ok(1) c b f by (auto simp: run_ok_def)
  show "\<exists>t. sv_pc (sg_vpus s v) = Running t \<and> snd (sc_ctl (sg_cos s t)) = NoFrame \<and>
       (sc_depth (sg_cos s t) = 0 \<and> fst (sc_ctl (sg_cos s t)) = Plain \<or> fst (sc_ctl (sg_cos s t)) = Blocking)"
    using r c f b by simp
  have "run_ok t ((sg_vpus s v)\<lparr>sv_watchdog := w, sv_blocked := True\<rparr>) ((sg_cos s t)\<lparr>sc_ctl := (b, h)\<rparr>)"
    if "h = Handler False \<or> h = HandlerSys False SetFlag" for w h
    using ok(1) c f nb that b by (auto simp: run_simps)
  then show "sig_inv s'"
    using a ub cur r c by (simp add: clock_tick_def Let_def, subst (asm) upd_form(1))
      (auto intro!: sig_inv_running [OF inv r] simp: ok)
qed

lemma inv_spawn:
  assumes inv: "sig_inv s" and t: "sc_place (sg_cos s t) = Unborn"
  shows "sig_inv (at_co t (\<lambda>_. new_co) s)"
proof -
  have nt: "spc_co (sv_pc (sg_vpus s u)) \<noteq> Some t" for u
    using inv t by (metis place.distinct(3) sig_inv_def)
  have ok: "vpu_ok (sg_vpus s u) ((sg_cos s)(t := new_co))" for u
    using inv nt by (intro vpu_ok_other) (auto simp: sig_inv_def)
  have new: "ctx_ok new_co" "sc_place new_co = Off"
    by (simp_all add: new_co_def ctx_ok_def ctl_blocked_def)
  show ?thesis
    using inv ok nt new t by (auto simp: sig_inv_def sig_upd)
qed

lemma sig_inv_do:
  assumes inv: "sig_inv s" and d: "sig_do {} e s = Some s'"
  shows "sig_inv s'"
proof (cases e)
  case (Dispatch v t)
  then show ?thesis using inv_dispatch [OF inv] d by blast
qed (use d inv in \<open>auto intro: inv_advance inv_tick inv_mask inv_unmask inv_suspend inv_syscall inv_spawn
       split: option.splits if_splits\<close>)

lemma sig_inv_run:
  assumes "sig_inv s" "sig_run {} es s = Some s'"
  shows "sig_inv s'"
  using assms
proof (induction es arbitrary: s)
  case (Cons e es)
  then show ?case by (auto simp: bind_eq_Some_conv split: if_splits dest: sig_inv_do)
qed simp

section \<open>What the masks achieve\<close>

text \<open>
  Claim C6. On every VPU and in every interleaving, as long as \<open>vpu_suspend\<close> is called inside a
  masked section: the assertion of \<open>vpu_clock_handler\<close> never fails and the handler never runs on the
  scheduler's stack; and a thread that lets the clock signal in is running a
  coroutine that is not inside any masked section (at most before the \<open>sigprocmask\<close> of
  \<open>TSC_SIGNAL_MASK\<close>), not inside \<open>vpu_syscall\<close> and not inside the handler.
\<close>

theorem clock_signal_safe:
  assumes "sig_run {} es sig_init = Some s"
  shows "sg_fault s = None \<and>
    (\<forall>v. sv_blocked (sg_vpus s v) \<or>
      (\<exists>t. sv_pc (sg_vpus s v) = Running t \<and> sv_current (sg_vpus s v) = Some t \<and>
        (sc_ctl (sg_cos s t) = (Plain, NoFrame) \<and> sc_depth (sg_cos s t) = 0 \<or>
         sc_ctl (sg_cos s t) = (Blocking, NoFrame))))"
proof (intro conjI allI)
  have inv: "sig_inv s" using sig_inv_run [OF sig_inv_init assms] .
  then show f: "sg_fault s = None" by (simp add: sig_inv_def)
  fix v
  show "sv_blocked (sg_vpus s v) \<or>
      (\<exists>t. sv_pc (sg_vpus s v) = Running t \<and> sv_current (sg_vpus s v) = Some t \<and>
        (sc_ctl (sg_cos s t) = (Plain, NoFrame) \<and> sc_depth (sg_cos s t) = 0 \<or>
         sc_ctl (sg_cos s t) = (Blocking, NoFrame)))"
  proof (cases "clock_tick v s")
    case None
    then show ?thesis by (auto simp: clock_tick_def Let_def split: if_splits spc.splits)
  next
    case (Some s')
    from inv_tick(2) [OF inv Some] obtain t where t: "sv_pc (sg_vpus s v) = Running t"
      "snd (sc_ctl (sg_cos s t)) = NoFrame"
      "sc_depth (sg_cos s t) = 0 \<and> fst (sc_ctl (sg_cos s t)) = Plain \<or> fst (sc_ctl (sg_cos s t)) = Blocking"
      by blast
    moreover have "sv_current (sg_vpus s v) = Some t"
      using sig_inv_Running(1) [OF inv t(1)] t(2,3)
      by (cases "sc_ctl (sg_cos s t)") (auto simp: run_ok_def)
    ultimately show ?thesis by (cases "sc_ctl (sg_cos s t)") auto
  qed
qed

text \<open>A run that enters a masked section, suspends, and goes on on another VPU.\<close>

definition sig_demo :: "sig_ev list" where
  "sig_demo = [Dispatch 0 0, Advance 0, Advance 0, Tick 0, Advance 0, Mask 0, Advance 0, Suspend 0 7] @
     replicate 6 (Advance 0) @ [Dispatch 1 0] @ replicate 3 (Advance 1)"

lemmas sig_eval = sig_init_def new_co_def new_vpu_def advance_def clock_tick_def syscall_step_def
  call_mask_def call_unmask_def call_suspend_def call_syscall_def plain_def sig_upd signal_mask_def
  signal_unmask_def signal_state_save_def signal_state_load_def TSC_RESCHED_THRESHOLD_def Let_def
  numeral_eq_Suc

lemma sig_demo_runs: "\<exists>s. sig_run {} sig_demo sig_init = Some s"
  by (simp add: sig_demo_def sig_eval)

text \<open>The run of the claim above exists and ends with the signal blocked on the second VPU.\<close>

theorem clock_signal_safe_witness:
  "sg_fault (the (sig_run {} sig_demo sig_init)) = None"
  using clock_signal_safe [of sig_demo "the (sig_run {} sig_demo sig_init)"] sig_demo_runs by auto

text \<open>
  Claim C7. The contract of the masks and of \<open>vpu_suspend\<close>, with the signal arriving anywhere it is not
  blocked and coroutines moving between VPUs: whenever a coroutine runs its own code, the nesting level
  of its thread is the number of masked sections it is in, the signal is blocked exactly when
  there is one, and its last \<open>vpu_suspend\<close> returned only after \<open>core_wait\<close> had released the lock it
  was given; no lock is left in \<open>hold\<close> for another suspension to overwrite.
\<close>

theorem masked_sections_kept:
  assumes "sig_run {} es sig_init = Some s" "plain s v = Some t"
  shows "sv_nest (sg_vpus s v) = int (sc_depth (sg_cos s t)) \<and>
    (sv_blocked (sg_vpus s v) \<longleftrightarrow> 0 < sc_depth (sg_cos s t)) \<and>
    sc_waited (sg_cos s t) \<and> sv_hold (sg_vpus s v) = None"
  using sig_inv_Running(1) [OF sig_inv_run [OF sig_inv_init assms(1)] plain_running(1) [OF assms(2)]]
    plain_running(2) [OF assms(2)]
  by (auto simp: run_simps)

theorem masked_sections_kept_witness:
  "sv_nest (sg_vpus (the (sig_run {} sig_demo sig_init)) 1) = 1"
proof -
  have p: "plain (the (sig_run {} sig_demo sig_init)) 1 = Some 0"
    "sc_depth (sg_cos (the (sig_run {} sig_demo sig_init)) 0) = 1"
    by (simp_all add: sig_demo_def sig_eval)
  show ?thesis
    using masked_sections_kept [of sig_demo "the (sig_run {} sig_demo sig_init)" 1 0] p sig_demo_runs by auto
qed

text \<open>
  Nothing stops a suspension inside a masked section, and the way back is as direct: six accesses of
  \<open>vpu_syscall\<close> leave the thread in its scheduler with the lock released; whichever thread picks the
  coroutine up is, three accesses after the dispatch, in the coroutine's code again, with the
  nesting level and the mask the coroutine had.
\<close>

lemma suspend_migrates:
  assumes "sig_inv s" "plain s v = Some t" "0 < sc_depth (sg_cos s t)"
    and "u = v \<or> sv_pc (sg_vpus s u) = InSched"
  shows "\<exists>s'. sig_run {} (Suspend v l # replicate 6 (Advance v) @ Dispatch u t # replicate 3 (Advance u)) s = Some s' \<and>
    plain s' u = Some t \<and> sv_nest (sg_vpus s' u) = sv_nest (sg_vpus s v) \<and> sv_blocked (sg_vpus s' u) \<and>
    sv_hold (sg_vpus s' v) = None \<and> (u \<noteq> v \<longrightarrow> sv_pc (sg_vpus s' v) = InSched)"
proof -
  note ok = sig_inv_Running [OF assms(1) plain_running(1) [OF assms(2)]]
  note pl = plain_running [OF assms(2)]
  have f: "sg_fault s = None" using assms(1) by (simp add: sig_inv_def)
  have b: "sv_blocked (sg_vpus s v)" using ok(1) pl assms(3) by (simp add: run_simps)
  show ?thesis
    using assms(3,4) f b pl ok(2) by (cases "u = v") (simp_all add: sig_eval)
qed

text \<open>
  Claim C19. One coroutine that calls \<open>vpu_suspend\<close> outside every masked section, as
  \<open>coroc_group_sync\<close> does, is enough to lose both: there is a run in which the
  assertion of the clock handler fails, since the signal arrives between the assignment of
  \<open>current\<close> and the switch; and one in which \<open>vpu_suspend\<close> returns although \<open>core_wait\<close> never ran, with the
  lock it was given still held, since the yield of the handler cleared the flag \<open>syscall\<close>.
\<close>

theorem unmasked_suspend_fails:
  "(\<exists>es s. sig_run {0} es sig_init = Some s \<and> sg_fault s = Some HandlerAssert) \<and>
   (\<exists>es s. sig_run {0} es sig_init = Some s \<and> plain s 0 = Some 0 \<and>
      \<not> sc_waited (sg_cos s 0) \<and> sv_hold (sg_vpus s 0) = Some 7)"
proof
  let ?start = "[Dispatch 0 0, Advance 0, Advance 0]"
  let ?es = "?start @ [Suspend 0 7] @ replicate 5 (Advance 0) @ [Tick 0]"
  have "\<exists>s. sig_run {0} ?es sig_init = Some s \<and> sg_fault s = Some HandlerAssert"
    by (simp add: sig_eval)
  then show "\<exists>es s. sig_run {0} es sig_init = Some s \<and> sg_fault s = Some HandlerAssert" by blast
  let ?es = "?start @ concat (replicate 5 [Tick 0, Advance 0]) @ [Suspend 0 7, Advance 0, Tick 0] @
    replicate 6 (Advance 0) @ [Dispatch 0 0] @ replicate 7 (Advance 0)"
  have "\<exists>s. sig_run {0} ?es sig_init = Some s \<and> plain s 0 = Some 0 \<and>
      \<not> sc_waited (sg_cos s 0) \<and> sv_hold (sg_vpus s 0) = Some 7"
    by (simp add: sig_eval)
  then show "\<exists>es s. sig_run {0} es sig_init = Some s \<and> plain s 0 = Some 0 \<and>
      \<not> sc_waited (sg_cos s 0) \<and> sv_hold (sg_vpus s 0) = Some 7" by blast
qed

end
