(* ===== verification/Atomics.thy ===== *)
theory Atomics
  imports Prelude
begin

text \<open>
  The atomic operations of \<open>src/include/inter/support.h\<close>.  Where the compiler has no atomic exchange
  and no atomic store, \<open>TSC_XCHG\<close> and \<open>TSC_ATOMIC_WRITE\<close> are loops around \<open>TSC_CAS\<close>.  The theories
  of the locks and of the run queues take both as single steps; here the loops are taken
  apart into their reads and compare-and-swaps, with any number of threads in them at once and
  other writers of the word in between, and shown to implement the single step.  Also
  here: the number of processors, the busy wait of the locks and the test that chooses the
  loops.
\<close>

section \<open>The loops\<close>

text \<open>\<open>TSC_CAS\<close>, one access: the new content of the word and whether it was swapped.\<close>

definition TSC_CAS :: "u32 \<Rightarrow> u32 \<Rightarrow> u32 \<Rightarrow> u32 \<times> bool" where
  "TSC_CAS m old new = (if m = old then (new, True) else (m, False))"

text \<open>
  A thread outside the loops (with the value its last exchange gave), before the read of the
  word, and before the compare-and-swap with the value it read.
\<close>

datatype xop = Xchg | Write

datatype xpc = XIdle "u32 option" | XRead xop u32 | XCas xop u32 u32

record xstate =
  x_mem :: u32
  x_thr :: "nat \<Rightarrow> xpc"

datatype xev = Call nat xop u32 | Go nat | Other u32

text \<open>An exchange gives the old value, a store nothing.\<close>

fun xres :: "xop \<Rightarrow> u32 \<Rightarrow> u32 option" where
  "xres Xchg old = Some old"
| "xres Write old = None"

definition xloop :: "nat \<Rightarrow> xstate \<Rightarrow> xstate option" where
  "xloop i s = (case x_thr s i of
     XIdle r \<Rightarrow> None
   | XRead f new \<Rightarrow> Some (s\<lparr>x_thr := (x_thr s)(i := XCas f new (x_mem s))\<rparr>)
   | XCas f new old \<Rightarrow> (let (m, ok) = TSC_CAS (x_mem s) old new in
       Some (s\<lparr>x_mem := m, x_thr := (x_thr s)(i := if ok then XIdle (xres f old) else XRead f new)\<rparr>)))"

fun xdo :: "xev \<Rightarrow> xstate \<Rightarrow> xstate option" where
  "xdo (Call i f new) s = (case x_thr s i of
     XIdle r \<Rightarrow> Some (s\<lparr>x_thr := (x_thr s)(i := XRead f new)\<rparr>) | _ \<Rightarrow> None)"
| "xdo (Go i) s = xloop i s"
| "xdo (Other m) s = Some (s\<lparr>x_mem := m\<rparr>)"

fun xrun :: "xev list \<Rightarrow> xstate \<Rightarrow> xstate option" where
  "xrun [] s = Some s"
| "xrun (e # es) s = Option.bind (xdo e s) (xrun es)"

definition xinit :: "u32 \<Rightarrow> xstate" where
  "xinit m = \<lparr>x_mem = m, x_thr = (\<lambda>_. XIdle None)\<rparr>"

section \<open>The operation they implement\<close>

text \<open>
  \<open>__atomic_exchange_n\<close> and \<open>__atomic_store_n\<close>: a call is pending until one single step puts the new
  value in place and gives the old one.
\<close>

datatype apc = AIdle "u32 option" | APending xop u32

record astate =
  a_mem :: u32
  a_thr :: "nat \<Rightarrow> apc"

datatype aev = ACall nat xop u32 | AAtomic nat | AOther u32

fun ado :: "aev \<Rightarrow> astate \<Rightarrow> astate option" where
  "ado (ACall i f new) s = (case a_thr s i of
     AIdle r \<Rightarrow> Some (s\<lparr>a_thr := (a_thr s)(i := APending f new)\<rparr>) | _ \<Rightarrow> None)"
| "ado (AAtomic i) s = (case a_thr s i of
     APending f new \<Rightarrow> Some (s\<lparr>a_mem := new, a_thr := (a_thr s)(i := AIdle (xres f (a_mem s)))\<rparr>)
   | _ \<Rightarrow> None)"
| "ado (AOther m) s = Some (s\<lparr>a_mem := m\<rparr>)"

fun arun :: "aev list \<Rightarrow> astate \<Rightarrow> astate option" where
  "arun [] s = Some s"
| "arun (e # es) s = Option.bind (ado e s) (arun es)"

fun abs_pc :: "xpc \<Rightarrow> apc" where
  "abs_pc (XIdle r) = AIdle r"
| "abs_pc (XRead f new) = APending f new"
| "abs_pc (XCas f new old) = APending f new"

definition abs_x :: "xstate \<Rightarrow> astate" where
  "abs_x s = \<lparr>a_mem = x_mem s, a_thr = abs_pc \<circ> x_thr s\<rparr>"

text \<open>The step of the operation that a step of the loop stands for: only a swap that succeeds has one.\<close>

fun lin_ev :: "xev \<Rightarrow> xstate \<Rightarrow> aev list" where
  "lin_ev (Call i f new) s = [ACall i f new]"
| "lin_ev (Go i) s = (case x_thr s i of
     XCas f new old \<Rightarrow> if x_mem s = old then [AAtomic i] else [] | _ \<Rightarrow> [])"
| "lin_ev (Other m) s = [AOther m]"

fun lin :: "xev list \<Rightarrow> xstate \<Rightarrow> aev list" where
  "lin [] s = []"
| "lin (e # es) s = lin_ev e s @ (case xdo e s of Some s' \<Rightarrow> lin es s' | None \<Rightarrow> [])"

lemma arun_append: "arun (as @ bs) s = Option.bind (arun as s) (arun bs)"
  by (induction as arbitrary: s) (auto split: bind_splits)

lemma lin_step:
  assumes "xdo e s = Some s'"
  shows "arun (lin_ev e s) (abs_x s) = Some (abs_x s')"
proof (cases e)
  case (Call i f new)
  then show ?thesis using assms by (auto simp: abs_x_def fun_eq_iff split: xpc.splits)
next
  case (Go i)
  then show ?thesis
    using assms by (auto simp: abs_x_def fun_eq_iff xloop_def TSC_CAS_def split: xpc.splits if_splits)
next
  case (Other m)
  then show ?thesis using assms by (auto simp: abs_x_def)
qed

text \<open>
  The loops that stand in for the atomic exchange and the atomic store implement them: every
  run of any number of threads in the loops, with any other writes to the word between their
  accesses, is a run of the single-step operations with the same values in memory and the same values
  returned, in the order in which the compare-and-swaps succeeded.
\<close>

theorem xchg_loop_atomic:
  assumes "xrun es s = Some s'"
  shows "arun (lin es s) (abs_x s) = Some (abs_x s')"
  using assms
proof (induction es arbitrary: s)
  case (Cons e es)
  then obtain s1 where "xdo e s = Some s1" "xrun es s1 = Some s'"
    by (auto simp: bind_eq_Some_conv)
  then show ?case using lin_step Cons.IH by (simp add: arun_append)
qed simp

theorem xchg_loop_atomic_witness:
  "arun [ACall 0 Xchg 1, ACall 1 Xchg 2, AAtomic 1, AAtomic 0] (abs_x (xinit 7)) =
     Some (abs_x \<lparr>x_mem = 1, x_thr = (\<lambda>_. XIdle None)(0 := XIdle (Some 2), 1 := XIdle (Some 7))\<rparr>)"
  using xchg_loop_atomic [of "[Call 0 Xchg 1, Call 1 Xchg 2, Go 0, Go 1, Go 1, Go 0, Go 0, Go 0]" "xinit 7"
    "\<lparr>x_mem = 1, x_thr = (\<lambda>_. XIdle None)(0 := XIdle (Some 2), 1 := XIdle (Some 7))\<rparr>"]
  by (simp add: xinit_def xloop_def TSC_CAS_def fun_upd_twist)

text \<open>
  A thread that is not disturbed leaves the loop after one round, and a round only fails when the word was
  changed after it was read.
\<close>

lemma xloop_undisturbed:
  assumes "x_thr s i = XRead f new"
  shows "xrun [Go i, Go i] s =
    Some (s\<lparr>x_mem := new, x_thr := (x_thr s)(i := XIdle (xres f (x_mem s)))\<rparr>)"
  using assms by (simp add: xloop_def TSC_CAS_def)

lemma xloop_retry:
  assumes "x_thr s i = XCas f new old" "xloop i s = Some s'" "x_thr s' i = XRead f new"
  shows "x_mem s \<noteq> old \<and> x_mem s' = x_mem s"
  using assms by (auto simp: xloop_def TSC_CAS_def split: if_splits)

section \<open>The choice of the loops\<close>

text \<open>
  The test of the preprocessor.  The built-ins came with version 4.7 of the compiler; the minor version is
  compared on its own, so later compilers with a small minor version get the loops too, and with them a
  \<open>TSC_SYNC_ALL\<close> that the processor does not see.
\<close>

definition old_gcc :: "nat \<Rightarrow> nat \<Rightarrow> bool" where
  "old_gcc major minor = (major < 4 \<or> minor < 7)"

lemma old_gcc_exact: "major \<le> 4 \<Longrightarrow> old_gcc major minor \<longleftrightarrow> major < 4 \<or> major = 4 \<and> minor < 7"
  by (auto simp: old_gcc_def)

lemma old_gcc_5: "old_gcc 5 4" "old_gcc 9 3" "\<not> old_gcc 4 9"
  by (simp_all add: old_gcc_def)

section \<open>Processors and busy waiting\<close>

text \<open>
  \<open>TSC_NP_ONLINE\<close> of the systems with \<open>sysctl\<close>: the number it stores, or nothing when it
  fails, which the code does not look at.
\<close>

definition TSC_NP_ONLINE :: "int option \<Rightarrow> c_err + int" where
  "TSC_NP_ONLINE num_cpu = (case num_cpu of None \<Rightarrow> Inl Uninit | Some n \<Rightarrow> Inr (if n \<le> 0 then 1 else n))"

lemma np_online_pos: "TSC_NP_ONLINE num_cpu = Inr n \<Longrightarrow> 1 \<le> n"
  by (auto simp: TSC_NP_ONLINE_def split: option.splits if_splits)

text \<open>The pauses of \<open>__procyield\<close>, whose counter is a 32-bit word.\<close>

lemma unat_next:
  fixes i cnt :: u32
  assumes "i < cnt"
  shows "unat (i + 1) = unat i + 1" "unat i < unat cnt"
proof -
  have l: "unat i < unat cnt" using assms by (simp add: word_less_nat_alt)
  then have "unat i + 1 < 2 ^ 32" using unsigned_less [where ?'a = nat and w = cnt] by simp
  then show "unat (i + 1) = unat i + 1" by (simp add: unat_word_ariths)
  show "unat i < unat cnt" by fact
qed

function procyield_from :: "u32 \<Rightarrow> u32 \<Rightarrow> nat" where
  "procyield_from i cnt = (if i < cnt then Suc (procyield_from (i + 1) cnt) else 0)"
  by auto
termination
  by (relation "measure (\<lambda>(i, cnt). unat cnt - unat i)") (use unat_next in \<open>auto simp: diff_less_mono2\<close>)

definition procyield :: "u32 \<Rightarrow> nat" where
  "procyield cnt = procyield_from 0 cnt"

lemma procyield_count: "procyield cnt = unat cnt"
proof -
  have "procyield_from i cnt = unat cnt - unat i" for i
  proof (induction i cnt rule: procyield_from.induct)
    case (1 i cnt)
    show ?case
    proof (cases "i < cnt")
      case True
      then have "procyield_from (i + 1) cnt = unat cnt - (unat i + 1)"
        using 1 unat_next [OF True] by simp
      then show ?thesis using True unat_next [OF True] by (subst procyield_from.simps) simp
    next
      case False
      then show ?thesis by (subst procyield_from.simps) (simp add: word_less_nat_alt)
    qed
  qed
  then show ?thesis by (simp add: procyield_def)
qed

end
