(* ===== verification/Chan_Runs.thy ===== *)
theory Chan_Runs
  imports Channel_Laws
begin

text \<open>
  Whole runs on one channel: any number of coroutines that send, receive and close, blocking or not, in
  any order, with the rest of the system taking steps in between.  The laws of the single
  operations (\<open>Channel\<close>, \<open>Channel_Laws\<close>) are put together to an invariant of the run and to the
  balance of the values: what was accepted from senders is what receivers got, what was given back to
  senders by a close, and what is still in the channel.

  The steps of the others are described by what the channel relies on (\<open>chan_rely\<close>): they keep
  the invariant of the scheduler, leave the channel alone, and leave the coroutines that wait on it, their
  quanta and the variables the waiting senders send from as they are.  The channel is not used
  in a select and carries plain values.
\<close>

section \<open>What an operation does to the queues\<close>

primrec result :: "chan_out \<Rightarrow> sys" where
  "result (Ret r s) = s"
| "result (Suspended s) = s"

lemma fetch_quantum_rest: "fetch_quantum qs s = (qp, rest, s') \<Longrightarrow> set rest \<subseteq> set qs \<and> chans s' = chans s"
  by (induction qs s rule: fetch_quantum.induct) (auto simp: upd_co_def split: if_splits)

lemma copy_keeps_queues:
  "copy_from ch b m = (ok, ch', m') \<Longrightarrow> recv_que ch' = recv_que ch \<and> send_que ch' = send_que ch \<and> ch_close ch' = ch_close ch"
  "copy_to ch b m = Inr (ok, ch') \<Longrightarrow> recv_que ch' = recv_que ch \<and> send_que ch' = send_que ch \<and> ch_close ch' = ch_close ch"
  by (auto simp: copy_from_def copy_from_buff_def copy_from_mque_def copy_to_def copy_to_buff_def copy_to_mque_def Let_def
      split: chan_handlers.splits if_splits list.splits option.splits prod.splits)

text \<open>The quanta in the queues, and the one a call leaves there when it suspends its coroutine.\<close>

primrec new_quantum :: "addr \<Rightarrow> chan_out \<Rightarrow> addr set" where
  "new_quantum q (Ret r s) = {}"
| "new_quantum q (Suspended s) = {q}"

definition on_queues :: "addr \<Rightarrow> sys \<Rightarrow> addr set" where
  "on_queues c s = set (send_que (chans s c)) \<union> set (recv_que (chans s c))"

lemma block_on_queues:
  assumes "block_on vo c b q add s = Inr out"
  shows "chans (result out) = (chans s)(c := add (chans s c)) \<and> new_quantum q out = {q}"
  using assms by (auto simp: block_on_def andthen_Inr_iff Let_def upd_chan_def upd_quantum_def
      dest!: vpu_suspend_frame split: option.splits)

definition queue_frame :: "addr \<Rightarrow> addr \<Rightarrow> sys \<Rightarrow> chan_out \<Rightarrow> bool" where
  "queue_frame c q s out \<longleftrightarrow> on_queues c (result out) \<subseteq> on_queues c s \<union> new_quantum q out \<and>
     ch_close (chans (result out) c) = ch_close (chans s c)"

lemma send_locked_queues:
  assumes "chan_send_locked vo c b block q s = Inr out"
  shows "queue_frame c q s out"
proof -
  obtain qp rest s1 where f: "fetch_quantum (recv_que (chans s c)) s = (qp, rest, s1)" by (metis prod_cases3)
  note f' = fetch_quantum_rest [OF f]
  let ?s = "upd_chan c (\<lambda>ch. ch\<lparr>recv_que := rest\<rparr>) s1"
  have q0: "on_queues c ?s \<subseteq> on_queues c s" "ch_close (chans ?s c) = ch_close (chans s c)"
    using f' by (auto simp: on_queues_def upd_chan_def)
  show ?thesis
  proof (cases qp)
    case (Some r)
    then obtain s2 where "vpu_ready vo (qm_co (quanta ?s r)) False
        (?s\<lparr>mem := chan_memcpy (qm_itembuf (quanta ?s r)) b (mem ?s)\<rparr>) = Inr s2" "out = Ret CHAN_SUCCESS s2"
      using assms f by (auto simp: chan_send_locked_def Let_def andthen_Inr_iff)
    then show ?thesis using q0 vpu_ready_frame by (fastforce simp: on_queues_def queue_frame_def)
  next
    case None
    show ?thesis
    proof (cases "ch_close (chans ?s c)")
      case True
      then show ?thesis using None assms f q0 by (auto simp: chan_send_locked_def Let_def queue_frame_def)
    next
      case False
      then obtain ok ch where c: "copy_to (chans ?s c) b (mem ?s) = Inr (ok, ch)"
        using None assms f by (auto simp: chan_send_locked_def Let_def andthen_Inr_iff)
      have q1: "on_queues c (upd_chan c (\<lambda>_. ch) ?s) \<subseteq> on_queues c s" "ch_close ch = ch_close (chans s c)"
        using copy_keeps_queues(2) [OF c] q0 by (auto simp: on_queues_def upd_chan_def)
      show ?thesis
        using assms f None False c q1
        by (auto simp: chan_send_locked_def Let_def split: if_splits dest!: block_on_queues)
          (auto simp: on_queues_def upd_chan_def queue_frame_def)
    qed
  qed
qed

lemma recv_locked_queues:
  assumes "chan_recv_locked vo c b block q s = Inr out"
  shows "queue_frame c q s out"
proof -
  obtain ok ch m where c: "copy_from (chans s c) b (mem s) = (ok, ch, m)" by (metis prod_cases3)
  let ?s = "(upd_chan c (\<lambda>_. ch) s)\<lparr>mem := m\<rparr>"
  have q1: "on_queues c ?s = on_queues c s" "ch_close ch = ch_close (chans s c)" using copy_keeps_queues(1) [OF c] by (simp_all add: on_queues_def upd_chan_def)
  obtain qp rest s1 where f: "fetch_quantum (send_que (chans ?s c)) ?s = (qp, rest, s1)" by (metis prod_cases3)
  let ?s1 = "upd_chan c (\<lambda>ch. ch\<lparr>send_que := rest\<rparr>) s1"
  have q0: "on_queues c ?s1 \<subseteq> on_queues c s" "ch_close (chans ?s1 c) = ch_close (chans s c)"
    using fetch_quantum_rest [OF f] copy_keeps_queues(1) [OF c] by (auto simp: on_queues_def upd_chan_def)
  show ?thesis
  proof (cases "\<not> ok \<and> qp \<noteq> None")
    case True
    then obtain r s2 where "vpu_ready vo (qm_co (quanta ?s1 r)) False
        (?s1\<lparr>mem := chan_memcpy b (qm_itembuf (quanta ?s1 r)) (mem ?s1)\<rparr>) = Inr s2" "out = Ret CHAN_SUCCESS s2"
      using assms c f by (auto simp: chan_recv_locked_def Let_def andthen_Inr_iff)
    then show ?thesis using q0 vpu_ready_frame by (fastforce simp: on_queues_def queue_frame_def)
  next
    case False
    then show ?thesis
      using assms c f q0 q1 by (auto simp: chan_recv_locked_def Let_def split: if_splits dest!: block_on_queues)
        (auto simp: on_queues_def upd_chan_def queue_frame_def)
  qed
qed

lemma with_lock_queues:
  assumes "with_chan_lock c f s = Inr out" "\<And>s out. f s = Inr out \<Longrightarrow> queue_frame c q s out"
  shows "queue_frame c q s out"
proof -
  from assms(1) obtain out1 where o1: "f (s\<lparr>locks := (locks s)(c := True)\<rparr>) = Inr out1"
    "(case out1 of Ret r s \<Rightarrow> Inr (Ret r (lock_release_at c s)) | Suspended s \<Rightarrow> Inr (Suspended s)) = (Inr out :: c_err + chan_out)"
    by (auto simp: with_chan_lock_def andthen_Inr_iff lock_acquire_at_def split: if_splits)
  have "on_queues c (result out) = on_queues c (result out1)" "new_quantum q out = new_quantum q out1"
    "ch_close (chans (result out) c) = ch_close (chans (result out1) c)"
    using o1(2) by (cases out1; auto simp: on_queues_def lock_release_at_def)+
  then show ?thesis using assms(2) [OF o1(1)] by (simp add: on_queues_def queue_frame_def)
qed

lemma send_queues: "chan_send vo c b block q s = Inr out \<Longrightarrow> queue_frame c q s out"
  unfolding chan_send_def by (erule with_lock_queues) (rule send_locked_queues)

lemma recv_queues: "chan_recv vo (Some c) b block q s = Inr out \<Longrightarrow> queue_frame c q s out"
  by (simp add: chan_recv_def) (erule with_lock_queues, rule recv_locked_queues)

section \<open>Runs\<close>

text \<open>
  The history of a run: the values accepted from senders, those receivers got, and those given back
  to senders when the channel was closed under them.
\<close>

record chan_hist =
  h_sent :: "elem multiset"
  h_got :: "elem multiset"
  h_back :: "elem multiset"

text \<open>A call that answers \<open>CHAN_CLOSED\<close> or \<open>CHAN_BUSY\<close> has not taken the value.\<close>

fun accepted :: "elem \<Rightarrow> chan_out \<Rightarrow> elem multiset" where
  "accepted x (Ret CHAN_CLOSED s) = {#}"
| "accepted x (Ret CHAN_BUSY s) = {#}"
| "accepted x out = {#x#}"

text \<open>What the first waiting receiver finds in its variable after a send, and the caller after a receive.\<close>

definition handed :: "addr \<Rightarrow> sys \<Rightarrow> sys \<Rightarrow> elem multiset" where
  "handed c s s' = (case waiting_receivers s c of
     [] \<Rightarrow> {#} | r # rs \<Rightarrow> {#mem s' (the (qm_itembuf (quanta s r)))#})"

fun received :: "addr \<Rightarrow> chan_out \<Rightarrow> elem multiset" where
  "received d (Ret CHAN_SUCCESS s) = {#mem s d#}"
| "received d out = {#}"

text \<open>The values of the waiting senders that a close has turned away.\<close>

definition given_back :: "addr \<Rightarrow> sys \<Rightarrow> sys \<Rightarrow> elem multiset" where
  "given_back c s s' = mset (map (sent_value s) (filter (\<lambda>q. qm_close (quanta s' q)) (pending_senders s c)))"

text \<open>What the rest of the system does between the operations on channel \<open>c\<close>.\<close>

definition chan_rely :: "addr \<Rightarrow> sys \<Rightarrow> sys \<Rightarrow> bool" where
  "chan_rely c s s' \<longleftrightarrow> sched_inv s' \<and> chans s' c = chans s c \<and> \<not> locks s' c \<and>
     (\<forall>q\<in>on_queues c s. quanta s' q = quanta s q \<and>
        co_status (cos s' (qm_co (quanta s q))) = co_status (cos s (qm_co (quanta s q))) \<and>
        co_type (cos s' (qm_co (quanta s q))) = co_type (cos s (qm_co (quanta s q)))) \<and>
     (\<forall>q\<in>set (send_que (chans s c)). sent_value s' q = sent_value s q)"

text \<open>
  The caller runs on VPU \<open>v\<close>; \<open>q\<close>, the quantum of a call that blocks, is a variable of the call and so
  is not one of the quanta in the queues; the variable \<open>d\<close> of a receiver is not one that a waiting sender sends from.
\<close>

inductive chan_step :: "addr \<Rightarrow> sys \<times> chan_hist \<Rightarrow> sys \<times> chan_hist \<Rightarrow> bool" for c where
  send: "\<lbrakk>v < xt_index s; running s v = Some self; q \<notin> on_queues c s;
      chan_send (Some v) c (Some b) block q s = Inr out\<rbrakk> \<Longrightarrow>
    chan_step c (s, h) (result out, h\<lparr>h_sent := h_sent h + accepted (mem s b) out, h_got := h_got h + handed c s (result out)\<rparr>)"
| recv: "\<lbrakk>v < xt_index s; running s v = Some self; q \<notin> on_queues c s;
      Some d \<notin> (\<lambda>q. qm_itembuf (quanta s q)) ` set (send_que (chans s c));
      chan_recv (Some v) (Some c) (Some d) block q s = Inr out\<rbrakk> \<Longrightarrow>
    chan_step c (s, h) (result out, h\<lparr>h_got := h_got h + received d out\<rparr>)"
| close: "\<lbrakk>v < xt_index s; running s v = Some self; \<not> ch_isref (chans s c); chan_close (Some v) c s = Inr (r, s')\<rbrakk> \<Longrightarrow>
    chan_step c (s, h) (s', h\<lparr>h_back := h_back h + given_back c s s'\<rparr>)"
| others: "chan_rely c s s' \<Longrightarrow> chan_step c (s, h) (s', h)"

definition chan_run_inv :: "addr \<Rightarrow> sys \<times> chan_hist \<Rightarrow> bool" where
  "chan_run_inv c x = (case x of (s, h) \<Rightarrow>
     sched_inv s \<and> chan_ok s c \<and> \<not> locks s c \<and> (\<forall>q\<in>on_queues c s. \<not> qm_select (quanta s q)) \<and>
     (waiting_receivers s c \<noteq> [] \<longrightarrow> pipe s c = []) \<and> (ch_close (chans s c) \<longrightarrow> on_queues c s = {}) \<and>
     h_sent h = h_got h + h_back h + mset (pipe s c))"

lemma queues_live:
  assumes "\<forall>q\<in>on_queues c s. \<not> qm_select (quanta s q)"
  shows "pending_senders s c = send_que (chans s c)" "waiting_receivers s c = recv_que (chans s c)"
  using assms by (simp_all add: pending_senders_def waiting_receivers_def on_queues_def live_def filter_id_conv)

text \<open>A running coroutine is not among those that wait.\<close>

lemma self_not_queued:
  assumes inv: "sched_inv s" "chan_ok s c" "\<forall>q\<in>on_queues c s. \<not> qm_select (quanta s q)"
    and v: "v < xt_index s" "running s v = Some self"
  shows "self \<notin> (\<lambda>x. qm_co (quanta s x)) ` on_queues c s"
proof
  assume "self \<in> (\<lambda>x. qm_co (quanta s x)) ` on_queues c s"
  then obtain x where x: "x \<in> on_queues c s" "self = qm_co (quanta s x)" by blast
  then have "live s x" using inv(3) by (simp add: live_def)
  then have "co_status (cos s self) = WAIT" using inv(2) x by (auto simp: chan_ok_def que_ok_def on_queues_def)
  then show False using runningD(1) [OF inv(1) v] by simp
qed

lemma others_keep:
  assumes inv: "chan_run_inv c (s, h)" and r: "chan_rely c s s'"
  shows "chan_run_inv c (s', h)"
proof -
  have q: "on_queues c s' = on_queues c s" "chans s' c = chans s c" using r by (simp_all add: chan_rely_def on_queues_def)
  have qu: "quanta s' x = quanta s x" if "x \<in> on_queues c s" for x using r that by (simp add: chan_rely_def)
  have sel: "\<forall>x\<in>on_queues c s. \<not> qm_select (quanta s x)" using inv by (simp add: chan_run_inv_def)
  have sel': "\<forall>x\<in>on_queues c s'. \<not> qm_select (quanta s' x)" using sel qu q by simp
  note ql = queues_live [OF sel] queues_live [OF sel']
  have "pipe s' c = pipe s c"
    using r by (simp add: pipe_def ql chan_rely_def)
  moreover have "chan_ok s' c"
  proof -
    have "que_ok s' c qs" if "que_ok s c qs" "set qs \<subseteq> on_queues c s" for qs
    proof -
      have eq: "map (\<lambda>q. qm_co (quanta s' q)) qs = map (\<lambda>q. qm_co (quanta s q)) qs" using qu that(2) by auto
      have "distinct (map (\<lambda>q. qm_co (quanta s' q)) qs)" unfolding eq using that(1) by (simp add: que_ok_def)
      then show ?thesis
        using that r sel qu unfolding que_ok_def by (auto simp: chan_rely_def live_def subset_iff)
    qed
    moreover have "live s' x = live s x" if "x \<in> on_queues c s" for x
      using sel sel' that q by (simp add: live_def)
    ultimately show ?thesis
      using inv qu q(2) by (auto simp: chan_run_inv_def chan_ok_def on_queues_def)
  qed
  ultimately show ?thesis using inv r q sel' ql by (simp add: chan_run_inv_def chan_rely_def)
qed

text \<open>Waking a coroutine that does not wait on the channel, and suspending a running one elsewhere, are such steps.\<close>

lemma rely_ready:
  assumes "sched_inv s'" "vpu_ready vo t False s = Inr s'" "\<not> locks s c"
    and "t \<notin> (\<lambda>q. qm_co (quanta s q)) ` on_queues c s"
  shows "chan_rely c s s'"
  using assms vpu_ready_frame [OF assms(2)] by (auto simp: chan_rely_def sent_value_def)

lemma rely_suspend:
  assumes inv: "chan_run_inv c (s, h)" and v: "v < xt_index s" "running s v = Some self"
    and s': "vpu_suspend ls v s = Inr s'"
  shows "chan_rely c s s'"
proof -
  have I: "sched_inv s" "chan_ok s c" "\<not> locks s c" "\<forall>q\<in>on_queues c s. \<not> qm_select (quanta s q)"
    using inv by (simp_all add: chan_run_inv_def)
  have "sched_inv s'" "\<And>u. co_status (cos s' u) = (if u = self then WAIT else co_status (cos s u))"
    using sched_inv_suspend [OF I(1) v, of ls] s' by (metis Inr_inject)+
  then show ?thesis
    using vpu_suspend_frame [OF s'] I(3) self_not_queued [OF I(1,2,4) v]
    by (auto simp: chan_rely_def sent_value_def)
qed

lemma chan_run_invD:
  assumes "chan_run_inv c (s, h)"
  shows "sched_inv s" "chan_ok s c" "\<not> locks s c" "\<forall>q\<in>on_queues c s. \<not> qm_select (quanta s q)"
    "waiting_receivers s c \<noteq> [] \<Longrightarrow> pipe s c = []" "ch_close (chans s c) \<Longrightarrow> on_queues c s = {}"
    "h_sent h = h_got h + h_back h + mset (pipe s c)"
    "pending_senders s c = send_que (chans s c)" "waiting_receivers s c = recv_que (chans s c)"
    "store_inv (chans s c)"
  using assms queues_live [of c s] by (simp_all add: chan_run_inv_def chan_ok_def)

lemma first_receiver:
  assumes inv: "chan_run_inv c (s, h)" and w: "waiting_receivers s c = r # rs"
  obtains d where "qm_itembuf (quanta s r) = Some d" "r \<in> on_queues c s"
proof -
  have "r \<in> set (recv_que (chans s c))" using w chan_run_invD(9) [OF inv] by simp
  then show ?thesis using chan_run_invD(2) [OF inv] that by (auto simp: chan_ok_def que_ok_def on_queues_def)
qed

lemma send_keeps_handed:
  assumes inv: "chan_run_inv c (s, h)" and v: "v < xt_index s" and w: "waiting_receivers s c = r # rs"
    and out: "chan_send (Some v) c (Some b) block q s = Inr out"
  shows "chan_run_inv c (result out,
    h\<lparr>h_sent := h_sent h + accepted (mem s b) out, h_got := h_got h + handed c s (result out)\<rparr>)"
proof -
  note I = chan_run_invD [OF inv]
  obtain d where d: "qm_itembuf (quanta s r) = Some d" and r: "r \<in> on_queues c s" by (rule first_receiver [OF inv w])
  obtain s' where s': "chan_send (Some v) c (Some b) block q s = Inr (Ret CHAN_SUCCESS s')"
    "mem s' = (mem s)(d := mem s b)" "chans s' c = (chans s c)\<lparr>recv_que := recv_que (chans s' c)\<rparr>"
    "waiting_receivers s' c = rs" "pending_senders s' c = pending_senders s c" "quanta s' = quanta s"
    "sched_inv s'" "locks s' = locks s" "chan_ok s' c"
    by (rule send_to_receiver [OF I(1-3) _ w d, of "Some v" b block q]) (use v that in auto)
  have o: "out = Ret CHAN_SUCCESS s'" using out s'(1) by simp
  have sub: "on_queues c s' \<subseteq> on_queues c s" using send_queues [OF out] o by (simp add: queue_frame_def)
  have p: "pipe s c = []" using I(5) w by simp
  have "contents (chans s' c) = contents (chans s c)" by (subst s'(3)) (rule contents_queues)
  then have "pipe s' c = []" using p s'(5) by (simp add: pipe_def)
  moreover have "\<not> ch_close (chans s c)" using I(6) r by auto
  then have "\<not> ch_close (chans s' c)" by (subst s'(3)) simp
  moreover have "\<forall>x\<in>on_queues c s'. \<not> qm_select (quanta s' x)" using I(4) sub s'(6) by auto
  ultimately show ?thesis
    using o s' I(3,7) p w d by (simp add: chan_run_inv_def handed_def)
qed

lemma send_keeps_stored:
  assumes inv: "chan_run_inv c (s, h)" and w: "waiting_receivers s c = []"
    and o: "\<not> ch_close (chans s c)" "has_room (chans s c)" and out: "chan_send vo c (Some b) block q s = Inr out"
  shows "chan_run_inv c (result out, h\<lparr>h_sent := h_sent h + accepted (mem s b) out\<rparr>)"
proof -
  note I = chan_run_invD [OF inv]
  obtain s' where s': "chan_send vo c (Some b) block q s = Inr (Ret CHAN_SUCCESS s')" "mem s' = mem s" "quanta s' = quanta s"
    "contents (chans s' c) = contents (chans s c) @ [mem s b]" "send_que (chans s' c) = send_que (chans s c)"
    "recv_que (chans s' c) = []" "cos s' = cos s" "sched_inv s'" "locks s' = locks s" "chan_ok s' c"
    "ch_close (chans s' c) = ch_close (chans s c)"
    by (rule send_stored [OF I(1-3) w o, of vo b block q]) (rule that)
  have out': "out = Ret CHAN_SUCCESS s'" using out s'(1) by simp
  have sel: "\<forall>x\<in>on_queues c s'. \<not> qm_select (quanta s' x)" using I(4) s'(3,5,6) by (auto simp: on_queues_def)
  have "pipe s' c = contents (chans s c) @ [mem s b] @ map (sent_value s) (pending_senders s c)"
    using s'(2-5) I(8) queues_live [OF sel] by (simp add: pipe_def sent_value_def)
  then have "mset (pipe s' c) = mset (pipe s c) + {#mem s b#}" by (simp add: pipe_def)
  then show ?thesis
    using out' s' I(3,7) o(1) sel queues_live [OF sel] by (simp add: chan_run_inv_def)
qed

lemma send_keeps_blocked:
  assumes inv: "chan_run_inv c (s, h)" and v: "v < xt_index s" "running s v = Some self" and w: "waiting_receivers s c = []"
    and o: "\<not> has_room (chans s c)" "\<not> ch_close (chans s c)" and q: "q \<notin> on_queues c s"
    and out: "chan_send (Some v) c (Some b) True q s = Inr out"
  shows "chan_run_inv c (result out, h\<lparr>h_sent := h_sent h + accepted (mem s b) out\<rparr>)"
proof -
  note I = chan_run_invD [OF inv]
  have q': "q \<notin> set (send_que (chans s c))" "self \<notin> (\<lambda>x. qm_co (quanta s x)) ` set (send_que (chans s c))"
    using q self_not_queued [OF I(1,2,4) v] by (auto simp: on_queues_def)
  obtain s' where s': "chan_send (Some v) c (Some b) True q s = Inr (Suspended s')" "sched_inv s'" "chan_ok s' c"
    "\<not> locks s' c" "mem s' = mem s" "quanta s' = (quanta s)(q := quantum_init c self (Some b) False)"
    "pending_senders s' c = pending_senders s c @ [q]" "waiting_receivers s' c = []"
    "contents (chans s' c) = contents (chans s c)" "\<not> ch_close (chans s' c)"
    by (rule send_blocks [OF I(1-3) v o(1) w o(2) q', of b]) (rule that)
  have out': "out = Suspended s'" using out s'(1) by simp
  have sel: "\<forall>x\<in>on_queues c s'. \<not> qm_select (quanta s' x)"
    using send_queues [OF out] out' I(4) s'(6) by (auto simp: quantum_init_def queue_frame_def)
  have "map (sent_value s') (pending_senders s c) = map (sent_value s) (pending_senders s c)"
    using q' I(8) s'(5,6) by (auto simp: sent_value_def)
  moreover have "sent_value s' q = mem s b" using s'(5,6) by (simp add: sent_value_def quantum_init_def)
  ultimately have "pipe s' c = pipe s c @ [mem s b]" using s'(7,9) by (simp add: pipe_def)
  then show ?thesis using out' s' sel I(7) by (simp add: chan_run_inv_def)
qed

lemma send_keeps:
  assumes inv: "chan_run_inv c (s, h)" and v: "v < xt_index s" "running s v = Some self" and q: "q \<notin> on_queues c s"
    and out: "chan_send (Some v) c (Some b) block q s = Inr out"
  shows "chan_run_inv c (result out,
    h\<lparr>h_sent := h_sent h + accepted (mem s b) out, h_got := h_got h + handed c s (result out)\<rparr>)"
proof (cases "waiting_receivers s c")
  case (Cons r rs)
  show ?thesis by (rule send_keeps_handed [OF inv v(1) Cons out])
next
  case Nil
  note I = chan_run_invD [OF inv]
  have rq: "recv_que (chans s c) = []" using Nil I(9) by simp
  have h: "handed c s s' = {#}" for s' by (simp add: handed_def Nil)
  note eq = send_nobody_eq [OF I(10,3) Nil, of "Some v" b block q, unfolded upd_chan_idle(1) [OF rq]]
  consider "ch_close (chans s c)" | "\<not> ch_close (chans s c)" "has_room (chans s c)"
    | "\<not> ch_close (chans s c)" "\<not> has_room (chans s c)" "block"
    | "\<not> ch_close (chans s c)" "\<not> has_room (chans s c)" "\<not> block" by blast
  then show ?thesis
  proof cases
    case 1
    then have "out = Ret CHAN_CLOSED s" using send_closed_eq [OF I(3) 1 rq I(10)] out by simp
    then show ?thesis using inv h by simp
  next
    case 2
    then show ?thesis using send_keeps_stored [OF inv Nil 2 out] h by simp
  next
    case 3
    then show ?thesis using send_keeps_blocked [OF inv v Nil 3(2,1) q] out h by simp
  next
    case 4
    then have "out = Ret CHAN_BUSY s" using eq out upd_chan_idle(1) [OF rq] by (simp add: Let_def)
    then show ?thesis using inv h by simp
  qed
qed

lemma recv_keeps:
  assumes inv: "chan_run_inv c (s, h)" and v: "v < xt_index s" "running s v = Some self" and q: "q \<notin> on_queues c s"
    and d: "Some d \<notin> (\<lambda>q. qm_itembuf (quanta s q)) ` set (send_que (chans s c))"
    and out: "chan_recv (Some v) (Some c) (Some d) block q s = Inr out"
  shows "chan_run_inv c (result out, h\<lparr>h_got := h_got h + received d out\<rparr>)"
proof (cases "pipe s c")
  case (Cons x xs)
  note I = chan_run_invD [OF inv]
  obtain s' where s': "chan_recv (Some v) (Some c) (Some d) block q s = Inr (Ret CHAN_SUCCESS s')" "mem s' = (mem s)(d := x)"
    "pipe s' c = xs" "sched_inv s'" "chan_ok s' c" "locks s' = locks s" "quanta s' = quanta s"
    "waiting_receivers s' c = waiting_receivers s c"
    by (rule recv_oldest [OF I(1-3) _ Cons, of "Some v" d block q]) (use v d I(8) that in \<open>auto simp: image_iff\<close>)
  have o: "out = Ret CHAN_SUCCESS s'" using out s'(1) by simp
  have sub: "on_queues c s' \<subseteq> on_queues c s" using recv_queues [OF out] o by (simp add: queue_frame_def)
  have "waiting_receivers s c = []" using I(5) Cons by auto
  moreover have "\<forall>x\<in>on_queues c s'. \<not> qm_select (quanta s' x)" using I(4) sub s'(7) by auto
  moreover have "ch_close (chans s' c) \<longrightarrow> on_queues c s' = {}"
    using recv_queues [OF out] o I(6) by (auto simp: queue_frame_def)
  ultimately show ?thesis using o s' I(3,7) Cons by (simp add: chan_run_inv_def)
next
  case Nil
  note I = chan_run_invD [OF inv]
  have e: "contents (chans s c) = []" "pending_senders s c = []" and sq: "send_que (chans s c) = []"
    using Nil I(8) by (auto simp: pipe_def)
  note eq = recv_nothing_eq [OF I(10,3) e, of "Some v" "Some d" block q, unfolded upd_chan_idle(2) [OF sq]]
  show ?thesis
  proof (cases "ch_close (chans s c) \<or> \<not> block")
    case True
    then have "out = Ret (if ch_close (chans s c) then CHAN_CLOSED else CHAN_BUSY) s"
      using eq out upd_chan_idle(2) [OF sq] by (auto simp: Let_def split: if_splits)
    then show ?thesis using inv by simp
  next
    case False
    have q': "q \<notin> set (recv_que (chans s c))" "self \<notin> (\<lambda>x. qm_co (quanta s x)) ` set (recv_que (chans s c))"
      using q self_not_queued [OF I(1,2,4) v] by (auto simp: on_queues_def)
    obtain s' where s': "chan_recv (Some v) (Some c) (Some d) True q s = Inr (Suspended s')" "sched_inv s'" "chan_ok s' c"
      "\<not> locks s' c" "quanta s' = (quanta s)(q := quantum_init c self (Some d) False)"
      "pending_senders s' c = []" "contents (chans s' c) = []" "\<not> ch_close (chans s' c)"
      by (rule recv_blocks [OF I(1-3) v e _ q', of d]) (use False that in auto)
    have out': "out = Suspended s'" using out s'(1) False by simp
    have sel: "\<forall>x\<in>on_queues c s'. \<not> qm_select (quanta s' x)"
      using recv_queues [OF out] out' I(4) s'(5) by (auto simp: quantum_init_def queue_frame_def)
    have "pipe s' c = []" using s'(6,7) by (simp add: pipe_def)
    then show ?thesis using out' s' sel I(7) Nil by (simp add: chan_run_inv_def)
  qed
qed

lemma close_keeps:
  assumes inv: "chan_run_inv c (s, h)" and v: "v < xt_index s" and p: "\<not> ch_isref (chans s c)"
    and out: "chan_close (Some v) c s = Inr (r, s')"
  shows "chan_run_inv c (s', h\<lparr>h_back := h_back h + given_back c s s'\<rparr>)"
proof (cases "ch_close (chans s c)")
  case True
  note I = chan_run_invD [OF inv]
  have "s' = s" using out True I(3) lock_twice [OF I(3)]
    by (simp add: chan_close_def lock_acquire_at_def lock_release_at_def)
  moreover have "pending_senders s c = []" using I(6,8) True by (simp add: on_queues_def)
  ultimately show ?thesis using inv by (simp add: given_back_def)
next
  case False
  note I = chan_run_invD [OF inv]
  have c: "sched_inv s'" "chan_ok s' c" "ch_close (chans s' c)" "send_que (chans s' c) = []" "recv_que (chans s' c) = []"
    "locks s' = locks s" "\<forall>q\<in>set (pending_senders s c). qm_close (quanta s' q)" "contents (chans s' c) = contents (chans s c)"
    using chan_close_ok [OF I(1-3) _ False, of "Some v"] v p out by auto
  have "given_back c s s' = mset (map (sent_value s) (pending_senders s c))"
    using c(7) by (simp add: given_back_def filter_id_conv)
  moreover have "pipe s' c = contents (chans s c)" "waiting_receivers s' c = []"
    using c(4,5,8) by (simp_all add: pipe_def pending_senders_def waiting_receivers_def)
  ultimately show ?thesis
    using c I(3,7) by (simp add: chan_run_inv_def on_queues_def pipe_def)
qed

lemma chan_step_keeps: "chan_step c x y \<Longrightarrow> chan_run_inv c x \<Longrightarrow> chan_run_inv c y"
  by (induction rule: chan_step.induct) (blast intro: send_keeps recv_keeps close_keeps others_keep)+

lemma chan_run_keeps: "(chan_step c)\<^sup>*\<^sup>* x y \<Longrightarrow> chan_run_inv c x \<Longrightarrow> chan_run_inv c y"
  by (induction rule: rtranclp_induct) (auto intro: chan_step_keeps)

text \<open>In a state of the invariant a running coroutine gets an answer, or is suspended: no call fails.\<close>

lemma send_total:
  assumes inv: "chan_run_inv c (s, h)" and v: "v < xt_index s" "running s v = Some self"
  shows "\<exists>out. chan_send (Some v) c (Some b) block q s = Inr out"
proof (cases "waiting_receivers s c")
  case (Cons r rs)
  note I = chan_run_invD [OF inv]
  obtain d where d: "qm_itembuf (quanta s r) = Some d" by (rule first_receiver [OF inv Cons])
  show ?thesis by (rule send_to_receiver [OF I(1-3) _ Cons d, of "Some v" b block q]) (use v in auto)
next
  case Nil
  note I = chan_run_invD [OF inv]
  let ?s = "upd_chan c (\<lambda>ch. ch\<lparr>recv_que := []\<rparr>) (s\<lparr>locks := (locks s)(c := True)\<rparr>)"
  have "\<exists>out. block_on (Some v) c (Some b) q (\<lambda>ch. ch\<lparr>send_que := send_que ch @ [q]\<rparr>) ?s = Inr out"
    by (rule block_on_ok [of ?s v self]) (use I(1) v in \<open>auto simp: upd_chan_def\<close>)
  then show ?thesis using send_nobody_eq [OF I(10,3) Nil, of "Some v" b block q] by (simp add: Let_def)
qed

lemma recv_total:
  assumes inv: "chan_run_inv c (s, h)" and v: "v < xt_index s" "running s v = Some self"
    and d: "Some d \<notin> (\<lambda>q. qm_itembuf (quanta s q)) ` set (send_que (chans s c))"
  shows "\<exists>out. chan_recv (Some v) (Some c) (Some d) block q s = Inr out"
proof (cases "pipe s c")
  case (Cons x xs)
  note I = chan_run_invD [OF inv]
  show ?thesis by (rule recv_oldest [OF I(1-3) _ Cons, of "Some v" d block q]) (use v d I(8) in \<open>auto simp: image_iff\<close>)
next
  case Nil
  note I = chan_run_invD [OF inv]
  let ?s = "upd_chan c (\<lambda>ch. ch\<lparr>send_que := []\<rparr>) (s\<lparr>locks := (locks s)(c := True)\<rparr>)"
  have "\<exists>out. block_on (Some v) c (Some d) q (\<lambda>ch. ch\<lparr>recv_que := recv_que ch @ [q]\<rparr>) ?s = Inr out"
    by (rule block_on_ok [of ?s v self]) (use I(1) v in \<open>auto simp: upd_chan_def\<close>)
  then show ?thesis using recv_nothing_eq [OF I(10,3), of "Some v" "Some d" block q] Nil by (simp add: Let_def pipe_def)
qed

section \<open>Properties\<close>

text \<open>
  Claim C5. No value is lost or made up by a channel.  In every run of any number of coroutines that send, receive and
  close, blocking or not, in any order and with the rest of the system in between: the values accepted from senders are, with their
  multiplicities, the values that receivers got, those given back when the channel was closed, and those still in the channel (stored
  or with a waiting sender); no receiver waits while there is a value for it; nobody waits on a closed channel; the
  lock is free between the calls, the invariants of the channel and of the scheduler hold, and no call of a running coroutine fails.
\<close>

theorem chan_values_balance:
  assumes run: "(chan_step c)\<^sup>*\<^sup>* (s0, \<lparr>h_sent = {#}, h_got = {#}, h_back = {#}\<rparr>) (s, h)"
    and start: "sched_inv s0" "chan_ok s0 c" "\<not> locks s0 c" "send_que (chans s0 c) = []" "recv_que (chans s0 c) = []"
      "contents (chans s0 c) = []"
  shows "h_sent h = h_got h + h_back h + mset (pipe s c) \<and>
    (waiting_receivers s c = [] \<or> pipe s c = []) \<and>
    (\<not> ch_close (chans s c) \<or> pending_senders s c = [] \<and> waiting_receivers s c = []) \<and>
    sched_inv s \<and> chan_ok s c \<and> \<not> locks s c \<and>
    (\<forall>v self b block q. v < xt_index s \<and> running s v = Some self \<longrightarrow> (\<exists>out. chan_send (Some v) c (Some b) block q s = Inr out)) \<and>
    (\<forall>v self d block q. v < xt_index s \<and> running s v = Some self \<and> Some d \<notin> (\<lambda>q. qm_itembuf (quanta s q)) ` set (send_que (chans s c))
       \<longrightarrow> (\<exists>out. chan_recv (Some v) (Some c) (Some d) block q s = Inr out))"
proof -
  have "chan_run_inv c (s0, \<lparr>h_sent = {#}, h_got = {#}, h_back = {#}\<rparr>)"
    using start by (simp add: chan_run_inv_def on_queues_def pipe_def pending_senders_def waiting_receivers_def)
  then have inv: "chan_run_inv c (s, h)" using chan_run_keeps [OF run] by simp
  show ?thesis
    using chan_run_invD [OF inv] send_total [OF inv] recv_total [OF inv] by (auto simp: on_queues_def)
qed

text \<open>A value stored in the buffered channel 7.\<close>

theorem chan_values_balance_witness:
  "\<exists>s h. (chan_step 7)\<^sup>*\<^sup>* (chan_sys, \<lparr>h_sent = {#}, h_got = {#}, h_back = {#}\<rparr>) (s, h) \<and>
     h_sent h = {#Raw [5]#} \<and> pipe s 7 = [Raw [5]]"
proof -
  let ?h = "\<lparr>h_sent = {#}, h_got = {#}, h_back = {#}\<rparr>"
  obtain s' where s': "chan_send (Some 0) 7 (Some 5) True 20 chan_sys = Inr (Ret CHAN_SUCCESS s')"
    "contents (chans s' 7) = [Raw [5]]"
    by (rule send_stored [OF chan_sys_ok(1-3,7,9,10), of "Some 0" 5 True 20]) (use chan_sys_ok(6,13) in auto)
  let ?h' = "?h\<lparr>h_sent := {#Raw [5]#}\<rparr>"
  have "chan_step 7 (chan_sys, ?h) (s', ?h')"
    using chan_step.send [of 0 chan_sys 1 20 7 5 True _ ?h] s'(1) chan_sys_ok
    by (force simp: on_queues_def handed_def)
  then have r: "(chan_step 7)\<^sup>*\<^sup>* (chan_sys, ?h) (s', ?h')" by blast
  have "mset (pipe s' 7) = {#Raw [5]#}"
    using chan_values_balance [OF r] chan_sys_ok by simp
  then have "pipe s' 7 = [Raw [5]]" by simp
  moreover have "h_sent ?h' = {#Raw [5]#}" by simp
  ultimately show ?thesis using r by blast
qed

end
