(* ===== verification/Group_Free.thy ===== *)
theory Group_Free
  imports Group
begin

text \<open>
  The \<^verbatim>\<open>__CoroC_Sync\<close> of the language (\<^verbatim>\<open>include/libcoroc.h\<close>): wait for the group, then give its memory back and clear the
  variable. The steps of the parent and of the tasks are those of \<open>Group\<close>; to them come the call of \<open>free\<close> after
  \<open>coroc_group_sync\<close> has returned, and what the tasks may still do afterwards.
\<close>

section \<open>Freeing the group\<close>

text \<open>A task whose next step reads or writes the group.\<close>

fun touches :: "child \<Rightarrow> bool" where
  "touches Working = True"
| "touches Counted = True"
| "touches Last = True"
| "touches Reading = True"
| "touches c = False"

text \<open>The variable \<open>G\<close> of the parent; what the macro answers is the value \<open>coroc_group_sync\<close> returned.\<close>

record fsys =
  f_sys :: gsys
  f_var :: ptr

definition CoroC_Sync_free :: "fsys \<Rightarrow> (u32 \<times> fsys) option" where
  "CoroC_Sync_free f = (case par (f_sys f) of
     Returned r \<Rightarrow> Some (r, f\<lparr>f_var := None\<rparr>) | _ \<Rightarrow> None)"

text \<open>
  Before the macro has ended everybody goes on as before; afterwards only the steps that do not
  touch the group are steps of the program. A task that would touch it uses memory that is gone.
\<close>

inductive free_step :: "nat set \<Rightarrow> (nat \<Rightarrow> int) \<Rightarrow> fsys \<Rightarrow> fsys \<Rightarrow> bool" for T ret where
  before: "f_var f \<noteq> None \<Longrightarrow> group_step T ret (f_sys f) s \<Longrightarrow> free_step T ret f (f\<lparr>f_sys := s\<rparr>)"
| free: "f_var f \<noteq> None \<Longrightarrow> CoroC_Sync_free f = Some (r, f') \<Longrightarrow> free_step T ret f f'"
| after: "f_var f = None \<Longrightarrow> group_step T ret (f_sys f) s \<Longrightarrow> \<not> touches (child (f_sys f) c) \<Longrightarrow>
    child s c \<noteq> child (f_sys f) c \<Longrightarrow> free_step T ret f (f\<lparr>f_sys := s\<rparr>)"

definition free_start :: fsys where
  "free_start = \<lparr>f_sys = group_start, f_var = Some 1\<rparr>"

lemma free_reachable:
  assumes "(free_step T ret)\<^sup>*\<^sup>* free_start f" "finite T" "card T < 2 ^ 32 - 1"
  shows "group_reachable T ret (f_sys f) \<and> (f_var f = None \<longrightarrow> (\<exists>r. par (f_sys f) = Returned r))"
  using assms(1)
proof (induction rule: rtranclp_induct)
  case base
  then show ?case by (simp add: free_start_def group_reachable_def)
next
  case (step f f')
  from step.hyps(2) step.IH show ?case
  proof (cases rule: free_step.cases)
    case (before s)
    then show ?thesis using step.IH by (auto simp: group_reachable_def)
  next
    case (free r)
    then show ?thesis using step.IH by (auto simp: CoroC_Sync_free_def split: par.splits)
  next
    case (after s c)
    obtain r where r: "par (f_sys f) = Returned r" using after(2) step.IH by blast
    have "parent_ok (f_sys f)"
      using group_inv_reachable [OF conjunct1 [OF step.IH] assms(2,3)] by (simp add: group_inv_def)
    then have nw: "child (f_sys f) c \<noteq> Waking (Some p)" for c p using r unfolding parent_ok_def by fastforce
    from after(3) have "par s = Returned r"
      by (cases rule: group_step.cases) (use nw r in \<open>auto simp: set_child_def split: if_splits\<close>)
    then show ?thesis using after step.IH by (auto simp: group_reachable_def)
  qed
qed

text \<open>
  A parent that went to sleep was woken by the last task, after that task had finished with the group: nobody
  touches the memory any more.
\<close>

lemma sync_free_safe:
  assumes "(free_step T ret)\<^sup>*\<^sup>* free_start f" "finite T" "card T < 2 ^ 32 - 1"
    and "f_var f = None" "parent (grp (f_sys f)) \<noteq> None"
  shows "\<not> touches (child (f_sys f) c)"
proof -
  from free_reachable [OF assms(1-3)] assms(4) obtain r where r: "group_reachable T ret (f_sys f)" "par (f_sys f) = Returned r" by blast
  then have "parent_ok (f_sys f)" using group_inv_reachable [OF _ assms(2,3)] by (simp add: group_inv_def)
  then have "present (f_sys f) = {}" "\<not> closing (child (f_sys f) c)"
    using r(2) assms(5) unfolding parent_ok_def by blast+
  then show ?thesis by (cases "child (f_sys f) c") (auto simp: present_def)
qed

text \<open>
  A parent that found the group empty was woken by nobody: the last task has left the group but is still on its way to the
  lock, in memory that has been given back.
\<close>

lemma sync_free_race:
  "\<exists>f. (free_step {0} (\<lambda>c. 1))\<^sup>*\<^sup>* free_start f \<and> f_var f = None \<and> touches (child (f_sys f) 0)"
proof -
  have "(free_step {0} (\<lambda>c. 1))\<^sup>*\<^sup>* \<lparr>f_sys = s, f_var = Some 1\<rparr> \<lparr>f_sys = s', f_var = Some 1\<rparr>"
    if "(group_step {0} (\<lambda>c. 1))\<^sup>*\<^sup>* s s'" for s s'
    using that
  proof (induction rule: rtranclp_induct)
    case (step s1 s2)
    then show ?case
      using free_step.before [of "\<lparr>f_sys = s1, f_var = Some 1\<rparr>" "{0}" "\<lambda>c. 1" s2] by (auto intro: rtranclp.rtrancl_into_rtrancl)
  qed simp
  then have "(free_step {0} (\<lambda>c. 1))\<^sup>*\<^sup>* free_start \<lparr>f_sys = left_behind, f_var = Some 1\<rparr>"
    using left_behind_reachable by (simp add: group_reachable_def free_start_def)
  moreover have "free_step {0} (\<lambda>c. 1) \<lparr>f_sys = left_behind, f_var = Some 1\<rparr> \<lparr>f_sys = left_behind, f_var = None\<rparr>"
    by (rule free_step.free [where r = 1]) (simp_all add: CoroC_Sync_free_def left_behind_def)
  ultimately have "(free_step {0} (\<lambda>c. 1))\<^sup>*\<^sup>* free_start \<lparr>f_sys = left_behind, f_var = None\<rparr>" by (rule rtranclp.rtrancl_into_rtrancl)
  moreover have "touches (child left_behind 0)" by (simp add: left_behind_def)
  ultimately show ?thesis by (intro exI [of _ "\<lparr>f_sys = left_behind, f_var = None\<rparr>"]) simp
qed

end
