(* ===== verification/Findmax.thy ===== *)
theory Findmax
  imports Prelude
begin

text \<open>
  A client of the library (\<^verbatim>\<open>examples/C/findmax.c\<close>): the maximum of an array by divide and conquer, every part of the array a coroutine
  that gets its task and gives its result over a channel of its own.

  A coroutine is named by the path from the main program to it, innermost branch first: \<open>[]\<close> is \<open>main\<close>, \<open>[0]\<close> the coroutine it
  starts, \<open>i # p\<close> the \<open>i\<close>-th slave of \<open>p\<close>. The channels have no buffer, so a value goes over in one step in which the sender and the receiver
  go on together (\<open>Channel_Laws\<close> shows it of the two orders in which they may come). Otherwise the coroutines run in any order. The contents of
  the array are arbitrary.
\<close>

section \<open>The program\<close>

text \<open>
  Where a coroutine is: not started; waiting for the size, then for the start; about to start slave \<open>i\<close>, to send it the size and the start; waiting
  for the maximum of the first slave, and of the second one, with the first maximum; about to send its own maximum; gone. \<open>main\<close> has places of its own. \<open>Fault\<close> is
  an access beyond the end of the array.
\<close>

datatype fpc =
    Absent
  | GetSize
  | GetStart int
  | Start nat int int
  | PutSize nat int int
  | PutStart nat int int
  | GetMax0 int int
  | GetMax1 int int int
  | PutMax int
  | Gone
  | MainStart int
  | MainPutSize int
  | MainPutStart int
  | MainGetMax
  | MainDone int
  | Fault

type_synonym fstate = "nat list \<Rightarrow> fpc"

text \<open>\<open>sz\<close> and \<open>st\<close>: what slave \<open>i\<close> is to do.\<close>

definition part_size :: "nat \<Rightarrow> int \<Rightarrow> int" where
  "part_size i sz = (if i = 0 then sz div 2 else sz - sz div 2)"

definition part_start :: "nat \<Rightarrow> int \<Rightarrow> int \<Rightarrow> int" where
  "part_start i sz st = (if i = 0 then st else st + sz div 2)"

text \<open>After the size has come, and after the start has come: both elements are read before the size is looked at.\<close>

definition take_size :: "int \<Rightarrow> fpc" where
  "take_size sz = (if sz \<le> 0 then Gone else GetStart sz)"

definition take_start :: "int list \<Rightarrow> int \<Rightarrow> int \<Rightarrow> fpc" where
  "take_start array sz st =
     (if st < 0 \<or> int (length array) \<le> st + 1 then Fault
      else let m0 = array ! nat st; m1 = array ! nat (st + 1) in
        if sz > 1
        then if sz > 2 then Start 0 sz st else PutMax (if m0 < m1 then m1 else m0)
        else PutMax m0)"

text \<open>What a coroutine offers to slave \<open>i\<close> next, and where it is afterwards.\<close>

fun starts :: "fpc \<Rightarrow> (nat \<times> fpc) option" where
  "starts (Start i sz st) = Some (i, PutSize i sz st)"
| "starts (MainStart sz) = Some (0, MainPutSize sz)"
| "starts _ = None"

fun puts_size :: "fpc \<Rightarrow> (nat \<times> int \<times> fpc) option" where
  "puts_size (PutSize i sz st) = Some (i, part_size i sz, PutStart i sz st)"
| "puts_size (MainPutSize sz) = Some (0, sz, MainPutStart 0)"
| "puts_size _ = None"

fun puts_start :: "fpc \<Rightarrow> (nat \<times> int \<times> fpc) option" where
  "puts_start (PutStart i sz st) =
     Some (i, part_start i sz st, if i = 0 then Start 1 sz st else GetMax0 sz st)"
| "puts_start (MainPutStart st) = Some (0, st, MainGetMax)"
| "puts_start _ = None"

fun gets_max :: "fpc \<Rightarrow> (nat \<times> (int \<Rightarrow> fpc)) option" where
  "gets_max (GetMax0 sz st) = Some (0, GetMax1 sz st)"
| "gets_max (GetMax1 sz st m0) = Some (1, \<lambda>m. PutMax (if m0 < m then m else m0))"
| "gets_max MainGetMax = Some (0, MainDone)"
| "gets_max _ = None"

inductive fm_step :: "int list \<Rightarrow> fstate \<Rightarrow> fstate \<Rightarrow> bool" for array where
  begin_slave: "starts (s p) = Some (i, pc) \<Longrightarrow> s (i # p) = Absent \<Longrightarrow> fm_step array s (s(p := pc, i # p := GetSize))"
| hand_size: "puts_size (s p) = Some (i, n, pc) \<Longrightarrow> s (i # p) = GetSize \<Longrightarrow> fm_step array s (s(p := pc, i # p := take_size n))"
| hand_start: "puts_start (s p) = Some (i, st, pc) \<Longrightarrow> s (i # p) = GetStart n \<Longrightarrow>
    fm_step array s (s(p := pc, i # p := take_start array n st))"
| hand_max: "gets_max (s p) = Some (i, f) \<Longrightarrow> s (i # p) = PutMax m \<Longrightarrow> fm_step array s (s(p := f m, i # p := Gone))"

definition fm_init :: "int list \<Rightarrow> fstate" where
  "fm_init array = (\<lambda>p. Absent)([] := MainStart (int (length array)))"

text \<open>The check of the answer at the end of \<open>main\<close>.\<close>

primrec check_max_elem :: "int list \<Rightarrow> int \<Rightarrow> bool" where
  "check_max_elem [] m = True"
| "check_max_elem (x # xs) m = (if x > m then False else check_max_elem xs m)"

section \<open>The parts of the array\<close>

fun part :: "int \<Rightarrow> nat list \<Rightarrow> int \<times> int" where
  "part n [] = (n, 0)"
| "part n [i] = (n, 0)"
| "part n (i # j # p) = (case part n (j # p) of (sz, st) \<Rightarrow> (part_size i sz, part_start i sz st))"

definition elems :: "int list \<Rightarrow> nat list \<Rightarrow> int set" where
  "elems array p = (case part (int (length array)) p of (sz, st) \<Rightarrow>
     {array ! nat k |k. st \<le> k \<and> k < st + sz})"

text \<open>A part is inside the array, and if it is a single element then not the last one.\<close>

definition part_ok :: "int \<Rightarrow> int \<Rightarrow> int \<Rightarrow> bool" where
  "part_ok n sz st \<longleftrightarrow> 0 < sz \<and> 0 \<le> st \<and> st + sz \<le> n \<and> st + 1 < n"

lemma part_ok_part:
  assumes "part_ok n sz st" "2 < sz" "i < 2"
  shows "part_ok n (part_size i sz) (part_start i sz st)" "part_size i sz < sz"
  using assms by (auto simp: part_ok_def part_size_def part_start_def less_2_cases_iff)

lemma part_union:
  assumes "2 < sz"
  shows "{k. st \<le> k \<and> k < st + sz} =
    {k. part_start 0 sz st \<le> k \<and> k < part_start 0 sz st + part_size 0 sz} \<union>
    {k. part_start 1 sz st \<le> k \<and> k < part_start 1 sz st + part_size 1 sz}"
  using assms by (auto simp: part_size_def part_start_def)

lemma elems_split:
  assumes "p \<noteq> []" "part (int (length array)) p = (sz, st)" "2 < sz"
  shows "elems array p = elems array (0 # p) \<union> elems array (1 # p)"
proof -
  obtain j q where p: "p = j # q" using assms(1) by (cases p) auto
  have "elems array p = (\<lambda>k. array ! nat k) ` {k. st \<le> k \<and> k < st + sz}"
    using assms(2) by (auto simp: elems_def)
  also have "\<dots> = elems array (0 # p) \<union> elems array (1 # p)"
    unfolding part_union [OF assms(3)] image_Un using assms(2) p by (auto simp: elems_def)
  finally show ?thesis .
qed

lemma elems_finite:
  assumes "part (int (length array)) p = (sz, st)" "part_ok (int (length array)) sz st"
  shows "finite (elems array p)" "elems array p \<noteq> {}"
proof -
  have e: "elems array p = (\<lambda>k. array ! nat k) ` {st..<st + sz}" using assms(1) by (auto simp: elems_def)
  show "finite (elems array p)" "elems array p \<noteq> {}" unfolding e using assms(2) by (auto simp: part_ok_def)
qed

lemma elems_all: "elems array [i] = set array"
proof -
  have "(\<exists>k. x = array ! nat k \<and> 0 \<le> k \<and> k < int (length array)) \<longleftrightarrow> x \<in> set array" for x
  proof
    assume "x \<in> set array"
    then obtain k where "k < length array" "x = array ! k" by (metis in_set_conv_nth)
    then show "\<exists>k. x = array ! nat k \<and> 0 \<le> k \<and> k < int (length array)" by (intro exI [of _ "int k"]) simp
  qed auto
  then show ?thesis by (auto simp: elems_def)
qed

section \<open>The invariant\<close>

text \<open>How far slave \<open>i\<close> is, seen from its master and from itself.\<close>

datatype phase = Before | AtSize | AtStart | Busy | After | Lost

fun slave_phase :: "bool \<Rightarrow> fpc \<Rightarrow> nat \<Rightarrow> phase" where
  "slave_phase big (Start j sz st) i = (if i < j then Busy else Before)"
| "slave_phase big (PutSize j sz st) i = (if i < j then Busy else if i = j then AtSize else Before)"
| "slave_phase big (PutStart j sz st) i = (if i < j then Busy else if i = j then AtStart else Before)"
| "slave_phase big (GetMax0 sz st) i = (if i < 2 then Busy else Before)"
| "slave_phase big (GetMax1 sz st m) i = (if i = 0 then After else if i = 1 then Busy else Before)"
| "slave_phase big (PutMax m) i = (if big \<and> i < 2 then After else Before)"
| "slave_phase big Gone i = (if big \<and> i < 2 then After else Before)"
| "slave_phase big (MainPutSize n) i = (if i = 0 then AtSize else Before)"
| "slave_phase big (MainPutStart n) i = (if i = 0 then AtStart else Before)"
| "slave_phase big MainGetMax i = (if i = 0 then Busy else Before)"
| "slave_phase big (MainDone m) i = (if i = 0 then After else Before)"
| "slave_phase big _ i = Before"

fun phase_of :: "fpc \<Rightarrow> phase" where
  "phase_of Absent = Before"
| "phase_of GetSize = AtSize"
| "phase_of (GetStart sz) = AtStart"
| "phase_of (Start i sz st) = Busy"
| "phase_of (PutSize i sz st) = Busy"
| "phase_of (PutStart i sz st) = Busy"
| "phase_of (GetMax0 sz st) = Busy"
| "phase_of (GetMax1 sz st m) = Busy"
| "phase_of (PutMax m) = Busy"
| "phase_of Gone = After"
| "phase_of _ = Lost"

fun pc_ok :: "int list \<Rightarrow> nat list \<Rightarrow> int \<Rightarrow> int \<Rightarrow> fpc \<Rightarrow> bool" where
  "pc_ok array p sz st Absent = True"
| "pc_ok array p sz st GetSize = True"
| "pc_ok array p sz st (GetStart n) = (n = sz)"
| "pc_ok array p sz st (Start i n k) = (n = sz \<and> k = st \<and> i < 2 \<and> 2 < sz)"
| "pc_ok array p sz st (PutSize i n k) = (n = sz \<and> k = st \<and> i < 2 \<and> 2 < sz)"
| "pc_ok array p sz st (PutStart i n k) = (n = sz \<and> k = st \<and> i < 2 \<and> 2 < sz)"
| "pc_ok array p sz st (GetMax0 n k) = (n = sz \<and> k = st \<and> 2 < sz)"
| "pc_ok array p sz st (GetMax1 n k m) = (n = sz \<and> k = st \<and> 2 < sz \<and> m = Max (elems array (0 # p)))"
| "pc_ok array p sz st (PutMax m) = (m = Max (elems array p))"
| "pc_ok array p sz st Gone = True"
| "pc_ok array p sz st _ = False"

fun main_ok :: "int list \<Rightarrow> fpc \<Rightarrow> bool" where
  "main_ok array (MainStart n) = (n = int (length array))"
| "main_ok array (MainPutSize n) = (n = int (length array))"
| "main_ok array (MainPutStart n) = (n = 0)"
| "main_ok array MainGetMax = True"
| "main_ok array (MainDone m) = (m = Max (set array))"
| "main_ok array _ = False"

definition node_ok :: "int list \<Rightarrow> nat list \<Rightarrow> fpc \<Rightarrow> bool" where
  "node_ok array p pc = (if p = [] then main_ok array pc
     else case part (int (length array)) p of (sz, st) \<Rightarrow>
       pc_ok array p sz st pc \<and> (pc = Absent \<or> part_ok (int (length array)) sz st))"

definition big :: "int list \<Rightarrow> nat list \<Rightarrow> bool" where
  "big array p \<longleftrightarrow> 2 < fst (part (int (length array)) p)"

definition fm_inv :: "int list \<Rightarrow> fstate \<Rightarrow> bool" where
  "fm_inv array s \<longleftrightarrow> (\<forall>p. node_ok array p (s p)) \<and> (\<forall>p i. phase_of (s (i # p)) = slave_phase (big array p) (s p) i)"

lemma fm_inv_init: "fm_inv array (fm_init array)"
  by (auto simp: fm_inv_def fm_init_def node_ok_def split: prod.splits)

lemma fm_inv_step:
  assumes inv: "fm_inv array s" and ok: "node_ok array p c1" "node_ok array (i # p) c2"
    and link: "phase_of c2 = slave_phase (big array p) c1 i" "\<And>j. j \<noteq> i \<Longrightarrow> slave_phase (big array p) c1 j = slave_phase (big array p) (s p) j"
    and up: "p \<noteq> [] \<Longrightarrow> phase_of c1 = phase_of (s p)"
    and down: "\<And>j. slave_phase (big array (i # p)) c2 j = slave_phase (big array (i # p)) (s (i # p)) j"
  shows "fm_inv array (s(p := c1, i # p := c2))"
proof -
  let ?s = "s(p := c1, i # p := c2)"
  have I: "node_ok array q (s q)" "phase_of (s (j # q)) = slave_phase (big array q) (s q) j" for q j
    using inv by (auto simp: fm_inv_def)
  have "phase_of (?s (j # q)) = slave_phase (big array q) (?s q) j" for q j
  proof -
    have ne: "p \<noteq> i # p" by simp
    consider "q = p" "j = i" | "q = p" "j \<noteq> i" | "q = i # p" | "q \<noteq> p" "q \<noteq> i # p" "j # q = p" | "q \<noteq> p" "q \<noteq> i # p" "j # q \<noteq> p"
      by blast
    then show ?thesis
    proof cases
      case 1 then show ?thesis using link(1) by simp
    next
      case 2 then show ?thesis using link(2) I(2) by (auto simp: fun_upd_def)
    next
      case 3
      then have "j # q \<noteq> p" "j # q \<noteq> i # p" by auto
      then show ?thesis using 3 down I(2) by simp
    next
      case 4
      then have "p \<noteq> []" "q \<noteq> p" by auto
      then show ?thesis using 4 up I(2) by auto
    next
      case 5
      then have "j # q \<noteq> i # p" by auto
      then show ?thesis using 5 I(2) by simp
    qed
  qed
  moreover have "node_ok array q (?s q)" for q using ok I(1) by simp
  ultimately show ?thesis unfolding fm_inv_def by blast
qed

section \<open>Preservation\<close>

text \<open>What a slave is told is its part; the part of a slave is well formed when its master's is.\<close>

lemma part_slave:
  assumes "p \<noteq> []" "part n p = (sz, st)"
  shows "part n (i # p) = (part_size i sz, part_start i sz st)"
  using assms by (cases p) auto

lemma slave_part_ok:
  assumes "2 \<le> length array" and "node_ok array p pc" "slave_phase (big array p) pc i \<noteq> Before"
  obtains sz st where "part (int (length array)) (i # p) = (sz, st)" "part_ok (int (length array)) sz st"
proof -
  obtain sz st where p: "part (int (length array)) p = (sz, st)" by fastforce
  show ?thesis
  proof (cases "p = []")
    case True
    have "part_ok (int (length array)) (int (length array)) 0" using assms(1) unfolding part_ok_def by linarith
    then show ?thesis using that True by simp
  next
    case False
    have "part_ok (int (length array)) sz st" "2 < sz" "i < 2"
      using assms(2,3) p False by (cases pc; auto simp: node_ok_def big_def split: if_splits)+
    then show ?thesis using that part_slave [OF False p] part_ok_part by simp
  qed
qed

lemma fm_invD:
  assumes "fm_inv array s"
  shows "node_ok array p (s p)" "phase_of (s (i # p)) = slave_phase (big array p) (s p) i"
  using assms by (auto simp: fm_inv_def)

lemma begin_keeps:
  assumes n: "2 \<le> length array" and inv: "fm_inv array s" and st: "starts (s p) = Some (i, pc)" "s (i # p) = Absent"
  shows "fm_inv array (s(p := pc, i # p := GetSize))"
proof -
  have "node_ok array p pc"
    using fm_invD(1) [OF inv, of p] st(1) by (cases "s p") (auto simp: node_ok_def split: if_splits prod.splits)
  moreover from this have "slave_phase (big array p) pc i \<noteq> Before"
    using st(1) by (cases "s p") (auto simp: node_ok_def)
  then obtain sz' st' where "part (int (length array)) (i # p) = (sz', st')" "part_ok (int (length array)) sz' st'"
    using slave_part_ok [OF n \<open>node_ok array p pc\<close>] by blast
  then have "node_ok array (i # p) GetSize" by (simp add: node_ok_def)
  ultimately show ?thesis
    by (rule fm_inv_step [OF inv]) (use st in \<open>cases "s p"; auto\<close>)+
qed

lemma size_keeps:
  assumes n: "2 \<le> length array" and inv: "fm_inv array s" and st: "puts_size (s p) = Some (i, k, pc)" "s (i # p) = GetSize"
  shows "fm_inv array (s(p := pc, i # p := take_size k))"
proof -
  have ok: "node_ok array p pc"
    using fm_invD(1) [OF inv, of p] st(1) by (cases "s p") (auto simp: node_ok_def split: if_splits prod.splits)
  have "slave_phase (big array p) pc i \<noteq> Before" using st(1) by (cases "s p") auto
  then obtain sz' st' where q: "part (int (length array)) (i # p) = (sz', st')" "part_ok (int (length array)) sz' st'"
    using slave_part_ok [OF n ok] by blast
  have "k = sz'"
    using fm_invD(1) [OF inv, of p] st(1) q(1) part_slave [of p "int (length array)"]
    by (cases "s p"; cases "p = []") (auto simp: node_ok_def split: prod.splits)
  then have t: "take_size k = GetStart sz'" using q(2) by (simp add: take_size_def part_ok_def)
  have "node_ok array (i # p) (take_size k)" using q t by (simp add: node_ok_def)
  then show ?thesis
    by (rule fm_inv_step [OF inv ok]) (use st t in \<open>cases "s p"; auto\<close>)+
qed

lemma Max_two:
  assumes "part (int (length array)) p = (2, st)" "0 \<le> st"
  shows "Max (elems array p) = (if array ! nat st < array ! nat (st + 1) then array ! nat (st + 1) else array ! nat st)"
proof -
  have "elems array p = (\<lambda>k. array ! nat k) ` {k. st \<le> k \<and> k < st + 2}" using assms by (auto simp: elems_def)
  also have "{k. st \<le> k \<and> k < st + 2} = {st, st + 1}" by auto
  finally show ?thesis by (simp add: max_def)
qed

lemma Max_one:
  assumes "part (int (length array)) p = (1, st)"
  shows "Max (elems array p) = array ! nat st"
proof -
  have "elems array p = (\<lambda>k. array ! nat k) ` {k. st \<le> k \<and> k < st + 1}" using assms by (auto simp: elems_def)
  also have "{k. st \<le> k \<and> k < st + 1} = {st}" by auto
  finally show ?thesis by simp
qed

lemma take_start_ok:
  assumes p: "part (int (length array)) p = (sz, st)" "part_ok (int (length array)) sz st" and "p \<noteq> []"
  shows "node_ok array p (take_start array sz st)" "phase_of (take_start array sz st) = Busy"
    "slave_phase (big array p) (take_start array sz st) j = Before"
proof -
  have "2 < sz \<or> sz = 2 \<or> sz = 1" using p(2) unfolding part_ok_def by linarith
  then consider "2 < sz" | "sz = 2" | "sz = 1" by blast
  then have "node_ok array p (take_start array sz st) \<and> phase_of (take_start array sz st) = Busy \<and>
    slave_phase (big array p) (take_start array sz st) j = Before"
  proof cases
    case 1
    then show ?thesis using p assms(3) by (simp add: take_start_def part_ok_def node_ok_def Let_def)
  next
    case 2
    then show ?thesis using p assms(3) Max_two [of array p st] by (simp add: take_start_def part_ok_def node_ok_def Let_def big_def)
  next
    case 3
    then show ?thesis using p assms(3) Max_one [of array p st] by (simp add: take_start_def part_ok_def node_ok_def Let_def big_def)
  qed
  then show "node_ok array p (take_start array sz st)" "phase_of (take_start array sz st) = Busy"
    "slave_phase (big array p) (take_start array sz st) j = Before" by auto
qed

lemma start_keeps:
  assumes n: "2 \<le> length array" and inv: "fm_inv array s" and st: "puts_start (s p) = Some (i, b, pc)" "s (i # p) = GetStart k"
  shows "fm_inv array (s(p := pc, i # p := take_start array k b))"
proof -
  have ok: "node_ok array p pc"
    using fm_invD(1) [OF inv, of p] st(1) by (cases "s p") (auto simp: node_ok_def split: if_splits prod.splits)
  have "i < 2" using fm_invD(1) [OF inv, of p] st(1) by (cases "s p") (auto simp: node_ok_def split: if_splits prod.splits)
  then have busy: "slave_phase (big array p) pc i = Busy" using st(1) by (cases "s p") auto
  then obtain sz' st' where q: "part (int (length array)) (i # p) = (sz', st')" "part_ok (int (length array)) sz' st'"
    using slave_part_ok [OF n ok, of i] by auto
  have "k = sz'" using fm_invD(1) [OF inv, of "i # p"] st(2) q by (simp add: node_ok_def)
  moreover have "b = st'"
    using fm_invD(1) [OF inv, of p] st(1) q(1) part_slave [of p "int (length array)"]
    by (cases "s p"; cases "p = []") (auto simp: node_ok_def split: prod.splits)
  ultimately have t: "node_ok array (i # p) (take_start array k b)" "phase_of (take_start array k b) = Busy"
    "\<And>j. slave_phase (big array (i # p)) (take_start array k b) j = Before"
    using take_start_ok [OF q] by auto
  show ?thesis
  proof (rule fm_inv_step [OF inv ok t(1)])
    show "phase_of (take_start array k b) = slave_phase (big array p) pc i" using t(2) busy by simp
    show "slave_phase (big array p) pc j = slave_phase (big array p) (s p) j" if "j \<noteq> i" for j
      using that st(1) \<open>i < 2\<close> by (cases "s p") auto
    show "phase_of pc = phase_of (s p)" if "p \<noteq> []"
      using that st(1) fm_invD(1) [OF inv, of p] by (cases "s p") (auto simp: node_ok_def split: prod.splits)
    show "slave_phase (big array (i # p)) (take_start array k b) j = slave_phase (big array (i # p)) (s (i # p)) j" for j
      using t(3) st(2) by simp
  qed
qed

lemma Max_master:
  assumes "p \<noteq> []" "part (int (length array)) p = (sz, st)" "part_ok (int (length array)) sz st" "2 < sz"
  shows "Max (elems array p) = (let m0 = Max (elems array (0 # p)); m1 = Max (elems array (1 # p)) in if m0 < m1 then m1 else m0)"
proof -
  have f: "finite (elems array (i # p))" "elems array (i # p) \<noteq> {}" if "i < 2" for i
    using elems_finite [OF part_slave [OF assms(1,2)]] part_ok_part [OF assms(3,4) that] by blast+
  show ?thesis
    unfolding elems_split [OF assms(1,2,4)] using Max_Un [OF f [of 0] f [of 1]] by (simp add: Let_def max_def)
qed

lemma max_keeps:
  assumes inv: "fm_inv array s" and st: "gets_max (s p) = Some (i, f)" "s (i # p) = PutMax m"
  shows "fm_inv array (s(p := f m, i # p := Gone))"
proof -
  obtain sz' st' where q: "part (int (length array)) (i # p) = (sz', st')" by fastforce
  then have m: "m = Max (elems array (i # p))" and gone: "node_ok array (i # p) Gone"
    using fm_invD(1) [OF inv, of "i # p"] st(2) by (simp_all add: node_ok_def)
  have ok: "node_ok array p (f m)"
  proof (cases "s p")
    case (GetMax0 sz st)
    then show ?thesis using fm_invD(1) [OF inv, of p] assms(2) m by (auto simp: node_ok_def split: if_splits prod.splits)
  next
    case (GetMax1 sz st m0)
    then show ?thesis
      using fm_invD(1) [OF inv, of p] assms(2) m Max_master [of p array sz st]
      by (auto simp: node_ok_def Let_def split: if_splits prod.splits)
  next
    case MainGetMax
    then show ?thesis
      using fm_invD(1) [OF inv, of p] assms(2) m elems_all by (auto simp: node_ok_def split: if_splits prod.splits)
  qed (use st(1) in auto)
  have b: "big array p" if "p \<noteq> []"
    using that fm_invD(1) [OF inv, of p] st(1) by (cases "s p") (auto simp: node_ok_def big_def split: prod.splits)
  have mn: "p = []" if "s p = MainGetMax" using that fm_invD(1) [OF inv, of p] by (auto simp: node_ok_def split: if_splits prod.splits)
  have nm: "p \<noteq> []" if "s p \<noteq> MainGetMax" using that fm_invD(1) [OF inv, of p] st(1) by (cases "s p") (auto simp: node_ok_def)
  show ?thesis
  proof (rule fm_inv_step [OF inv ok gone])
    show "phase_of Gone = slave_phase (big array p) (f m) i" using b mn nm st(1) by (cases "s p") auto
    show "slave_phase (big array p) (f m) j = slave_phase (big array p) (s p) j" if "j \<noteq> i" for j
      using b mn nm st(1) that by (cases "s p") auto
    show "phase_of (f m) = phase_of (s p)" if "p \<noteq> []"
      using that st(1) fm_invD(1) [OF inv, of p] by (cases "s p") (auto simp: node_ok_def split: prod.splits)
    show "slave_phase (big array (i # p)) Gone j = slave_phase (big array (i # p)) (s (i # p)) j" for j using st(2) by simp
  qed
qed

lemma fm_step_keeps: "fm_step array s s' \<Longrightarrow> 2 \<le> length array \<Longrightarrow> fm_inv array s \<Longrightarrow> fm_inv array s'"
  by (induction rule: fm_step.induct) (blast intro: begin_keeps size_keeps start_keeps max_keeps)+

section \<open>Progress and termination\<close>

text \<open>While a coroutine is busy, somebody can take a step: the coroutine itself, or one it waits for.\<close>

lemma busy_moves:
  assumes inv: "fm_inv array s"
  shows "p \<noteq> [] \<Longrightarrow> phase_of (s p) = Busy \<Longrightarrow> (\<exists>m. s p = PutMax m) \<or> (\<exists>s'. fm_step array s s')"
proof (induction "nat (fst (part (int (length array)) p))" arbitrary: p rule: less_induct)
  case less
  obtain sz st where q: "part (int (length array)) p = (sz, st)" by fastforce
  note I = fm_invD(1) [OF inv, of p] fm_invD(2) [OF inv, of _ p]
  have ok: "pc_ok array p sz st (s p)" "s p \<noteq> Absent \<longrightarrow> part_ok (int (length array)) sz st"
    using I(1) less.prems(1) q by (auto simp: node_ok_def)
  have wait: "\<exists>s'. fm_step array s s'" if g: "gets_max (s p) = Some (i, f)" "i < 2" "2 < sz" for i f
  proof -
    have b: "phase_of (s (i # p)) = Busy" using I(2) [of i] g less.prems(2) by (cases "s p") auto
    have "nat (fst (part (int (length array)) (i # p))) < nat sz"
      using part_slave [OF less.prems(1) q] part_ok_part [of "int (length array)" sz st i] ok(2) g less.prems(2)
      by (auto simp: part_ok_def)
    then consider m where "s (i # p) = PutMax m" | s' where "fm_step array s s'"
      using less.hyps [of "i # p"] b q by auto
    then show ?thesis using fm_step.hand_max [of s p i f] g(1) by cases blast+
  qed
  show ?case
  proof (cases "s p")
    case (Start i n k)
    then have "s (i # p) = Absent" using I(2) [of i] ok(1) by (cases "s (i # p)") auto
    then show ?thesis using fm_step.begin_slave [of s p i] Start by force
  next
    case (PutSize i n k)
    then have "s (i # p) = GetSize" using I(2) [of i] ok(1) by (cases "s (i # p)") auto
    then show ?thesis using fm_step.hand_size [of s p i] PutSize by force
  next
    case (PutStart i n k)
    then obtain x where "s (i # p) = GetStart x" using I(2) [of i] ok(1) by (cases "s (i # p)") auto
    then show ?thesis using fm_step.hand_start [of s p i] PutStart by force
  next
    case (GetMax0 n k)
    then show ?thesis using wait [of 0] ok(1) by auto
  next
    case (GetMax1 n k m)
    then show ?thesis using wait [of 1] ok(1) by auto
  qed (use less.prems(2) in auto)
qed

lemma main_moves:
  assumes inv: "fm_inv array s"
  shows "s [] = MainDone (Max (set array)) \<or> (\<exists>s'. fm_step array s s')"
proof -
  note I = fm_invD(1) [OF inv, of "[]"] fm_invD(2) [OF inv, of 0 "[]"]
  show ?thesis
  proof (cases "s []")
    case (MainStart n)
    then have "s [0] = Absent" using I(2) by (cases "s [0]") auto
    then show ?thesis using fm_step.begin_slave [of s "[]" 0] MainStart by force
  next
    case (MainPutSize n)
    then have "s [0] = GetSize" using I(2) by (cases "s [0]") auto
    then show ?thesis using fm_step.hand_size [of s "[]" 0] MainPutSize by force
  next
    case (MainPutStart n)
    then obtain x where "s [0] = GetStart x" using I(2) by (cases "s [0]") auto
    then show ?thesis using fm_step.hand_start [of s "[]" 0] MainPutStart by force
  next
    case MainGetMax
    then have "phase_of (s [0]) = Busy" using I(2) by simp
    then show ?thesis using busy_moves [OF inv, of "[0]"] fm_step.hand_max [of s "[]" 0] MainGetMax by force
  qed (use I(1) in \<open>auto simp: node_ok_def\<close>)
qed

text \<open>The coroutines a run can have: the main program, its slave, and two for every part of more than two elements.\<close>

inductive_set tree :: "int list \<Rightarrow> nat list set" for array where
  main: "[] \<in> tree array"
| root: "[0] \<in> tree array"
| slave: "p \<in> tree array \<Longrightarrow> p \<noteq> [] \<Longrightarrow> big array p \<Longrightarrow> i < 2 \<Longrightarrow> i # p \<in> tree array"

lemma tree_bound:
  assumes "p \<in> tree array"
  shows "set p \<subseteq> {0, 1} \<and> (p \<noteq> [] \<longrightarrow> fst (part (int (length array)) p) + int (length p) \<le> int (length array) + 1)"
  using assms
proof induction
  case (slave p i)
  obtain sz st where q: "part (int (length array)) p = (sz, st)" by fastforce
  have "part_size i sz < sz" using slave q by (auto simp: big_def part_size_def)
  then show ?case using slave part_slave [OF slave.hyps(2) q, of i] q by (auto simp: less_2_cases_iff)
qed auto

lemma tree_size:
  assumes "p \<in> tree array" "p \<noteq> []" "array \<noteq> []"
  shows "0 < fst (part (int (length array)) p)"
  using assms
proof induction
  case (slave p i)
  obtain sz st where q: "part (int (length array)) p = (sz, st)" by fastforce
  show ?case using slave part_slave [OF slave.hyps(2) q, of i] q by (auto simp: big_def part_size_def)
qed auto

lemma tree_finite: "array \<noteq> [] \<Longrightarrow> finite (tree array)"
proof -
  assume a: "array \<noteq> []"
  have "length p \<le> length array" if "p \<in> tree array" for p
    using tree_bound [OF that] tree_size [OF that _ a] by (cases "p = []") auto
  then have "tree array \<subseteq> {p. set p \<subseteq> {0, 1} \<and> length p \<le> length array}" using tree_bound by blast
  then show ?thesis using finite_lists_length_le [of "{0, 1 :: nat}" "length array"] finite_subset by blast
qed

lemma present_in_tree:
  assumes inv: "fm_inv array s" and "s p \<noteq> Absent"
  shows "p \<in> tree array"
  using assms(2)
proof (induction p)
  case Nil
  show ?case by (rule tree.main)
next
  case (Cons i p)
  have ph: "slave_phase (big array p) (s p) i \<noteq> Before"
    using fm_invD(2) [OF inv, of i p] fm_invD(1) [OF inv, of "i # p"] Cons.prems by (cases "s (i # p)") (auto simp: node_ok_def split: prod.splits)
  then have p: "p \<in> tree array" using Cons.IH by (cases "s p") auto
  show ?case
  proof (cases "p = []")
    case True
    then show ?thesis using ph fm_invD(1) [OF inv, of p] tree.root
      by (cases "s p") (auto simp: node_ok_def split: if_splits)
  next
    case False
    then have "big array p" "i < 2"
      using ph fm_invD(1) [OF inv, of p] by (cases "s p"; auto simp: node_ok_def big_def split: if_splits prod.splits)+
    then show ?thesis using tree.slave p False by blast
  qed
qed

fun rank :: "fpc \<Rightarrow> nat" where
  "rank Absent = 12"
| "rank GetSize = 11"
| "rank (GetStart n) = 10"
| "rank (Start i n k) = (if i = 0 then 9 else 6)"
| "rank (PutSize i n k) = (if i = 0 then 8 else 5)"
| "rank (PutStart i n k) = (if i = 0 then 7 else 4)"
| "rank (GetMax0 n k) = 3"
| "rank (GetMax1 n k m) = 2"
| "rank (PutMax m) = 1"
| "rank (MainStart n) = 4"
| "rank (MainPutSize n) = 3"
| "rank (MainPutStart n) = 2"
| "rank MainGetMax = 1"
| "rank _ = 0"

definition work :: "int list \<Rightarrow> fstate \<Rightarrow> nat" where
  "work array s = (\<Sum>p\<in>tree array. rank (s p))"

lemma rank_step:
  assumes "fm_step array s s'"
  obtains p i c1 c2 where "s' = s(p := c1, i # p := c2)" "rank c1 < rank (s p)" "rank c2 \<le> rank (s (i # p))" "s p \<noteq> Absent"
  using assms
proof cases
  case (begin_slave p i pc)
  then show ?thesis by (intro that [of p pc i GetSize]) (cases "s p"; auto)+
next
  case (hand_size p i n pc)
  then show ?thesis by (intro that [of p pc i "take_size n"]) (cases "s p"; auto simp: take_size_def)+
next
  case (hand_start p i st pc n)
  then show ?thesis by (intro that [of p pc i "take_start array n st"]) (cases "s p"; auto simp: take_start_def Let_def)+
next
  case (hand_max p i f m)
  then show ?thesis by (intro that [of p "f m" i Gone]) (cases "s p"; auto)+
qed

lemma work_decreases:
  assumes "fm_step array s s'" "fm_inv array s" "array \<noteq> []"
  shows "work array s' < work array s"
proof -
  obtain p i c1 c2 where s': "s' = s(p := c1, i # p := c2)" "rank c1 < rank (s p)" "rank c2 \<le> rank (s (i # p))" "s p \<noteq> Absent"
    by (rule rank_step [OF assms(1)])
  have "p \<in> tree array" by (rule present_in_tree [OF assms(2) s'(4)])
  moreover have "rank (s' p) < rank (s p)" "\<forall>q. rank (s' q) \<le> rank (s q)" using s' by auto
  ultimately show ?thesis
    unfolding work_def using tree_finite [OF assms(3)] by (intro sum_strict_mono_ex1) auto
qed

lemma run_bound:
  assumes "2 \<le> length array"
  shows "(fm_step array ^^ k) (fm_init array) s \<Longrightarrow> fm_inv array s \<and> work array s + k \<le> work array (fm_init array)"
proof (induction k arbitrary: s)
  case 0
  then show ?case using fm_inv_init [of array] by auto
next
  case (Suc k)
  then obtain s1 where s1: "(fm_step array ^^ k) (fm_init array) s1" "fm_step array s1 s" by auto
  have "array \<noteq> []" using assms by auto
  then show ?case using Suc.IH [OF s1(1)] work_decreases [OF s1(2)] fm_step_keeps [OF s1(2) assms] by force
qed

section \<open>Properties\<close>

text \<open>
  Claim C39. The program finds the maximum, whatever the array of two or more elements holds and in whatever order its coroutines
  run: no access is beyond the end of the array; as long as \<open>main\<close> does not have its answer somebody can go on, so the
  exchange over the channels never comes to a deadlock; there is a bound on the number of steps; and the answer is the maximum.
\<close>

theorem findmax_correct:
  assumes n: "2 \<le> length array" and run: "(fm_step array)\<^sup>*\<^sup>* (fm_init array) s"
  shows "(\<forall>p. s p \<noteq> Fault) \<and> (\<forall>m. s [] = MainDone m \<longrightarrow> m = Max (set array)) \<and>
    (s [] = MainDone (Max (set array)) \<or> (\<exists>s'. fm_step array s s')) \<and>
    (\<exists>K. \<forall>k s'. (fm_step array ^^ k) (fm_init array) s' \<longrightarrow> k \<le> K)"
proof -
  obtain k where "(fm_step array ^^ k) (fm_init array) s" using run by (metis rtranclp_imp_relpowp)
  then have inv: "fm_inv array s" using run_bound [OF n] by blast
  have "s p \<noteq> Fault" for p
    using fm_invD(1) [OF inv, of p] by (auto simp: node_ok_def split: if_splits prod.splits)
  moreover have "\<forall>m. s [] = MainDone m \<longrightarrow> m = Max (set array)"
    using fm_invD(1) [OF inv, of "[]"] by (auto simp: node_ok_def)
  moreover have "\<forall>k s'. (fm_step array ^^ k) (fm_init array) s' \<longrightarrow> k \<le> work array (fm_init array)"
    using run_bound [OF n] by fastforce
  ultimately show ?thesis using main_moves [OF inv] by blast
qed

text \<open>Three elements: the run can begin, and it ends.\<close>

theorem findmax_correct_witness:
  "(\<exists>s. fm_step [3, 1, 2] (fm_init [3, 1, 2]) s) \<and> (\<exists>K. \<forall>k s. (fm_step [3, 1, 2] ^^ k) (fm_init [3, 1, 2]) s \<longrightarrow> k \<le> K)"
proof -
  have "fm_init [3, 1, 2] [] \<noteq> MainDone (Max (set [3, 1, 2]))" by (simp add: fm_init_def)
  then show ?thesis using findmax_correct [of "[3, 1, 2]" "fm_init [3, 1, 2]"] by auto
qed

text \<open>The check at the end of the program never complains about that answer.\<close>

lemma check_max_elem_iff: "check_max_elem xs m \<longleftrightarrow> (\<forall>x\<in>set xs. x \<le> m)"
  by (induction xs) auto

lemma findmax_checked:
  assumes "2 \<le> length array" "(fm_step array)\<^sup>*\<^sup>* (fm_init array) s" "s [] = MainDone m"
  shows "check_max_elem array m"
proof -
  obtain k where "(fm_step array ^^ k) (fm_init array) s" using assms(2) by (metis rtranclp_imp_relpowp)
  then have "node_ok array [] (s [])" using run_bound [OF assms(1)] fm_invD(1) by blast
  then show ?thesis using assms(3) by (simp add: node_ok_def check_max_elem_iff)
qed

text \<open>An array of a single element would be read beyond its end: the second element of a part is read whatever its size.\<close>

lemma single_element_faults: "\<exists>s. (fm_step [x])\<^sup>*\<^sup>* (fm_init [x]) s \<and> s [0] = Fault"
proof -
  let ?s = "\<lambda>m c. (\<lambda>p. Absent)([] := m, [0] := c) :: fstate"
  have 1: "fm_step [x] (fm_init [x]) (?s (MainPutSize 1) GetSize)"
    using fm_step.begin_slave [of "fm_init [x]" "[]" 0 "MainPutSize 1" "[x]"] by (simp add: fm_init_def)
  have 2: "fm_step [x] (?s (MainPutSize 1) GetSize) (?s (MainPutStart 0) (GetStart 1))"
    using fm_step.hand_size [of "?s (MainPutSize 1) GetSize" "[]" 0 1 "MainPutStart 0" "[x]"]
    by (simp add: take_size_def fun_upd_twist)
  have 3: "fm_step [x] (?s (MainPutStart 0) (GetStart 1)) (?s MainGetMax Fault)"
    using fm_step.hand_start [of "?s (MainPutStart 0) (GetStart 1)" "[]" 0 0 MainGetMax 1 "[x]"]
    by (simp add: take_start_def fun_upd_twist)
  have "(fm_step [x])\<^sup>*\<^sup>* (fm_init [x]) (?s MainGetMax Fault)"
    using 1 2 3 by (meson converse_rtranclp_into_rtranclp rtranclp.rtrancl_refl)
  then show ?thesis by (intro exI [of _ "?s MainGetMax Fault"]) simp
qed

end
